(* ===== verification/Prelude.thy ===== *)
theory Prelude
  imports Main "HOL-Library.Word"
begin

text \<open>
  Vocabulary shared by the component theories: machine integers kept as
  naturals with their bounds written out, the result type of fallible
  operations, and the ordered map that stands for \<open>BTreeMap\<close> (and, where the
  iteration order is immaterial, for \<open>HashMap\<close>/\<open>DashMap\<close>): an association
  list sorted by key, with total lookup, insertion, removal and retention.
  The lemmas on it are unconditional where the operation allows it, so that
  the component proofs rewrite lookups without carrying sortedness around.
\<close>

named_theorems inv_simps \<open>unfoldings of the component invariants\<close>
named_theorems op_simps \<open>unfoldings of the operations of a component\<close>
named_theorems keep_simps \<open>fields an operation leaves unchanged\<close>

subsection \<open>Types\<close>

type_synonym timestamp = nat
type_synonym instant = nat
type_synonym duration = nat
type_synonym txn_id = nat
type_synonym byte = "8 word"
type_synonym i32 = "32 word"
type_synonym u64 = "64 word"
type_synonym i64 = "64 word"
type_synonym ('e, 'a) result = "'e + 'a"

subsection \<open>Checked and saturating 64-bit arithmetic\<close>

definition u64_max :: nat where
  "u64_max = 2 ^ 64 - 1"

definition checked_add_u64 :: "nat \<Rightarrow> nat \<Rightarrow> nat option" where
  "checked_add_u64 a b = (if a + b \<le> u64_max then Some (a + b) else None)"

definition saturating_add_u64 :: "nat \<Rightarrow> nat \<Rightarrow> nat" where
  "saturating_add_u64 a b = min (a + b) u64_max"

definition saturating_sub_u64 :: "nat \<Rightarrow> nat \<Rightarrow> nat" where
  "saturating_sub_u64 a b = a - b"

subsection \<open>Results\<close>

fun is_ok :: "('e, 'a) result \<Rightarrow> bool" where
  "is_ok (Inl _) = False"
| "is_ok (Inr _) = True"

fun is_err :: "('e, 'a) result \<Rightarrow> bool" where
  "is_err (Inl _) = True"
| "is_err (Inr _) = False"

fun bind_result :: "('e, 'a) result \<Rightarrow> ('a \<Rightarrow> ('e, 'b) result) \<Rightarrow> ('e, 'b) result" where
  "bind_result (Inl e) f = Inl e"
| "bind_result (Inr a) f = f a"

subsection \<open>Ordered maps\<close>

type_synonym ('k, 'v) bmap = "('k \<times> 'v) list"

definition bm_get :: "('k, 'v) bmap \<Rightarrow> 'k \<Rightarrow> 'v option" where
  "bm_get m k = map_of m k"

fun bm_insert :: "'k::linorder \<Rightarrow> 'v \<Rightarrow> ('k, 'v) bmap \<Rightarrow> ('k, 'v) bmap" where
  "bm_insert k v [] = [(k, v)]"
| "bm_insert k v ((k', v') # m) =
     (if k < k' then (k, v) # (k', v') # m
      else if k = k' then (k, v) # m
      else (k', v') # bm_insert k v m)"

definition bm_remove :: "'k \<Rightarrow> ('k, 'v) bmap \<Rightarrow> ('k, 'v) bmap" where
  "bm_remove k m = filter (\<lambda>e. fst e \<noteq> k) m"

definition bm_retain :: "('k \<Rightarrow> 'v \<Rightarrow> bool) \<Rightarrow> ('k, 'v) bmap \<Rightarrow> ('k, 'v) bmap" where
  "bm_retain P m = filter (\<lambda>e. P (fst e) (snd e)) m"

definition bm_keys :: "('k, 'v) bmap \<Rightarrow> 'k list" where
  "bm_keys m = map fst m"

definition bm_first_key :: "('k, 'v) bmap \<Rightarrow> 'k option" where
  "bm_first_key m = (case m of [] \<Rightarrow> None | e # _ \<Rightarrow> Some (fst e))"

definition bm_above :: "'k::linorder \<Rightarrow> ('k, 'v) bmap \<Rightarrow> ('k, 'v) bmap" where
  "bm_above k m = filter (\<lambda>e. k < fst e) m"

definition bm_ok :: "('k::linorder, 'v) bmap \<Rightarrow> bool" where
  "bm_ok m = sorted_wrt (<) (map fst m)"

subsection \<open>Lemmas on bounded arithmetic\<close>

lemma u64_max_pos [simp]: "0 < u64_max"
  by (simp add: u64_max_def)

lemma u64_max_gt_2 [simp]: "2 < u64_max"
  by (simp add: u64_max_def)

lemma checked_add_u64_Some [simp]:
  "checked_add_u64 a b = Some c \<longleftrightarrow> c = a + b \<and> a + b \<le> u64_max"
  by (auto simp: checked_add_u64_def)

lemma checked_add_u64_None [simp]:
  "checked_add_u64 a b = None \<longleftrightarrow> u64_max < a + b"
  by (auto simp: checked_add_u64_def)

lemma saturating_add_u64_le [simp]: "saturating_add_u64 a b \<le> u64_max"
  by (simp add: saturating_add_u64_def)

lemma saturating_add_u64_below [simp]:
  "a + b \<le> u64_max \<Longrightarrow> saturating_add_u64 a b = a + b"
  by (simp add: saturating_add_u64_def)

lemma unat_bound: "unat (w :: 'a::len word) < 2 ^ LENGTH('a)"
  by (rule unsigned_less)

lemma sint_uint_i64: "sint (w :: i64) = uint w - 2 ^ 64 * of_bool (bit w 63)"
proof -
  have "take_bit 64 (uint w) = uint w"
    using unsigned_less [of w] by (simp add: take_bit_int_eq_self_iff)
  then show ?thesis
    by (simp add: sint_uint signed_take_bit_eq_take_bit_minus bit_unsigned_iff)
qed

lemma sint_nonneg_uint: "0 \<le> sint (i :: i64) \<Longrightarrow> sint i = uint i"
  using unsigned_less [of i, where ?'a = int]
  by (simp add: sint_uint_i64 of_bool_def split: if_splits)

lemma uint_small_sint: "uint (i :: i64) < 2 ^ 63 \<Longrightarrow> sint i = uint i"
  using order_trans [of "- 9223372036854775808" 0 "uint i"]
  by (simp add: sint_uint signed_take_bit_int_eq_self_iff)

subsection \<open>Lemmas on results\<close>

lemma bind_result_Inr [simp]:
  "bind_result r f = Inr b \<longleftrightarrow> (\<exists>a. r = Inr a \<and> f a = Inr b)"
  by (cases r) auto

lemma is_ok_iff: "is_ok r \<longleftrightarrow> (\<exists>a. r = Inr a)"
  by (cases r) auto

lemma is_err_iff: "is_err r \<longleftrightarrow> (\<exists>e. r = Inl e)"
  by (cases r) auto

subsection \<open>Lemmas on ordered maps\<close>

lemma bm_get_Nil [simp]: "bm_get [] k = None"
  by (simp add: bm_get_def)

lemma bm_get_Cons [simp]:
  "bm_get ((k', v) # m) k = (if k = k' then Some v else bm_get m k)"
  by (simp add: bm_get_def)

lemma bm_get_insert [simp]:
  "bm_get (bm_insert k v m) k' = (if k' = k then Some v else bm_get m k')"
  by (induction k v m rule: bm_insert.induct) auto

lemma bm_get_remove [simp]:
  "bm_get (bm_remove k m) k' = (if k' = k then None else bm_get m k')"
  by (induction m) (auto simp: bm_remove_def)

lemma bm_get_fun_insert: "bm_get (bm_insert k v m) = (bm_get m)(k \<mapsto> v)"
  by (rule ext) simp

lemma bm_get_fun_remove: "bm_get (bm_remove k m) = (bm_get m)(k := None)"
  by (rule ext) simp

lemma bm_keys_simps [simp]:
  "bm_keys [] = []" "bm_keys (e # m) = fst e # bm_keys m"
  by (simp_all add: bm_keys_def)

lemma bm_get_None_iff: "bm_get m k = None \<longleftrightarrow> k \<notin> set (bm_keys m)"
  by (simp add: bm_get_def bm_keys_def map_of_eq_None_iff)

lemma bm_get_Some_key: "bm_get m k = Some v \<Longrightarrow> k \<in> set (bm_keys m)"
  by (induction m) (auto split: if_splits)

lemma bm_get_SomeD: "bm_get m k = Some v \<Longrightarrow> (k, v) \<in> set m"
  by (simp add: bm_get_def map_of_SomeD)

lemma set_keys_insert [simp]: "set (bm_keys (bm_insert k v m)) = insert k (set (bm_keys m))"
  by (induction k v m rule: bm_insert.induct) auto

lemma set_keys_remove [simp]: "set (bm_keys (bm_remove k m)) = set (bm_keys m) - {k}"
  by (induction m) (auto simp: bm_remove_def)

lemma bm_ok_Nil [simp]: "bm_ok []"
  by (simp add: bm_ok_def)

lemma bm_ok_Cons [simp]:
  "bm_ok ((k, v) # m) \<longleftrightarrow> (\<forall>k' \<in> set (bm_keys m). k < k') \<and> bm_ok m"
  by (simp add: bm_ok_def bm_keys_def)

lemma bm_ok_insert [simp]: "bm_ok m \<Longrightarrow> bm_ok (bm_insert k v m)"
  by (induction k v m rule: bm_insert.induct) auto

lemma bm_ok_filter [simp]: "bm_ok m \<Longrightarrow> bm_ok (filter P m)"
  by (induction m) (auto simp: bm_ok_def)

lemma bm_ok_remove [simp]: "bm_ok m \<Longrightarrow> bm_ok (bm_remove k m)"
  by (simp add: bm_remove_def)

lemma bm_ok_retain [simp]: "bm_ok m \<Longrightarrow> bm_ok (bm_retain P m)"
  by (simp add: bm_retain_def)

lemma bm_ok_distinct: "bm_ok m \<Longrightarrow> distinct (bm_keys m)"
  by (induction m) (auto simp: bm_ok_def bm_keys_def)

lemma bm_ok_get: "bm_ok m \<Longrightarrow> bm_get m k = Some v \<longleftrightarrow> (k, v) \<in> set m"
  using bm_ok_distinct [of m] by (simp add: bm_get_def bm_keys_def)

lemma bm_get_retain:
  "bm_ok m \<Longrightarrow> bm_get (bm_retain P m) k =
     (case bm_get m k of None \<Rightarrow> None | Some v \<Rightarrow> if P k v then Some v else None)"
proof (induction m)
  case Nil
  then show ?case by (simp add: bm_retain_def)
next
  case (Cons e m)
  obtain k' v' where e: "e = (k', v')" by force
  have "k' \<notin> set (bm_keys m)" using Cons.prems e by auto
  then have "bm_get m k' = None" by (simp add: bm_get_None_iff)
  then show ?case
    using Cons e by (auto simp: bm_retain_def split: option.splits)
qed

lemma bm_first_key_None [simp]: "bm_first_key m = None \<longleftrightarrow> m = []"
  by (cases m) (auto simp: bm_first_key_def)

lemma bm_first_key_Min:
  "bm_ok m \<Longrightarrow> bm_first_key m = Some k \<longleftrightarrow> m \<noteq> [] \<and> k = Min (set (bm_keys m))"
proof (cases m)
  case (Cons e m')
  obtain k' v' where e: "e = (k', v')" by force
  assume ok: "bm_ok m"
  then have "\<forall>j \<in> set (bm_keys m'). k' \<le> j" using Cons e by auto
  then have "Min (set (bm_keys m)) = k'" using Cons e by (simp add: Min_insert2)
  then show ?thesis using Cons e by (auto simp: bm_first_key_def)
qed (simp add: bm_first_key_def)

lemma bm_eq_Nil_iff: "m = [] \<longleftrightarrow> (\<forall>k. bm_get m k = None)"
  by (cases m) auto

lemma bm_insert_not_Nil [simp]: "bm_insert k v m \<noteq> []"
  by (induction k v m rule: bm_insert.induct) auto

lemma in_set_insert_bm: "bm_ok m \<Longrightarrow>
  x \<in> set (bm_insert k v m) \<longleftrightarrow> x = (k, v) \<or> (x \<in> set m \<and> fst x \<noteq> k)"
proof -
  assume ok: "bm_ok m"
  obtain a b where x: "x = (a, b)" by force
  have "x \<in> set (bm_insert k v m) \<longleftrightarrow> bm_get (bm_insert k v m) a = Some b"
    using ok x by (simp add: bm_ok_get del: bm_get_insert)
  also have "\<dots> \<longleftrightarrow> (a = k \<and> b = v) \<or> (a \<noteq> k \<and> (a, b) \<in> set m)"
    using ok by (auto simp: bm_ok_get)
  finally show ?thesis using x by auto
qed

end
