(* ===== verification/SnapshotTracker.thy ===== *)
theory SnapshotTracker
  imports Prelude "HOL-Library.Multiset"
begin

text \<open>
  The snapshot tracker (\<open>linkrs-transaction/src/snapshot_tracker.rs\<close>): the
  reference counts of the active snapshot timestamps, an ordered copy of their
  keys, and the cached minimum that garbage collection reads.  Every operation
  is one atomic transition here; reference counts are naturals.  Over any sequence of
  operations the tracker implements the multiset of the snapshots held.  The locale
  \<open>snapshot_registry\<close> is the contract the version manager relies on; it is
  interpreted on the tracker's own operations.
\<close>

subsection \<open>State and operations\<close>

datatype snapshot_error = SnapshotNotFound timestamp

record snapshot_tracker =
  snapshots :: "(timestamp, nat) bmap"
  ordered_snapshots :: "(timestamp, nat) bmap"
  registered_at :: "(timestamp, instant) bmap"
  min_active :: timestamp
  active_references :: nat

definition snapshot_tracker_new :: snapshot_tracker where
  "snapshot_tracker_new =
     \<lparr> snapshots = [], ordered_snapshots = [], registered_at = [],
       min_active = u64_max, active_references = 0 \<rparr>"

definition update_min_active :: "timestamp \<Rightarrow> snapshot_tracker \<Rightarrow> snapshot_tracker" where
  "update_min_active ts st = st\<lparr> min_active := min (min_active st) ts \<rparr>"

definition add_snapshot :: "timestamp \<Rightarrow> instant \<Rightarrow> snapshot_tracker \<Rightarrow> snapshot_tracker" where
  "add_snapshot ts now st0 =
     (let st = st0\<lparr> active_references := active_references st0 + 1 \<rparr> in
      case bm_get (snapshots st) ts of
        Some n \<Rightarrow> st\<lparr> snapshots := bm_insert ts (n + 1) (snapshots st) \<rparr>
      | None \<Rightarrow>
          update_min_active ts
            (st\<lparr> snapshots := bm_insert ts 1 (snapshots st),
                 registered_at := bm_insert ts now (registered_at st),
                 ordered_snapshots := bm_insert ts 1 (ordered_snapshots st) \<rparr>))"

definition release_snapshot ::
  "timestamp \<Rightarrow> snapshot_tracker \<Rightarrow> (snapshot_error, snapshot_tracker) result" where
  "release_snapshot ts st =
     (case bm_get (snapshots st) ts of
        None \<Rightarrow> Inl (SnapshotNotFound ts)
      | Some n \<Rightarrow>
          let new_count = n - 1;
              st1 = st\<lparr> snapshots := bm_insert ts new_count (snapshots st) \<rparr>;
              st2 =
                (if new_count = 0 then
                   let ordered = bm_remove ts (ordered_snapshots st1);
                       st' = st1\<lparr> snapshots := bm_remove ts (snapshots st1),
                                  registered_at := bm_remove ts (registered_at st1),
                                  ordered_snapshots := ordered \<rparr>
                   in if min_active st' = ts
                      then st'\<lparr> min_active :=
                             (case bm_first_key ordered of None \<Rightarrow> u64_max | Some k \<Rightarrow> k) \<rparr>
                      else st'
                 else st1)
          in Inr (st2\<lparr> active_references := active_references st2 - 1 \<rparr>))"

definition min_active_snapshot :: "snapshot_tracker \<Rightarrow> timestamp" where
  "min_active_snapshot st = (if min_active st = u64_max then u64_max else min_active st)"

definition cleanup_threshold :: "snapshot_tracker \<Rightarrow> timestamp" where
  "cleanup_threshold st = min_active_snapshot st"

definition is_active_snapshot :: "snapshot_tracker \<Rightarrow> timestamp \<Rightarrow> bool" where
  "is_active_snapshot st ts = (bm_get (snapshots st) ts \<noteq> None)"

definition snapshot_clear :: "snapshot_tracker \<Rightarrow> snapshot_tracker" where
  "snapshot_clear st =
     st\<lparr> snapshots := [], registered_at := [], ordered_snapshots := [],
         min_active := u64_max, active_references := 0 \<rparr>"

definition contains_snapshot :: "snapshot_tracker \<Rightarrow> timestamp \<Rightarrow> bool" where
  "contains_snapshot st ts = (bm_get (snapshots st) ts \<noteq> None)"

definition distinct_count :: "snapshot_tracker \<Rightarrow> nat" where
  "distinct_count st = length (ordered_snapshots st)"

definition ref_count :: "snapshot_tracker \<Rightarrow> timestamp \<Rightarrow> nat option" where
  "ref_count st ts = bm_get (snapshots st) ts"

definition active_count :: "snapshot_tracker \<Rightarrow> nat" where
  "active_count st = active_references st"

definition oldest_age :: "instant \<Rightarrow> snapshot_tracker \<Rightarrow> duration option" where
  "oldest_age now st =
     (case registered_at st of
        [] \<Rightarrow> None
      | es \<Rightarrow> Some (Max (set (map (\<lambda>e. now - snd e) es))))"

subsection \<open>Invariant\<close>

definition snapshot_refs :: "snapshot_tracker \<Rightarrow> timestamp \<Rightarrow> nat" where
  "snapshot_refs st ts = (case bm_get (snapshots st) ts of None \<Rightarrow> 0 | Some c \<Rightarrow> c)"

definition tracker_inv :: "snapshot_tracker \<Rightarrow> bool" where
  "tracker_inv st \<longleftrightarrow>
     bm_ok (snapshots st) \<and> bm_ok (ordered_snapshots st) \<and> bm_ok (registered_at st) \<and>
     set (bm_keys (ordered_snapshots st)) = set (bm_keys (snapshots st)) \<and>
     set (bm_keys (registered_at st)) = set (bm_keys (snapshots st)) \<and>
     (\<forall>k \<in> set (bm_keys (snapshots st)). k \<le> u64_max) \<and>
     (\<forall>e \<in> set (snapshots st). 0 < snd e) \<and>
     active_references st = sum_list (map snd (snapshots st)) \<and>
     min_active st = (case bm_first_key (ordered_snapshots st) of None \<Rightarrow> u64_max | Some k \<Rightarrow> k)"

subsection \<open>The contract of a snapshot registry\<close>

locale snapshot_registry =
  fixes fresh :: 's
    and add :: "timestamp \<Rightarrow> instant \<Rightarrow> 's \<Rightarrow> 's"
    and release :: "timestamp \<Rightarrow> 's \<Rightarrow> ('e, 's) result"
    and refs :: "'s \<Rightarrow> timestamp \<Rightarrow> nat"
    and minimum :: "'s \<Rightarrow> timestamp"
    and inv :: "'s \<Rightarrow> bool"
  assumes fresh_inv: "inv fresh"
    and fresh_refs: "refs fresh t = 0"
    and add_inv: "inv s \<Longrightarrow> t \<le> u64_max \<Longrightarrow> inv (add t i s)"
    and add_refs: "inv s \<Longrightarrow> refs (add t i s) u = refs s u + (if u = t then 1 else 0)"
    and release_missing: "inv s \<Longrightarrow> refs s t = 0 \<Longrightarrow> is_err (release t s)"
    and release_found: "inv s \<Longrightarrow> 0 < refs s t \<Longrightarrow>
      \<exists>s'. release t s = Inr s' \<and> inv s' \<and>
           (\<forall>u. refs s' u = refs s u - (if u = t then 1 else 0))"
    and minimum_none: "inv s \<Longrightarrow> (\<forall>u. refs s u = 0) \<Longrightarrow> minimum s = u64_max"
    and minimum_is: "inv s \<Longrightarrow> 0 < refs s u \<Longrightarrow>
      minimum s \<le> u \<and> 0 < refs s (minimum s)"
begin

lemma release_cases:
  assumes "inv s"
  obtains (missing) e where "refs s t = 0" "release t s = Inl e"
  | (found) s' where "0 < refs s t" "release t s = Inr s'" "inv s'"
      "\<forall>u. refs s' u = refs s u - (if u = t then 1 else 0)"
  using assms release_missing [of s t] release_found [of s t]
  by (cases "refs s t = 0") (auto simp: is_err_iff)

lemma minimum_lower: "inv s \<Longrightarrow> 0 < refs s u \<Longrightarrow> minimum s \<le> u"
  using minimum_is by blast

lemma minimum_mono:
  assumes "inv s" "inv s'" and le: "\<And>u. 0 < refs s' u \<Longrightarrow> 0 < refs s u"
    and pinned: "0 < refs s' v"
  shows "minimum s \<le> minimum s'"
  using minimum_is [OF assms(2) pinned] minimum_is [OF assms(1)] le by blast

lemma add_then_release:
  assumes "inv s" "t \<le> u64_max"
  obtains s' where "release t (add t i s) = Inr s'" "inv s'" "refs s' = refs s"
proof -
  have i: "inv (add t i s)" using assms add_inv by blast
  have "0 < refs (add t i s) t" using assms add_refs by simp
  from release_found [OF i this] obtain s' where
    s': "release t (add t i s) = Inr s'" "inv s'"
      "\<forall>u. refs s' u = refs (add t i s) u - (if u = t then 1 else 0)" by blast
  have "refs s' = refs s" using s'(3) assms add_refs by (auto simp: fun_eq_iff)
  with s' that show thesis by blast
qed

lemma minimum_eqI:
  assumes "inv s" "0 < refs s m" "\<And>u. 0 < refs s u \<Longrightarrow> m \<le> u"
  shows "minimum s = m"
  using minimum_is [OF assms(1,2)] assms(3) by (simp add: antisym)

end

subsection \<open>The tracker meets the contract\<close>

lemma sum_values_insert_new:
  "bm_get m k = None \<Longrightarrow>
   sum_list (map snd (bm_insert k (v::nat) m)) = sum_list (map snd m) + v"
  by (induction k v m rule: bm_insert.induct) (auto split: if_splits)

lemma sum_values_insert_old:
  "bm_ok m \<Longrightarrow> bm_get m k = Some w \<Longrightarrow>
   sum_list (map snd (bm_insert k (v::nat) m)) + w = sum_list (map snd m) + v"
proof (induction k v m rule: bm_insert.induct)
  case (2 k v k' v' m)
  show ?case
  proof (cases "k < k'")
    case True
    with 2(2) have "k \<notin> set (bm_keys m)" by auto
    with 2(3) True show ?thesis by (auto simp: bm_get_None_iff [symmetric] split: if_splits)
  qed (use 2 in \<open>auto split: if_splits\<close>)
qed simp

lemma sum_values_remove:
  "bm_ok m \<Longrightarrow> bm_get m k = Some w \<Longrightarrow>
   sum_list (map snd (bm_remove k m)) + (w::nat) = sum_list (map snd m)"
proof (induction m)
  case (Cons e m)
  obtain k' v' where e: "e = (k', v')" by force
  show ?case
  proof (cases "k = k'")
    case True
    then have "k \<notin> set (bm_keys m)" using Cons.prems e by auto
    then have "bm_remove k m = m"
      by (auto simp: bm_remove_def bm_keys_def intro!: filter_True)
    then show ?thesis using True Cons.prems e by (simp add: bm_remove_def)
  qed (use Cons e in \<open>simp add: bm_remove_def\<close>)
qed simp

lemma bm_first_key_insert:
  assumes "bm_ok m"
  shows "(case bm_first_key (bm_insert k v m) of None \<Rightarrow> u64_max | Some j \<Rightarrow> j) =
         (if m = [] then k else min (case bm_first_key m of None \<Rightarrow> u64_max | Some j \<Rightarrow> j) k)"
  using assms by (cases m) (auto simp: bm_first_key_def min_def)

lemma bm_first_key_remove_other:
  assumes "bm_ok m" "bm_first_key m = Some j" "j \<noteq> k"
  shows "bm_first_key (bm_remove k m) = Some j"
  using assms by (cases m) (auto simp: bm_first_key_def bm_remove_def)

lemma tracker_refs_pos:
  "tracker_inv st \<Longrightarrow> 0 < snapshot_refs st ts \<longleftrightarrow> ts \<in> set (bm_keys (snapshots st))"
proof (cases "bm_get (snapshots st) ts")
  case None
  then show ?thesis by (simp add: snapshot_refs_def bm_get_None_iff [symmetric])
next
  case (Some c)
  assume "tracker_inv st"
  with bm_get_SomeD [OF Some] have "0 < c" by (auto simp: tracker_inv_def)
  with Some bm_get_Some_key [OF Some] show ?thesis by (simp add: snapshot_refs_def)
qed

lemma tracker_new_inv: "tracker_inv snapshot_tracker_new"
  by (simp add: tracker_inv_def snapshot_tracker_new_def bm_first_key_def)

lemma tracker_clear_inv: "tracker_inv (snapshot_clear st)"
  by (simp add: tracker_inv_def snapshot_clear_def bm_first_key_def)

lemma add_snapshot_refs:
  "tracker_inv st \<Longrightarrow>
   snapshot_refs (add_snapshot t i st) u = snapshot_refs st u + (if u = t then 1 else 0)"
  by (auto simp: add_snapshot_def snapshot_refs_def update_min_active_def Let_def
      split: option.splits)

lemma add_snapshot_inv:
  assumes inv: "tracker_inv st" and t: "t \<le> u64_max"
  shows "tracker_inv (add_snapshot t i st)"
proof (cases "bm_get (snapshots st) t")
  case None
  have pos: "\<forall>e \<in> set (bm_insert t (1::nat) (snapshots st)). 0 < snd e"
    using inv by (auto simp: tracker_inv_def in_set_insert_bm)
  have min: "(case bm_first_key (bm_insert t (1::nat) (ordered_snapshots st)) of
        None \<Rightarrow> u64_max | Some j \<Rightarrow> j) = min (min_active st) t"
    using inv t bm_first_key_insert [of "ordered_snapshots st" t 1]
    by (cases "ordered_snapshots st") (simp_all add: tracker_inv_def bm_first_key_def min_def)
  show ?thesis
    using inv t None pos min
    by (simp add: tracker_inv_def add_snapshot_def update_min_active_def sum_values_insert_new)
next
  case (Some c)
  have pos: "\<forall>e \<in> set (bm_insert t (Suc c) (snapshots st)). 0 < snd e"
    using inv by (auto simp: tracker_inv_def in_set_insert_bm)
  have sum: "sum_list (map snd (bm_insert t (Suc c) (snapshots st)))
      = Suc (sum_list (map snd (snapshots st)))"
    using sum_values_insert_old [of "snapshots st" t c "Suc c"] inv Some
    by (simp add: tracker_inv_def)
  have key: "t \<in> set (bm_keys (snapshots st))" using Some by (rule bm_get_Some_key)
  show ?thesis
    using inv t Some pos sum key
    by (simp add: tracker_inv_def add_snapshot_def insert_absorb)
qed

lemma release_snapshot_missing:
  "tracker_inv st \<Longrightarrow> snapshot_refs st t = 0 \<Longrightarrow> is_err (release_snapshot t st)"
  by (auto simp: release_snapshot_def snapshot_refs_def tracker_inv_def
      dest!: bm_get_SomeD split: option.splits)

lemma release_snapshot_shared:
  assumes "tracker_inv st" "bm_get (snapshots st) t = Some c" "1 < c"
  obtains st' where "release_snapshot t st = Inr st'" "tracker_inv st'"
    "snapshots st' = bm_insert t (c - 1) (snapshots st)"
proof
  let ?st' = "st\<lparr> snapshots := bm_insert t (c - 1) (snapshots st),
                  active_references := active_references st - 1 \<rparr>"
  show "release_snapshot t st = Inr ?st'"
    using assms by (simp add: release_snapshot_def)
  have pos: "\<forall>e \<in> set (bm_insert t (c - 1) (snapshots st)). 0 < snd e"
    using assms by (auto simp: tracker_inv_def in_set_insert_bm)
  have sum: "sum_list (map snd (bm_insert t (c - 1) (snapshots st)))
      = sum_list (map snd (snapshots st)) - 1"
    using sum_values_insert_old [of "snapshots st" t c "c - 1"] assms
    by (simp add: tracker_inv_def)
  have key: "t \<in> set (bm_keys (snapshots st))" using assms(2) by (rule bm_get_Some_key)
  show "tracker_inv ?st'"
    using assms pos sum key by (simp add: tracker_inv_def insert_absorb)
  show "snapshots ?st' = bm_insert t (c - 1) (snapshots st)" by simp
qed

lemma bm_remove_insert [simp]: "bm_remove k (bm_insert k v m) = bm_remove k m"
  by (induction k v m rule: bm_insert.induct) (auto simp: bm_remove_def)

lemma release_snapshot_last:
  assumes inv: "tracker_inv st" and got: "bm_get (snapshots st) t = Some 1"
  obtains st' where "release_snapshot t st = Inr st'" "tracker_inv st'"
    "snapshots st' = bm_remove t (snapshots st)"
proof
  let ?ord = "bm_remove t (ordered_snapshots st)"
  let ?min = "if min_active st = t
              then (case bm_first_key ?ord of None \<Rightarrow> u64_max | Some k \<Rightarrow> k) else min_active st"
  let ?st' = "st\<lparr> snapshots := bm_remove t (snapshots st),
      ordered_snapshots := ?ord, registered_at := bm_remove t (registered_at st),
      min_active := ?min, active_references := active_references st - 1 \<rparr>"
  show "release_snapshot t st = Inr ?st'"
    using got by (simp add: release_snapshot_def Let_def)
  have key: "t \<in> set (bm_keys (ordered_snapshots st))"
    using inv bm_get_Some_key [OF got] by (simp add: tracker_inv_def)
  then obtain j where j: "bm_first_key (ordered_snapshots st) = Some j"
    by (cases "ordered_snapshots st") (auto simp: bm_first_key_def)
  have min: "?min = (case bm_first_key ?ord of None \<Rightarrow> u64_max | Some k \<Rightarrow> k)"
    using inv j bm_first_key_remove_other [OF _ j, of t] by (auto simp: tracker_inv_def)
  have sum: "sum_list (map snd (bm_remove t (snapshots st)))
      = sum_list (map snd (snapshots st)) - 1"
    using sum_values_remove [of "snapshots st" t 1] inv got by (simp add: tracker_inv_def)
  have pos: "\<forall>e \<in> set (bm_remove t (snapshots st)). 0 < snd e"
    using inv by (auto simp: tracker_inv_def bm_remove_def)
  show "tracker_inv ?st'"
    using inv min sum pos by (simp add: tracker_inv_def)
  show "snapshots ?st' = bm_remove t (snapshots st)" by simp
qed

lemma release_snapshot_found:
  assumes "tracker_inv st" "0 < snapshot_refs st t"
  shows "\<exists>st'. release_snapshot t st = Inr st' \<and> tracker_inv st' \<and>
         (\<forall>u. snapshot_refs st' u = snapshot_refs st u - (if u = t then 1 else 0))"
proof -
  obtain c where c: "bm_get (snapshots st) t = Some c" "0 < c"
    using assms(2) by (auto simp: snapshot_refs_def split: option.splits)
  show ?thesis
  proof (cases "c = 1")
    case True
    with c(1) have "bm_get (snapshots st) t = Some 1" by simp
    from release_snapshot_last [OF assms(1) this] obtain st' where
      "release_snapshot t st = Inr st'" "tracker_inv st'"
      "snapshots st' = bm_remove t (snapshots st)" .
    with c True show ?thesis by (simp add: snapshot_refs_def)
  next
    case False
    with c have "1 < c" by simp
    from release_snapshot_shared [OF assms(1) c(1) this] obtain st' where
      "release_snapshot t st = Inr st'" "tracker_inv st'"
      "snapshots st' = bm_insert t (c - 1) (snapshots st)" .
    with c show ?thesis by (simp add: snapshot_refs_def)
  qed
qed

lemma min_active_snapshot_none:
  "tracker_inv st \<Longrightarrow> \<forall>u. snapshot_refs st u = 0 \<Longrightarrow> min_active_snapshot st = u64_max"
  using tracker_refs_pos [of st]
  by (cases "ordered_snapshots st")
     (auto simp: tracker_inv_def min_active_snapshot_def bm_first_key_def)

lemma min_active_snapshot_is:
  assumes "tracker_inv st" "0 < snapshot_refs st u"
  shows "min_active_snapshot st \<le> u \<and> 0 < snapshot_refs st (min_active_snapshot st)"
proof -
  have u: "u \<in> set (bm_keys (ordered_snapshots st))"
    using assms tracker_refs_pos by (auto simp: tracker_inv_def)
  then have ne: "ordered_snapshots st \<noteq> []" by auto
  then obtain j where j: "bm_first_key (ordered_snapshots st) = Some j"
    by (cases "ordered_snapshots st") (auto simp: bm_first_key_def)
  then have m: "min_active_snapshot st = j"
    using assms by (simp add: tracker_inv_def min_active_snapshot_def)
  have J: "j = Min (set (bm_keys (ordered_snapshots st)))"
    using assms(1) j bm_first_key_Min [of "ordered_snapshots st" j] by (simp add: tracker_inv_def)
  have "j \<in> set (bm_keys (ordered_snapshots st))" unfolding J
    by (rule Min_in) (use u in auto)
  moreover have "j \<le> u" unfolding J using u by simp
  ultimately show ?thesis
    using m assms(1) tracker_refs_pos [OF assms(1)] by (simp add: tracker_inv_def)
qed

interpretation reg: snapshot_registry snapshot_tracker_new add_snapshot release_snapshot
  snapshot_refs min_active_snapshot tracker_inv
proof
  show "snapshot_refs snapshot_tracker_new t = 0" for t
    by (simp add: snapshot_refs_def snapshot_tracker_new_def)
qed (fact tracker_new_inv add_snapshot_inv add_snapshot_refs release_snapshot_missing
       release_snapshot_found min_active_snapshot_none min_active_snapshot_is)+

subsection \<open>Sequences of operations\<close>

datatype snapshot_op = Register timestamp instant | Release timestamp

primrec run_op :: "snapshot_op \<Rightarrow> snapshot_tracker \<Rightarrow> snapshot_tracker" where
  "run_op (Register t i) st = add_snapshot t i st"
| "run_op (Release t) st = (case release_snapshot t st of Inl _ \<Rightarrow> st | Inr st' \<Rightarrow> st')"

primrec spec_op :: "snapshot_op \<Rightarrow> timestamp multiset \<Rightarrow> timestamp multiset" where
  "spec_op (Register t i) M = add_mset t M"
| "spec_op (Release t) M = M - {#t#}"

primrec op_in_range :: "snapshot_op \<Rightarrow> bool" where
  "op_in_range (Register t i) \<longleftrightarrow> t \<le> u64_max"
| "op_in_range (Release t) \<longleftrightarrow> True"

definition tracks :: "snapshot_tracker \<Rightarrow> timestamp multiset \<Rightarrow> bool" where
  "tracks st M \<longleftrightarrow> tracker_inv st \<and> (\<forall>t. snapshot_refs st t = count M t)"

lemma tracks_new: "tracks snapshot_tracker_new {#}"
  by (simp add: tracks_def reg.fresh_inv reg.fresh_refs)

lemma tracks_op:
  assumes "tracks st M" "op_in_range x"
  shows "tracks (run_op x st) (spec_op x M)"
proof (cases x)
  case (Register t i)
  then show ?thesis using assms by (simp add: tracks_def reg.add_inv reg.add_refs)
next
  case (Release t)
  have inv: "tracker_inv st" and refs: "\<And>u. snapshot_refs st u = count M u" using assms(1) by (simp_all add: tracks_def)
  show ?thesis
  proof (rule reg.release_cases [OF inv, of t])
    show ?thesis if "snapshot_refs st t = 0" "release_snapshot t st = Inl e" for e
    proof -
      have "t \<notin># M" using that(1) refs by (simp add: not_in_iff)
      then show ?thesis using that(2) Release assms(1) by (simp add: diff_single_trivial)
    qed
    show ?thesis if "release_snapshot t st = Inr st'" "tracker_inv st'"
      "\<forall>u. snapshot_refs st' u = snapshot_refs st u - (if u = t then 1 else 0)" for st'
      using that Release refs by (simp add: tracks_def)
  qed
qed

lemma tracks_ops:
  "tracks st M \<Longrightarrow> list_all op_in_range ops \<Longrightarrow> tracks (fold run_op ops st) (fold spec_op ops M)"
  by (induction ops arbitrary: st M) (simp_all add: tracks_op)

lemma tracks_min:
  assumes "tracks st M"
  shows "min_active_snapshot st = (if M = {#} then u64_max else Min (set_mset M))"
proof (cases "M = {#}")
  case True
  then show ?thesis using assms reg.minimum_none by (simp add: tracks_def)
next
  case False
  have "min_active_snapshot st = Min (set_mset M)"
  proof (rule reg.minimum_eqI)
    show "0 < snapshot_refs st (Min (set_mset M))" using assms False by (simp add: tracks_def)
    show "Min (set_mset M) \<le> u" if "0 < snapshot_refs st u" for u using assms that by (simp add: tracks_def)
  qed (use assms in \<open>simp add: tracks_def\<close>)
  with False show ?thesis by simp
qed

lemma tracks_queries:
  assumes "tracks st M"
  shows "ref_count st t = (if t \<in># M then Some (count M t) else None)"
    "contains_snapshot st t \<longleftrightarrow> t \<in># M" "is_err (release_snapshot t st) \<longleftrightarrow> t \<notin># M"
proof -
  have eq: "snapshot_refs st t = count M t" and inv: "tracker_inv st" using assms by (simp_all add: tracks_def)
  have none: "bm_get (snapshots st) t = None \<longleftrightarrow> t \<notin># M"
    using tracker_refs_pos [OF inv, of t] eq by (simp add: bm_get_None_iff not_in_iff)
  show "ref_count st t = (if t \<in># M then Some (count M t) else None)"
    using none eq by (cases "bm_get (snapshots st) t") (simp_all add: ref_count_def snapshot_refs_def)
  show "contains_snapshot st t \<longleftrightarrow> t \<in># M" using none by (simp add: contains_snapshot_def)
  show "is_err (release_snapshot t st) \<longleftrightarrow> t \<notin># M"
    using none by (cases "bm_get (snapshots st) t") (simp_all add: release_snapshot_def is_err_iff Let_def)
qed

subsection \<open>Properties\<close>

text \<open>
  C26.  The tracker implements a multiset of held snapshots.  After any sequence of
  registrations and releases on a new tracker, with releases of snapshots nobody holds
  among them, the reference count of each timestamp is its multiplicity, a release is
  refused exactly when the timestamp is not held, and the cached minimum is the least
  timestamp held, or the largest 64-bit number when there is none.
\<close>

theorem tracker_refines_multiset:
  assumes "list_all op_in_range ops"
  shows "(\<forall>t. ref_count (fold run_op ops snapshot_tracker_new) t =
        (if t \<in># fold spec_op ops {#} then Some (count (fold spec_op ops {#}) t) else None)) \<and>
    (\<forall>t. is_err (release_snapshot t (fold run_op ops snapshot_tracker_new)) \<longleftrightarrow> t \<notin># fold spec_op ops {#}) \<and>
    min_active_snapshot (fold run_op ops snapshot_tracker_new) =
      (if fold spec_op ops {#} = {#} then u64_max else Min (set_mset (fold spec_op ops {#})))"
  using tracks_queries [OF tracks_ops [OF tracks_new assms]] tracks_min [OF tracks_ops [OF tracks_new assms]] by blast

theorem tracker_refines_multiset_witness:
  "min_active_snapshot (fold run_op [Register 9 0, Register 4 0, Release 5, Register 7 0, Release 4] snapshot_tracker_new) = 7"
  using tracker_refines_multiset [of "[Register 9 0, Register 4 0, Release 5, Register 7 0, Release 4]"]
  by (simp add: u64_max_def)

end
