(* ===== verification/VersionManager.thy ===== *)
theory VersionManager
  imports SnapshotTracker
begin

text \<open>
  The multi-version timestamp manager (\<open>linkrs-transaction/src/mvcc.rs\<close> and
  \<open>mvcc/{types,allocator,frontier,read,write}.rs\<close>, sentinels of
  \<open>linkrs-core/src/types/storage_ids.rs\<close>).  A critical section of the source is
  one transition; a compare-and-swap retry loop is its successful iteration; a
  caller that would park on a condition variable gets no new state (\<open>None\<close>, or
  \<open>ReadWait\<close> for the variant with a timeout).  The signed pending counters are
  kept at their width.  \<open>vm_step\<close> is the interleaving of the operations by
  clients that respect the protocol of the module.
\<close>

subsection \<open>Sentinels\<close>

definition RESERVED_ZERO_TIMESTAMP :: timestamp where
  "RESERVED_ZERO_TIMESTAMP = 0"

definition INVALID_TIMESTAMP :: timestamp where
  "INVALID_TIMESTAMP = u64_max"

definition MAX_TIMESTAMP :: timestamp where
  "MAX_TIMESTAMP = u64_max - 1"

definition is_allocatable_timestamp :: "timestamp \<Rightarrow> bool" where
  "is_allocatable_timestamp ts \<longleftrightarrow>
     ts \<noteq> RESERVED_ZERO_TIMESTAMP \<and> ts \<noteq> INVALID_TIMESTAMP \<and> ts \<noteq> MAX_TIMESTAMP"

subsection \<open>State\<close>

datatype version_manager_error =
    TooManyTransactions
  | InvalidTimestamp timestamp
  | Timeout
  | SnapshotTrackingFailed
  | TimestampExhausted

record version_manager_config =
  max_concurrent_reads :: "32 word"
  wait_timeout :: duration
  write_reap_timeout :: duration

definition version_manager_config_default :: version_manager_config where
  "version_manager_config_default =
     \<lparr> max_concurrent_reads = 1000, wait_timeout = 5, write_reap_timeout = 60 \<rparr>"

datatype write_timestamp_state = Pending | Committed | Aborted

datatype timestamp_slot_state = SlotPending | SlotCommitted | SlotAborted | SlotVanished

type_synonym write_state_map = "(timestamp, instant \<times> write_timestamp_state) bmap"

record version_manager =
  write_ts :: timestamp
  read_ts :: timestamp
  read_pending :: i32
  write_pending :: i32
  vm_config :: version_manager_config
  tracker :: snapshot_tracker
  write_states :: write_state_map

definition version_manager_with_config :: "version_manager_config \<Rightarrow> version_manager" where
  "version_manager_with_config config =
     \<lparr> write_ts = 1, read_ts = 1, read_pending = 0, write_pending = 0,
       vm_config = config, tracker = snapshot_tracker_new, write_states = [] \<rparr>"

definition pending_count :: "version_manager \<Rightarrow> i32" where
  "pending_count vm = read_pending vm + write_pending vm"

definition get_safe_gc_timestamp :: "version_manager \<Rightarrow> timestamp" where
  "get_safe_gc_timestamp vm = min_active_snapshot (tracker vm)"

subsection \<open>Allocation and the read frontier\<close>

definition reserve_timestamp ::
  "version_manager \<Rightarrow> (version_manager_error, timestamp \<times> version_manager) result" where
  "reserve_timestamp vm =
     (case checked_add_u64 (write_ts vm) 1 of
        None \<Rightarrow> Inl TimestampExhausted
      | Some next \<Rightarrow>
          if \<not> is_allocatable_timestamp next then Inl TimestampExhausted
          else Inr (next, vm\<lparr> write_ts := next \<rparr>))"

fun is_terminal :: "(instant \<times> write_timestamp_state) option \<Rightarrow> bool" where
  "is_terminal (Some (_, Committed)) = True"
| "is_terminal (Some (_, Aborted)) = True"
| "is_terminal _ = False"

function frontier_loop :: "timestamp \<Rightarrow> write_state_map \<Rightarrow> timestamp \<times> write_state_map" where
  "frontier_loop frontier states =
     (let next = saturating_add_u64 frontier 1 in
      if is_terminal (bm_get states next)
      then frontier_loop next (bm_remove next states)
      else (frontier, states))"
  by auto

lemma bm_remove_shorter:
  "bm_get m k \<noteq> None \<Longrightarrow> length (bm_remove k m) < length m"
  by (induction m) (auto simp: bm_remove_def less_Suc_eq_le split: if_splits)

lemma is_terminal_not_None: "is_terminal x \<Longrightarrow> x \<noteq> None"
  by (cases x) auto

termination frontier_loop
  by (relation "measure (\<lambda>(frontier, states). length states)")
     (auto dest!: is_terminal_not_None intro!: bm_remove_shorter)

declare frontier_loop.simps [simp del]

definition advance_read_frontier :: "version_manager \<Rightarrow> version_manager" where
  "advance_read_frontier vm =
     (let (frontier, states) = frontier_loop (read_ts vm) (write_states vm)
      in vm\<lparr> read_ts := frontier, write_states := states \<rparr>)"

definition release_ignoring :: "timestamp \<Rightarrow> snapshot_tracker \<Rightarrow> snapshot_tracker" where
  "release_ignoring ts st = (case release_snapshot ts st of Inl _ \<Rightarrow> st | Inr st' \<Rightarrow> st')"

definition settle_slot ::
  "timestamp \<Rightarrow> write_timestamp_state \<Rightarrow> version_manager \<Rightarrow> version_manager" where
  "settle_slot ts state vm =
     (case bm_get (write_states vm) ts of
        Some (acquired, Pending) \<Rightarrow>
          vm\<lparr> write_states := bm_insert ts (acquired, state) (write_states vm),
              tracker := release_ignoring ts (tracker vm),
              write_pending := write_pending vm - 1 \<rparr>
      | _ \<Rightarrow> vm)"

definition expired_write_timestamps ::
  "instant \<Rightarrow> duration \<Rightarrow> timestamp set \<Rightarrow> write_state_map \<Rightarrow> timestamp list" where
  "expired_write_timestamps now timeout owned states =
     map fst (filter (\<lambda>(ts, acquired, state).
       state = Pending \<and> ts \<notin> owned \<and> timeout < now - acquired) states)"

definition reap_one :: "timestamp \<Rightarrow> nat \<times> version_manager \<Rightarrow> nat \<times> version_manager" where
  "reap_one ts acc =
     (case bm_get (write_states (snd acc)) ts of
        Some (_, Pending) \<Rightarrow> (fst acc + 1, settle_slot ts Aborted (snd acc))
      | _ \<Rightarrow> acc)"

definition reap_expired_write_timestamps ::
  "instant \<Rightarrow> duration \<Rightarrow> timestamp set \<Rightarrow> version_manager \<Rightarrow> nat \<times> version_manager" where
  "reap_expired_write_timestamps now timeout owned vm =
     (let (reaped, vm1) =
        fold reap_one (expired_write_timestamps now timeout owned (write_states vm)) (0, vm)
      in if 0 < reaped then (reaped, advance_read_frontier vm1) else (reaped, vm1))"

definition init_ts :: "timestamp \<Rightarrow> version_manager \<Rightarrow> version_manager" where
  "init_ts ts vm =
     vm\<lparr> write_ts := ts, read_ts := ts, write_states := [],
         tracker := snapshot_clear (tracker vm) \<rparr>"

definition vm_clear :: "version_manager \<Rightarrow> version_manager" where
  "vm_clear vm =
     vm\<lparr> read_ts := 0, read_pending := 0, write_pending := 0, write_states := [],
         tracker := snapshot_clear (tracker vm) \<rparr>"

subsection \<open>Readers\<close>

definition acquire_read_timestamp ::
  "instant \<Rightarrow> version_manager \<Rightarrow> (timestamp \<times> version_manager) option" where
  "acquire_read_timestamp now vm =
     (let pr = read_pending vm in
      if 0 \<le>s pr then
        if max_concurrent_reads (vm_config vm) \<le>s pr then None
        else let ts = read_ts vm in
          Some (ts, vm\<lparr> read_pending := pr + 1, tracker := add_snapshot ts now (tracker vm) \<rparr>)
      else None)"

datatype read_attempt =
    ReadAcquired timestamp version_manager
  | ReadTimedOut
  | ReadWait duration

definition acquire_read_timestamp_with_timeout ::
  "instant \<Rightarrow> instant \<Rightarrow> duration \<Rightarrow> version_manager \<Rightarrow> read_attempt" where
  "acquire_read_timestamp_with_timeout start now timeout vm =
     (let pr = read_pending vm;
          parked = (let elapsed = now - start in
            if timeout \<le> elapsed then ReadTimedOut else ReadWait (timeout - elapsed)) in
      if 0 \<le>s pr then
        if max_concurrent_reads (vm_config vm) \<le>s pr then parked
        else let ts = read_ts vm in
          ReadAcquired ts
            (vm\<lparr> read_pending := pr + 1, tracker := add_snapshot ts now (tracker vm) \<rparr>)
      else parked)"

definition release_read_timestamp_at :: "timestamp \<Rightarrow> version_manager \<Rightarrow> version_manager" where
  "release_read_timestamp_at ts vm =
     vm\<lparr> tracker := release_ignoring ts (tracker vm), read_pending := read_pending vm - 1 \<rparr>"

definition release_read_timestamp :: "version_manager \<Rightarrow> version_manager" where
  "release_read_timestamp vm = release_read_timestamp_at (read_ts vm) vm"

subsection \<open>Writers\<close>

definition try_next_write_timestamp ::
  "instant \<Rightarrow> version_manager \<Rightarrow> (version_manager_error, timestamp \<times> version_manager) result" where
  "try_next_write_timestamp now vm =
     bind_result (reserve_timestamp vm) (\<lambda>(ts, vm1).
       Inr (ts, vm1\<lparr> write_pending := write_pending vm1 + 1,
                     tracker := add_snapshot ts now (tracker vm1),
                     write_states := bm_insert ts (now, Pending) (write_states vm1) \<rparr>))"

definition acquire_insert_timestamp ::
  "instant \<Rightarrow> version_manager \<Rightarrow> (version_manager_error, timestamp \<times> version_manager) result" where
  "acquire_insert_timestamp now vm =
     bind_result (reserve_timestamp vm) (\<lambda>(ts, vm1).
       Inr (ts, vm1\<lparr> tracker := add_snapshot ts now (tracker vm1),
                     write_states := bm_insert ts (now, Pending) (write_states vm1),
                     write_pending := write_pending vm1 + 1 \<rparr>))"

definition finish_write_timestamp ::
  "timestamp \<Rightarrow> write_timestamp_state \<Rightarrow> version_manager \<Rightarrow> version_manager" where
  "finish_write_timestamp ts state vm = advance_read_frontier (settle_slot ts state vm)"

definition abort_write_timestamp :: "timestamp \<Rightarrow> version_manager \<Rightarrow> version_manager" where
  "abort_write_timestamp ts vm = finish_write_timestamp ts Aborted vm"

definition reserve_commit_timestamp ::
  "instant \<Rightarrow> timestamp \<Rightarrow> version_manager
   \<Rightarrow> (version_manager_error, timestamp \<times> version_manager) result" where
  "reserve_commit_timestamp now start vm =
     (case bm_get (write_states vm) start of
        Some (_, Pending) \<Rightarrow>
          bind_result (reserve_timestamp vm) (\<lambda>(commit_ts, vm1).
            Inr (commit_ts,
                 vm1\<lparr> write_states := bm_insert commit_ts (now, Pending) (write_states vm1) \<rparr>))
      | _ \<Rightarrow> Inl (InvalidTimestamp start))"

definition settle_commit_slot :: "instant \<Rightarrow> timestamp \<Rightarrow> version_manager \<Rightarrow> version_manager" where
  "settle_commit_slot now commit_ts vm =
     (case bm_get (write_states vm) commit_ts of
        Some (acquired, state) \<Rightarrow>
          if state = Pending
          then vm\<lparr> write_states := bm_insert commit_ts (acquired, Committed) (write_states vm) \<rparr>
          else vm
      | None \<Rightarrow> vm\<lparr> write_states := bm_insert commit_ts (now, Committed) (write_states vm) \<rparr>)"

definition publish_reserved_commit ::
  "instant \<Rightarrow> timestamp \<Rightarrow> timestamp \<Rightarrow> version_manager \<Rightarrow> version_manager" where
  "publish_reserved_commit now start commit_ts vm =
     advance_read_frontier (settle_commit_slot now commit_ts (settle_slot start Committed vm))"

definition commit_ordered ::
  "instant \<Rightarrow> timestamp \<Rightarrow> version_manager
   \<Rightarrow> (version_manager_error, timestamp \<times> version_manager) result" where
  "commit_ordered now start vm =
     bind_result (reserve_commit_timestamp now start vm) (\<lambda>(commit_ts, vm1).
       Inr (commit_ts, publish_reserved_commit now start commit_ts vm1))"

definition allocate_commit_timestamp ::
  "instant \<Rightarrow> timestamp \<Rightarrow> version_manager
   \<Rightarrow> (version_manager_error, timestamp \<times> version_manager) result" where
  "allocate_commit_timestamp now start vm =
     bind_result (reserve_timestamp vm) (\<lambda>(commit_ts, vm1).
       let vm2 = settle_slot start Committed vm1;
           vm3 = vm2\<lparr> write_states := bm_insert commit_ts (now, Committed) (write_states vm2) \<rparr>
       in Inr (commit_ts, advance_read_frontier vm3))"

definition timestamp_slot :: "version_manager \<Rightarrow> timestamp \<Rightarrow> timestamp_slot_state" where
  "timestamp_slot vm ts =
     (case bm_get (write_states vm) ts of
        Some (_, Pending) \<Rightarrow> SlotPending
      | Some (_, Committed) \<Rightarrow> SlotCommitted
      | Some (_, Aborted) \<Rightarrow> SlotAborted
      | None \<Rightarrow> SlotVanished)"

definition pending_write_ages :: "instant \<Rightarrow> version_manager \<Rightarrow> (timestamp \<times> duration) list" where
  "pending_write_ages now vm =
     rev (sort_key snd
       (map (\<lambda>(ts, acquired, _). (ts, now - acquired))
         (filter (\<lambda>(_, _, state). state = Pending) (write_states vm))))"

subsection \<open>Interleavings\<close>

inductive vm_step :: "version_manager \<Rightarrow> version_manager \<Rightarrow> bool" where
  step_acquire_read:
    "acquire_read_timestamp now vm = Some (ts, vm') \<Longrightarrow> vm_step vm vm'"
| step_release_read:
    "ts \<le> read_ts vm \<Longrightarrow> 0 < snapshot_refs (tracker vm) ts \<Longrightarrow>
     vm_step vm (release_read_timestamp_at ts vm)"
| step_next_write:
    "try_next_write_timestamp now vm = Inr (ts, vm') \<Longrightarrow> vm_step vm vm'"
| step_acquire_insert:
    "acquire_insert_timestamp now vm = Inr (ts, vm') \<Longrightarrow> vm_step vm vm'"
| step_abort:
    "vm_step vm (abort_write_timestamp ts vm)"
| step_reserve:
    "reserve_commit_timestamp now start vm = Inr (commit_ts, vm') \<Longrightarrow> vm_step vm vm'"
| step_publish:
    "commit_ts \<le> write_ts vm \<Longrightarrow> snapshot_refs (tracker vm) commit_ts = 0 \<or> commit_ts \<le> read_ts vm \<Longrightarrow>
     vm_step vm (publish_reserved_commit now start commit_ts vm)"
| step_allocate:
    "allocate_commit_timestamp now start vm = Inr (commit_ts, vm') \<Longrightarrow> vm_step vm vm'"
| step_reap:
    "reap_expired_write_timestamps now timeout owned vm = (n, vm') \<Longrightarrow> vm_step vm vm'"

inductive vm_reachable :: "version_manager \<Rightarrow> bool" where
  reach_new: "vm_reachable (version_manager_with_config cfg)"
| reach_init: "ts < MAX_TIMESTAMP \<Longrightarrow> vm_reachable (init_ts ts (version_manager_with_config cfg))"
| reach_step: "vm_reachable vm \<Longrightarrow> vm_step vm vm' \<Longrightarrow> vm_reachable vm'"

definition pending_slot :: "version_manager \<Rightarrow> timestamp \<Rightarrow> bool" where
  "pending_slot vm ts = (case bm_get (write_states vm) ts of Some (_, Pending) \<Rightarrow> True | _ \<Rightarrow> False)"

definition vm_inv :: "version_manager \<Rightarrow> bool" where
  "vm_inv vm \<longleftrightarrow>
     tracker_inv (tracker vm) \<and> bm_ok (write_states vm) \<and>
     read_ts vm \<le> write_ts vm \<and> write_ts vm < MAX_TIMESTAMP \<and>
     (\<forall>t. bm_get (write_states vm) t \<noteq> None \<longrightarrow> t \<le> write_ts vm) \<and>
     (\<forall>t. read_ts vm < t \<and> t \<le> write_ts vm \<longrightarrow> bm_get (write_states vm) t \<noteq> None) \<and>
     (\<forall>t. pending_slot vm t \<longrightarrow> read_ts vm < t \<and> snapshot_refs (tracker vm) t \<le> 1) \<and>
     (\<forall>t. 0 < snapshot_refs (tracker vm) t \<longrightarrow> t \<le> read_ts vm \<or> pending_slot vm t)"

definition frontier_maximal :: "version_manager \<Rightarrow> bool" where
  "frontier_maximal vm \<longleftrightarrow> \<not> is_terminal (bm_get (write_states vm) (read_ts vm + 1))"

definition vm_good :: "version_manager \<Rightarrow> bool" where
  "vm_good vm \<longleftrightarrow> vm_inv vm \<and> frontier_maximal vm"

definition start_slot :: "instant \<Rightarrow> version_manager \<Rightarrow> version_manager" where
  "start_slot now vm =
     vm\<lparr> write_ts := write_ts vm + 1,
         write_states := bm_insert (write_ts vm + 1) (now, Pending) (write_states vm) \<rparr>"

subsection \<open>The frontier loop\<close>

lemma is_terminal_iff:
  "is_terminal x \<longleftrightarrow> (\<exists>i st. x = Some (i, st) \<and> st \<noteq> Pending)"
  by (cases x rule: is_terminal.cases) auto

lemma pending_slot_iff: "pending_slot vm ts \<longleftrightarrow> (\<exists>i. bm_get (write_states vm) ts = Some (i, Pending))"
  by (auto simp: pending_slot_def split: option.splits write_timestamp_state.splits)

lemma frontier_loop_spec:
  assumes "frontier_loop f m = (f', m')" "\<forall>k. bm_get m k \<noteq> None \<longrightarrow> k < u64_max"
    "f < u64_max" "bm_ok m"
  shows "f \<le> f' \<and> f' < u64_max \<and> bm_ok m' \<and>
    (\<forall>t. f < t \<and> t \<le> f' \<longrightarrow> is_terminal (bm_get m t)) \<and>
    (\<forall>t. bm_get m' t = (if f < t \<and> t \<le> f' then None else bm_get m t)) \<and>
    \<not> is_terminal (bm_get m' (f' + 1))"
  using assms
proof (induction f m arbitrary: f' m' rule: frontier_loop.induct)
  case (1 f m)
  have nx: "saturating_add_u64 f 1 = f + 1" using 1(4) by simp
  show ?case
  proof (cases "is_terminal (bm_get m (f + 1))")
    case True
    have below: "f + 1 < u64_max" using True 1(3) is_terminal_not_None by blast
    have loop: "frontier_loop (f + 1) (bm_remove (f + 1) m) = (f', m')"
      using 1(2) True nx by (subst (asm) frontier_loop.simps) simp
    note IH = "1.IH" [OF refl, unfolded nx, OF True loop _ below]
    have "f + 1 \<le> f' \<and> f' < u64_max \<and> bm_ok m' \<and>
      (\<forall>t. f + 1 < t \<and> t \<le> f' \<longrightarrow> is_terminal (bm_get (bm_remove (f + 1) m) t)) \<and>
      (\<forall>t. bm_get m' t = (if f + 1 < t \<and> t \<le> f' then None else bm_get (bm_remove (f + 1) m) t)) \<and>
      \<not> is_terminal (bm_get m' (f' + 1))"
      by (rule IH) (use 1(3,5) in auto)
    moreover have "f < t \<and> t \<le> f' \<longleftrightarrow> t = f + 1 \<or> (f + 1 < t \<and> t \<le> f')" if "f + 1 \<le> f'" for t
      using that by auto
    ultimately show ?thesis using True by auto
  next
    case False
    then have "f' = f" "m' = m"
      using 1(2) nx by (subst (asm) frontier_loop.simps; simp)+
    then show ?thesis using False 1(4,5) by auto
  qed
qed

lemma MAX_TIMESTAMP_less [simp]: "MAX_TIMESTAMP < u64_max"
  by (simp add: MAX_TIMESTAMP_def)

lemma advance_frame [simp]:
  "write_ts (advance_read_frontier vm) = write_ts vm"
  "tracker (advance_read_frontier vm) = tracker vm"
  "read_pending (advance_read_frontier vm) = read_pending vm"
  "write_pending (advance_read_frontier vm) = write_pending vm"
  "vm_config (advance_read_frontier vm) = vm_config vm"
  by (simp_all add: advance_read_frontier_def split: prod.splits)

lemma advance_spec:
  assumes "vm_inv vm"
  shows "read_ts vm \<le> read_ts (advance_read_frontier vm)"
    and "\<And>t. read_ts vm < t \<Longrightarrow> t \<le> read_ts (advance_read_frontier vm) \<Longrightarrow>
           is_terminal (bm_get (write_states vm) t)"
    and "\<And>t. bm_get (write_states (advance_read_frontier vm)) t =
           (if read_ts vm < t \<and> t \<le> read_ts (advance_read_frontier vm)
            then None else bm_get (write_states vm) t)"
    and "frontier_maximal (advance_read_frontier vm)"
    and "bm_ok (write_states (advance_read_frontier vm))"
proof -
  obtain f m where fm: "frontier_loop (read_ts vm) (write_states vm) = (f, m)" by force
  have ws: "write_ts vm < u64_max"
    using assms MAX_TIMESTAMP_less unfolding vm_inv_def by linarith
  have keys: "\<forall>k. bm_get (write_states vm) k \<noteq> None \<longrightarrow> k < u64_max"
    using assms ws le_less_trans unfolding vm_inv_def by blast
  have "read_ts vm < u64_max" "bm_ok (write_states vm)"
    using assms ws by (simp_all add: vm_inv_def)
  note spec = frontier_loop_spec [OF fm keys this]
  have adv: "advance_read_frontier vm = vm\<lparr> read_ts := f, write_states := m \<rparr>"
    by (simp add: advance_read_frontier_def fm)
  show "read_ts vm \<le> read_ts (advance_read_frontier vm)"
    "\<And>t. read_ts vm < t \<Longrightarrow> t \<le> read_ts (advance_read_frontier vm) \<Longrightarrow>
       is_terminal (bm_get (write_states vm) t)"
    "\<And>t. bm_get (write_states (advance_read_frontier vm)) t =
       (if read_ts vm < t \<and> t \<le> read_ts (advance_read_frontier vm)
        then None else bm_get (write_states vm) t)"
    "bm_ok (write_states (advance_read_frontier vm))"
    unfolding adv using spec by simp_all
  have "\<not> is_terminal (bm_get m (f + 1))" using spec by blast
  then show "frontier_maximal (advance_read_frontier vm)"
    unfolding adv frontier_maximal_def by simp
qed

lemma advance_pending [simp]:
  assumes "vm_inv vm"
  shows "pending_slot (advance_read_frontier vm) t = pending_slot vm t"
  using advance_spec(2) [OF assms, of t] advance_spec(3) [OF assms, of t]
  by (auto simp: pending_slot_iff is_terminal_iff split: if_splits)

lemma advance_inv:
  assumes "vm_inv vm"
  shows "vm_inv (advance_read_frontier vm)"
proof -
  let ?vm = "advance_read_frontier vm"
  note spec = advance_spec [OF assms]
  have le: "read_ts ?vm \<le> write_ts vm"
  proof (rule ccontr)
    assume "\<not> read_ts ?vm \<le> write_ts vm"
    then have "is_terminal (bm_get (write_states vm) (read_ts ?vm))"
      using assms by (intro spec(2)) (auto simp: vm_inv_def)
    then have "read_ts ?vm \<le> write_ts vm"
      using assms is_terminal_not_None unfolding vm_inv_def by blast
    with \<open>\<not> read_ts ?vm \<le> write_ts vm\<close> show False by simp
  qed
  have pend: "read_ts ?vm < t" if "pending_slot vm t" for t
    using that spec(2) [of t] assms
    by (cases "t \<le> read_ts ?vm") (auto simp: vm_inv_def pending_slot_iff is_terminal_iff)
  show ?thesis
    unfolding vm_inv_def advance_frame advance_pending [OF assms]
  proof (intro conjI allI impI)
    fix t
    show "t \<le> write_ts vm" if "bm_get (write_states ?vm) t \<noteq> None"
      using that assms spec(3) [of t] by (auto simp: vm_inv_def split: if_splits)
    show "bm_get (write_states ?vm) t \<noteq> None" if "read_ts ?vm < t \<and> t \<le> write_ts vm"
      using that assms spec(1) spec(3) [of t] by (simp add: vm_inv_def)
    show "t \<le> read_ts ?vm \<or> pending_slot vm t" if "0 < snapshot_refs (tracker vm) t"
    proof -
      have "t \<le> read_ts vm \<or> pending_slot vm t" using that assms by (simp add: vm_inv_def)
      then show ?thesis using spec(1) by auto
    qed
  qed (use assms spec(5) le pend in \<open>simp_all add: vm_inv_def\<close>)
qed

subsection \<open>Preservation, operation by operation\<close>

lemma vm_invI:
  assumes "tracker_inv (tracker vm)" "bm_ok (write_states vm)"
    "read_ts vm \<le> write_ts vm" "write_ts vm < MAX_TIMESTAMP"
    "\<And>t. bm_get (write_states vm) t \<noteq> None \<Longrightarrow> t \<le> write_ts vm"
    "\<And>t. read_ts vm < t \<Longrightarrow> t \<le> write_ts vm \<Longrightarrow> bm_get (write_states vm) t \<noteq> None"
    "\<And>t. pending_slot vm t \<Longrightarrow> read_ts vm < t"
    "\<And>t. pending_slot vm t \<Longrightarrow> snapshot_refs (tracker vm) t \<le> 1"
    "\<And>t. 0 < snapshot_refs (tracker vm) t \<Longrightarrow> t \<le> read_ts vm \<or> pending_slot vm t"
  shows "vm_inv vm"
  unfolding vm_inv_def using assms by blast

lemma vm_invD:
  assumes "vm_inv vm"
  shows "tracker_inv (tracker vm)" "bm_ok (write_states vm)"
    "read_ts vm \<le> write_ts vm" "write_ts vm < MAX_TIMESTAMP"
    "\<And>t. bm_get (write_states vm) t \<noteq> None \<Longrightarrow> t \<le> write_ts vm"
    "\<And>t. read_ts vm < t \<Longrightarrow> t \<le> write_ts vm \<Longrightarrow> bm_get (write_states vm) t \<noteq> None"
    "\<And>t. pending_slot vm t \<Longrightarrow> read_ts vm < t"
    "\<And>t. pending_slot vm t \<Longrightarrow> snapshot_refs (tracker vm) t \<le> 1"
    "\<And>t. 0 < snapshot_refs (tracker vm) t \<Longrightarrow> t \<le> read_ts vm \<or> pending_slot vm t"
  using assms unfolding vm_inv_def by blast+

lemma vm_inv_cong:
  "tracker a = tracker b \<Longrightarrow> write_states a = write_states b \<Longrightarrow>
   read_ts a = read_ts b \<Longrightarrow> write_ts a = write_ts b \<Longrightarrow> vm_inv a = vm_inv b"
  by (simp add: vm_inv_def pending_slot_def)

lemma vm_inv_counters [simp]:
  "vm_inv (vm\<lparr> write_pending := x \<rparr>) = vm_inv vm"
  "vm_inv (vm\<lparr> read_pending := x \<rparr>) = vm_inv vm"
  by (rule vm_inv_cong; simp)+

lemma release_ignoring_inv: "tracker_inv st \<Longrightarrow> tracker_inv (release_ignoring t st)"
  by (rule reg.release_cases [of st t]) (simp_all add: release_ignoring_def)

lemma release_ignoring_refs:
  "tracker_inv st \<Longrightarrow>
   snapshot_refs (release_ignoring t st) u = snapshot_refs st u - (if u = t then 1 else 0)"
  by (rule reg.release_cases [of st t]) (simp_all add: release_ignoring_def)

lemma settle_slot_not_pending [simp]: "\<not> pending_slot vm ts \<Longrightarrow> settle_slot ts state vm = vm"
  by (auto simp: settle_slot_def pending_slot_def
      split: option.splits write_timestamp_state.splits)

lemma settle_slot_pending:
  assumes "bm_get (write_states vm) ts = Some (i, Pending)"
  shows "settle_slot ts state vm =
     vm\<lparr> write_states := bm_insert ts (i, state) (write_states vm),
         tracker := release_ignoring ts (tracker vm),
         write_pending := write_pending vm - 1 \<rparr>"
  using assms by (simp add: settle_slot_def)

lemma settle_slot_frame [simp]:
  "write_ts (settle_slot ts state vm) = write_ts vm"
  "read_ts (settle_slot ts state vm) = read_ts vm"
  "read_pending (settle_slot ts state vm) = read_pending vm"
  "vm_config (settle_slot ts state vm) = vm_config vm"
  by (cases "pending_slot vm ts"; auto simp: pending_slot_iff settle_slot_pending)+

lemma settle_slot_pending_iff:
  "state \<noteq> Pending \<Longrightarrow>
   pending_slot (settle_slot ts state vm) t \<longleftrightarrow> pending_slot vm t \<and> t \<noteq> ts"
  by (cases "pending_slot vm ts") (auto simp: pending_slot_iff settle_slot_pending split: if_splits)

lemma settle_slot_inv:
  assumes inv: "vm_inv vm" and st: "state \<noteq> Pending"
  shows "vm_inv (settle_slot ts state vm)"
proof (cases "pending_slot vm ts")
  case True
  then obtain i where i: "bm_get (write_states vm) ts = Some (i, Pending)"
    by (auto simp: pending_slot_iff)
  note D = vm_invD [OF inv]
  have one: "snapshot_refs (tracker vm) ts \<le> 1" using D(8) True by simp
  have ts: "ts \<le> write_ts vm" using D(5) i by simp
  have ws: "write_states (settle_slot ts state vm) = bm_insert ts (i, state) (write_states vm)"
    and tr: "tracker (settle_slot ts state vm) = release_ignoring ts (tracker vm)"
    using i by (simp_all add: settle_slot_pending)
  note refs = release_ignoring_refs [OF D(1), of ts]
  show ?thesis
  proof (rule vm_invI, unfold settle_slot_pending_iff [OF st] settle_slot_frame ws tr)
    fix t
    show "t \<le> write_ts vm" if "bm_get (bm_insert ts (i, state) (write_states vm)) t \<noteq> None"
      using that D(5) ts by (auto split: if_splits)
    show "bm_get (bm_insert ts (i, state) (write_states vm)) t \<noteq> None"
      if "read_ts vm < t" "t \<le> write_ts vm"
      using that D(6) by auto
    show "snapshot_refs (release_ignoring ts (tracker vm)) t \<le> 1"
      if "pending_slot vm t \<and> t \<noteq> ts"
      using that D(8) refs by simp
    show "t \<le> read_ts vm \<or> pending_slot vm t \<and> t \<noteq> ts"
      if "0 < snapshot_refs (release_ignoring ts (tracker vm)) t"
      using that D(9) [of t] refs [of t] one by (auto split: if_splits)
  qed (use D(1-4,7) release_ignoring_inv in auto)
qed (use inv in simp)

lemma insert_fresh_inv:
  assumes inv: "vm_inv vm" and room: "write_ts vm + 1 < MAX_TIMESTAMP"
  shows "vm_inv (vm\<lparr> write_ts := write_ts vm + 1,
                     write_states := bm_insert (write_ts vm + 1) e (write_states vm) \<rparr>)"
    (is "vm_inv ?vm")
proof -
  let ?n = "write_ts vm + 1"
  have fresh: "bm_get (write_states vm) ?n = None"
  proof (rule ccontr)
    assume "bm_get (write_states vm) ?n \<noteq> None"
    then have "?n \<le> write_ts vm" using inv unfolding vm_inv_def by blast
    then show False by simp
  qed
  then have np: "\<not> pending_slot vm ?n" by (simp add: pending_slot_iff)
  have zero: "snapshot_refs (tracker vm) ?n = 0"
    using vm_invD(3) [OF inv] vm_invD(9) [OF inv, of ?n] np by (cases "snapshot_refs (tracker vm) ?n") auto
  have pend: "pending_slot ?vm t \<longleftrightarrow> (t = ?n \<and> snd e = Pending) \<or> pending_slot vm t" for t
    using np by (cases e) (auto simp: pending_slot_iff)
  note D = vm_invD [OF inv]
  show ?thesis
  proof (rule vm_invI, unfold pend)
    fix t
    show "t \<le> write_ts ?vm" if "bm_get (write_states ?vm) t \<noteq> None"
      using that D(5) [of t] by (auto split: if_splits)
    show "bm_get (write_states ?vm) t \<noteq> None" if "read_ts ?vm < t" "t \<le> write_ts ?vm"
      using that D(6) [of t] by auto
    show "read_ts ?vm < t" if "t = ?n \<and> snd e = Pending \<or> pending_slot vm t"
      using that D(3) D(7) [of t] by auto
    show "snapshot_refs (tracker ?vm) t \<le> 1" if "t = ?n \<and> snd e = Pending \<or> pending_slot vm t"
      using that zero D(8) [of t] by auto
    show "t \<le> read_ts ?vm \<or> t = ?n \<and> snd e = Pending \<or> pending_slot vm t"
      if "0 < snapshot_refs (tracker ?vm) t"
      using that D(9) [of t] by auto
  qed (use D(1-4) room in auto)
qed

lemma pin_inv:
  assumes inv: "vm_inv vm" and ok: "t \<le> read_ts vm \<or> pending_slot vm t \<and> snapshot_refs (tracker vm) t = 0"
  shows "vm_inv (vm\<lparr> tracker := add_snapshot t i (tracker vm) \<rparr>)" (is "vm_inv ?vm")
proof -
  have pend: "pending_slot ?vm u = pending_slot vm u" for u by (simp add: pending_slot_def)
  note D = vm_invD [OF inv]
  have "t \<le> write_ts vm"
    using ok D(3) D(5) [of t] by (auto simp: pending_slot_iff)
  then have t: "t \<le> u64_max" using D(4) MAX_TIMESTAMP_less by linarith
  note refs = add_snapshot_refs [OF D(1), of t i]
  show ?thesis
  proof (rule vm_invI, unfold pend)
    fix u
    show "snapshot_refs (tracker ?vm) u \<le> 1" if "pending_slot vm u"
      using that ok D(7) [of u] D(8) [of u] refs [of u] by auto
    show "u \<le> read_ts ?vm \<or> pending_slot vm u" if "0 < snapshot_refs (tracker ?vm) u"
      using that ok D(9) [of u] refs [of u] by (auto split: if_splits)
  qed (simp_all add: D(1-7) t add_snapshot_inv del: not_None_eq)
qed

lemma unpin_inv:
  assumes inv: "vm_inv vm"
  shows "vm_inv (vm\<lparr> tracker := release_ignoring t (tracker vm) \<rparr>)" (is "vm_inv ?vm")
proof -
  have pend: "pending_slot ?vm u = pending_slot vm u" for u by (simp add: pending_slot_def)
  note D = vm_invD [OF inv]
  note refs = release_ignoring_refs [OF D(1), of t]
  show ?thesis
  proof (rule vm_invI, unfold pend)
    fix u
    show "snapshot_refs (tracker ?vm) u \<le> 1" if "pending_slot vm u"
      using that D(8) [of u] refs [of u] by auto
    show "u \<le> read_ts ?vm \<or> pending_slot vm u" if "0 < snapshot_refs (tracker ?vm) u"
      using that D(9) [of u] refs [of u] by auto
  qed (simp_all add: D(1-7) release_ignoring_inv del: not_None_eq)
qed

lemma reserve_timestamp_Inr:
  "reserve_timestamp vm = Inr (n, vm') \<longleftrightarrow>
     n = write_ts vm + 1 \<and> n < u64_max \<and> n \<noteq> MAX_TIMESTAMP \<and> vm' = vm\<lparr> write_ts := n \<rparr>"
  by (auto simp: reserve_timestamp_def is_allocatable_timestamp_def RESERVED_ZERO_TIMESTAMP_def
      INVALID_TIMESTAMP_def split: option.splits if_splits)

lemma below_MAX: "n < u64_max \<Longrightarrow> n \<noteq> MAX_TIMESTAMP \<Longrightarrow> n < MAX_TIMESTAMP"
  by (simp add: MAX_TIMESTAMP_def)

lemma fresh_pending_maximal:
  assumes "vm_inv vm" "frontier_maximal vm"
  shows "frontier_maximal (start_slot now vm)"
  using assms by (auto simp: frontier_maximal_def start_slot_def)

lemma start_slot_good:
  assumes "vm_good vm" "write_ts vm + 1 < MAX_TIMESTAMP"
  shows "vm_good (start_slot now vm)"
  using assms insert_fresh_inv fresh_pending_maximal by (simp add: vm_good_def start_slot_def)

lemma start_slot_pending:
  "pending_slot (start_slot now vm) t \<longleftrightarrow> t = write_ts vm + 1 \<or> pending_slot vm t"
  by (auto simp: pending_slot_iff start_slot_def)

lemma fresh_unpinned:
  assumes "vm_inv vm"
  shows "snapshot_refs (tracker vm) (write_ts vm + 1) = 0"
proof (rule ccontr)
  note D = vm_invD [OF assms]
  assume "snapshot_refs (tracker vm) (write_ts vm + 1) \<noteq> 0"
  then have "pending_slot vm (write_ts vm + 1)" using D(3) D(9) [of "write_ts vm + 1"] by auto
  then show False using D(5) [of "write_ts vm + 1"] by (auto simp: pending_slot_iff)
qed

lemma writer_inv:
  assumes inv: "vm_inv vm" and room: "write_ts vm + 1 < MAX_TIMESTAMP"
    and fields: "write_ts vm' = write_ts vm + 1" "read_ts vm' = read_ts vm"
      "write_states vm' = bm_insert (write_ts vm + 1) (now, Pending) (write_states vm)"
      "tracker vm' = add_snapshot (write_ts vm + 1) now (tracker vm)"
  shows "vm_inv vm'"
proof -
  let ?vm = "start_slot now vm"
  have "vm_inv ?vm" using insert_fresh_inv [OF inv room] by (simp add: start_slot_def)
  then have "vm_inv (?vm\<lparr> tracker := add_snapshot (write_ts vm + 1) now (tracker ?vm) \<rparr>)"
    using fresh_unpinned [OF inv]
    by (intro pin_inv) (simp_all add: start_slot_pending, simp add: start_slot_def)
  then show ?thesis
    using fields by (subst (asm) vm_inv_cong [where b = vm']) (simp_all add: start_slot_def)
qed

lemma writer_good:
  assumes good: "vm_good vm" and room: "write_ts vm + 1 < MAX_TIMESTAMP"
    and fields: "write_ts vm' = write_ts vm + 1" "read_ts vm' = read_ts vm"
      "write_states vm' = bm_insert (write_ts vm + 1) (now, Pending) (write_states vm)"
      "tracker vm' = add_snapshot (write_ts vm + 1) now (tracker vm)"
  shows "vm_good vm'"
proof -
  have "vm_inv vm'" using good by (intro writer_inv [OF _ room fields]) (simp add: vm_good_def)
  moreover have "frontier_maximal (start_slot now vm)"
    using start_slot_good [OF good room] by (simp add: vm_good_def)
  ultimately show ?thesis
    using fields by (simp add: vm_good_def frontier_maximal_def start_slot_def)
qed

lemma acquire_insert_Inr:
  "acquire_insert_timestamp now vm = Inr (ts, vm') \<longleftrightarrow>
     ts = write_ts vm + 1 \<and> ts < u64_max \<and> ts \<noteq> MAX_TIMESTAMP \<and>
     vm' = vm\<lparr> write_ts := ts, tracker := add_snapshot ts now (tracker vm),
               write_states := bm_insert ts (now, Pending) (write_states vm),
               write_pending := write_pending vm + 1 \<rparr>"
  by (auto simp: acquire_insert_timestamp_def reserve_timestamp_Inr)

lemma next_write_Inr:
  "try_next_write_timestamp now vm = Inr (ts, vm') \<longleftrightarrow>
     ts = write_ts vm + 1 \<and> ts < u64_max \<and> ts \<noteq> MAX_TIMESTAMP \<and>
     vm' = vm\<lparr> write_ts := ts, write_pending := write_pending vm + 1,
               tracker := add_snapshot ts now (tracker vm),
               write_states := bm_insert ts (now, Pending) (write_states vm) \<rparr>"
  by (auto simp: try_next_write_timestamp_def reserve_timestamp_Inr)

lemma reserve_commit_Inr:
  "reserve_commit_timestamp now start vm = Inr (c, vm') \<longleftrightarrow>
     pending_slot vm start \<and> c = write_ts vm + 1 \<and> c < u64_max \<and> c \<noteq> MAX_TIMESTAMP \<and>
     vm' = start_slot now vm"
  by (auto simp: reserve_commit_timestamp_def reserve_timestamp_Inr pending_slot_iff start_slot_def
      split: option.splits write_timestamp_state.splits)

lemma acquire_insert_good:
  "acquire_insert_timestamp now vm = Inr (ts, vm') \<Longrightarrow> vm_good vm \<Longrightarrow> vm_good vm'"
  by (rule writer_good) (auto simp: acquire_insert_Inr dest: below_MAX)

lemma next_write_good:
  "try_next_write_timestamp now vm = Inr (ts, vm') \<Longrightarrow> vm_good vm \<Longrightarrow> vm_good vm'"
  by (rule writer_good) (auto simp: next_write_Inr dest: below_MAX)

lemma reserve_commit_good:
  "reserve_commit_timestamp now start vm = Inr (c, vm') \<Longrightarrow> vm_good vm \<Longrightarrow> vm_good vm'"
  using below_MAX start_slot_good by (auto simp: reserve_commit_Inr)

lemma finish_good:
  "vm_inv vm \<Longrightarrow> state \<noteq> Pending \<Longrightarrow> vm_good (finish_write_timestamp ts state vm)"
  by (simp add: vm_good_def finish_write_timestamp_def advance_inv advance_spec(4) settle_slot_inv)

lemma abort_write_good: "vm_inv vm \<Longrightarrow> vm_good (abort_write_timestamp ts vm)"
  by (simp add: abort_write_timestamp_def finish_good)

lemma settle_commit_inv:
  assumes inv: "vm_inv vm" and c: "c \<le> write_ts vm"
    and free: "pending_slot vm c \<Longrightarrow> snapshot_refs (tracker vm) c = 0"
  shows "vm_inv (settle_commit_slot now c vm)"
proof -
  let ?vm = "settle_commit_slot now c vm"
  note D = vm_invD [OF inv]
  have frame: "tracker ?vm = tracker vm" "read_ts ?vm = read_ts vm" "write_ts ?vm = write_ts vm"
    by (auto simp: settle_commit_slot_def split: option.splits)
  have pend: "pending_slot ?vm t \<longleftrightarrow> pending_slot vm t \<and> t \<noteq> c" for t
    by (auto simp: settle_commit_slot_def pending_slot_def
        split: option.splits write_timestamp_state.splits)
  have slot: "bm_get (write_states ?vm) t = None \<longleftrightarrow> bm_get (write_states vm) t = None \<and> t \<noteq> c" for t
    by (auto simp: settle_commit_slot_def split: option.splits)
  show ?thesis
  proof (rule vm_invI, unfold frame pend slot)
    show "bm_ok (write_states ?vm)"
      using D(2) by (auto simp: settle_commit_slot_def split: option.splits)
    show "t \<le> read_ts vm \<or> pending_slot vm t \<and> t \<noteq> c" if "0 < snapshot_refs (tracker vm) t" for t
      using that D(9) [of t] free by auto
    show "t \<le> write_ts vm" if "\<not> (bm_get (write_states vm) t = None \<and> t \<noteq> c)" for t
      using that D(5) [of t] c by auto
  qed (use D(1,3,4) D(6,7,8) in blast)+
qed

lemma publish_good:
  assumes inv: "vm_inv vm" and c: "c \<le> write_ts vm"
    and free: "snapshot_refs (tracker vm) c = 0 \<or> c \<le> read_ts vm"
  shows "vm_good (publish_reserved_commit now start c vm)"
proof -
  let ?vm = "settle_slot start Committed vm"
  have inv1: "vm_inv ?vm" using inv by (simp add: settle_slot_inv)
  have "snapshot_refs (tracker ?vm) c = 0" if "pending_slot ?vm c"
  proof -
    have z: "snapshot_refs (tracker vm) c = 0"
      using that free vm_invD(7) [OF inv1, of c] by auto
    show ?thesis
      using z vm_invD(1) [OF inv]
      by (cases "pending_slot vm start")
         (auto simp: pending_slot_iff settle_slot_pending release_ignoring_refs)
  qed
  then have "vm_inv (settle_commit_slot now c ?vm)"
    using inv1 c by (intro settle_commit_inv) simp_all
  then show ?thesis
    by (simp add: publish_reserved_commit_def vm_good_def advance_inv advance_spec(4))
qed

lemma allocate_commit_Inr:
  "allocate_commit_timestamp now start vm = Inr (c, vm') \<longleftrightarrow>
     c = write_ts vm + 1 \<and> c < u64_max \<and> c \<noteq> MAX_TIMESTAMP \<and>
     vm' = advance_read_frontier
       ((settle_slot start Committed vm)\<lparr> write_ts := c, write_states :=
          bm_insert c (now, Committed) (write_states (settle_slot start Committed vm)) \<rparr>)"
proof -
  have "settle_slot start Committed (vm\<lparr> write_ts := n \<rparr>) =
        (settle_slot start Committed vm)\<lparr> write_ts := n \<rparr>" for n
    by (auto simp: settle_slot_def split: option.splits write_timestamp_state.splits)
  then show ?thesis
    by (auto simp: allocate_commit_timestamp_def reserve_timestamp_Inr Let_def)
qed

lemma allocate_commit_good:
  assumes "allocate_commit_timestamp now start vm = Inr (c, vm')" "vm_inv vm"
  shows "vm_good vm'"
proof -
  let ?vm = "settle_slot start Committed vm"
  have c: "c = write_ts ?vm + 1" "c < MAX_TIMESTAMP"
    using assms(1) below_MAX by (auto simp: allocate_commit_Inr)
  have "vm_inv (?vm\<lparr> write_ts := c, write_states := bm_insert c (now, Committed) (write_states ?vm) \<rparr>)"
    using assms(2) c insert_fresh_inv [of ?vm "(now, Committed)"] by (simp add: settle_slot_inv)
  then show ?thesis
    using assms(1) by (simp add: allocate_commit_Inr vm_good_def advance_inv advance_spec(4))
qed

lemma reap_fold:
  "fold reap_one xs (k, vm) = (k', vm') \<Longrightarrow>
   k \<le> k' \<and> (k' = k \<longrightarrow> vm' = vm) \<and> (vm_inv vm \<longrightarrow> vm_inv vm') \<and>
   write_ts vm' = write_ts vm \<and> read_ts vm' = read_ts vm"
proof (induction xs arbitrary: k vm)
  case (Cons x xs)
  show ?case
  proof (cases "pending_slot vm x")
    case True
    then have "reap_one x (k, vm) = (k + 1, settle_slot x Aborted vm)"
      by (auto simp: reap_one_def pending_slot_iff)
    then have "fold reap_one xs (k + 1, settle_slot x Aborted vm) = (k', vm')"
      using Cons.prems by simp
    from Cons.IH [OF this] show ?thesis by (auto simp: settle_slot_inv)
  next
    case False
    then have "reap_one x (k, vm) = (k, vm)"
      by (auto simp: reap_one_def pending_slot_def split: option.splits write_timestamp_state.splits)
    then have "fold reap_one xs (k, vm) = (k', vm')" using Cons.prems by simp
    from Cons.IH [OF this] show ?thesis .
  qed
qed simp

lemma reap_good:
  assumes "reap_expired_write_timestamps now timeout owned vm = (n, vm')" "vm_good vm"
  shows "vm_good vm'"
proof -
  obtain k v where f:
    "fold reap_one (expired_write_timestamps now timeout owned (write_states vm)) (0, vm) = (k, v)"
    by force
  show ?thesis
    using assms f reap_fold [OF f]
    by (auto simp: reap_expired_write_timestamps_def vm_good_def advance_inv advance_spec(4)
        split: if_splits)
qed

lemma acquire_read_Some:
  "acquire_read_timestamp now vm = Some (ts, vm') \<longleftrightarrow>
     0 \<le>s read_pending vm \<and> \<not> max_concurrent_reads (vm_config vm) \<le>s read_pending vm \<and>
     ts = read_ts vm \<and>
     vm' = vm\<lparr> read_pending := read_pending vm + 1, tracker := add_snapshot ts now (tracker vm) \<rparr>"
  by (auto simp: acquire_read_timestamp_def Let_def)

lemma acquire_read_good:
  assumes "acquire_read_timestamp now vm = Some (ts, vm')" "vm_good vm"
  shows "vm_good vm'"
proof -
  have "vm_inv (vm\<lparr> tracker := add_snapshot (read_ts vm) now (tracker vm) \<rparr>)"
    using assms(2) by (intro pin_inv) (simp_all add: vm_good_def)
  then have "vm_inv vm'"
    using assms(1) by (subst (asm) vm_inv_cong [where b = vm']) (simp_all add: acquire_read_Some)
  then show ?thesis
    using assms by (simp add: vm_good_def acquire_read_Some frontier_maximal_def)
qed

lemma release_read_good: "vm_good vm \<Longrightarrow> vm_good (release_read_timestamp_at ts vm)"
  using unpin_inv [of vm ts]
  by (simp add: vm_good_def release_read_timestamp_at_def frontier_maximal_def)

lemma vm_step_good: "vm_step vm vm' \<Longrightarrow> vm_good vm \<Longrightarrow> vm_good vm'"
proof (induction rule: vm_step.induct)
  case (step_publish c vm now start)
  then show ?case by (intro publish_good) (simp_all add: vm_good_def)
next
  case (step_abort vm ts)
  then show ?case by (intro abort_write_good) (simp add: vm_good_def)
next
  case (step_allocate now start vm c vm')
  then show ?case using allocate_commit_good vm_good_def by blast
qed (blast intro: acquire_read_good release_read_good next_write_good acquire_insert_good
       reserve_commit_good reap_good)+

lemma initial_good: "ts < MAX_TIMESTAMP \<Longrightarrow>
   tracker vm = snapshot_tracker_new \<Longrightarrow> write_states vm = [] \<Longrightarrow>
   write_ts vm = ts \<Longrightarrow> read_ts vm = ts \<Longrightarrow> vm_good vm"
  by (auto simp: vm_good_def vm_inv_def frontier_maximal_def pending_slot_def reg.fresh_inv
      reg.fresh_refs)

lemma snapshot_clear_new: "snapshot_clear st = snapshot_tracker_new"
  by (cases st) (simp add: snapshot_clear_def snapshot_tracker_new_def)

lemma reachable_good: "vm_reachable vm \<Longrightarrow> vm_good vm"
proof (induction rule: vm_reachable.induct)
  case (reach_new cfg)
  show ?case
    by (rule initial_good [of 1])
       (simp_all add: version_manager_with_config_def MAX_TIMESTAMP_def u64_max_def)
next
  case (reach_init ts cfg)
  then show ?case
    by (intro initial_good [of ts])
       (simp_all add: init_ts_def version_manager_with_config_def snapshot_clear_new)
qed (blast intro: vm_step_good)

lemma reachable_steps: "vm_step\<^sup>*\<^sup>* vm vm' \<Longrightarrow> vm_reachable vm \<Longrightarrow> vm_reachable vm'"
  by (induction rule: rtranclp_induct) (auto intro: reach_step)

lemma finish_read_mono: "vm_inv vm \<Longrightarrow> state \<noteq> Pending \<Longrightarrow>
  read_ts vm \<le> read_ts (finish_write_timestamp ts state vm)"
  using advance_spec(1) [of "settle_slot ts state vm"]
  by (simp add: finish_write_timestamp_def settle_slot_inv)

lemma settle_commit_frame [simp]:
  "read_ts (settle_commit_slot now c vm) = read_ts vm"
  "write_ts (settle_commit_slot now c vm) = write_ts vm"
  "tracker (settle_commit_slot now c vm) = tracker vm"
  "write_pending (settle_commit_slot now c vm) = write_pending vm"
  by (auto simp: settle_commit_slot_def split: option.splits)

lemma frontier_loop_mono: "f \<le> u64_max \<Longrightarrow> f \<le> fst (frontier_loop f m)"
proof (induction f m rule: frontier_loop.induct)
  case (1 f m)
  have le: "f \<le> saturating_add_u64 f 1" using 1(2) by (simp add: saturating_add_u64_def)
  show ?case
    using 1(1) [OF refl] le by (subst frontier_loop.simps) (auto simp: Let_def intro: order_trans)
qed

lemma advance_read_mono: "read_ts vm \<le> u64_max \<Longrightarrow> read_ts vm \<le> read_ts (advance_read_frontier vm)"
  using frontier_loop_mono [of "read_ts vm" "write_states vm"]
  by (cases "frontier_loop (read_ts vm) (write_states vm)") (simp add: advance_read_frontier_def)

lemma good_read_bound: "vm_good vm \<Longrightarrow> read_ts vm \<le> u64_max"
  using vm_invD(3,4) [of vm] MAX_TIMESTAMP_less unfolding vm_good_def by linarith

lemma vm_step_read_mono: "vm_step vm vm' \<Longrightarrow> vm_good vm \<Longrightarrow> read_ts vm \<le> read_ts vm'"
proof (induction rule: vm_step.induct)
  case (step_abort vm ts)
  then show ?case by (simp add: abort_write_timestamp_def finish_read_mono vm_good_def)
next
  case (step_publish c vm now start)
  then show ?case
    using advance_read_mono [of "settle_commit_slot now c (settle_slot start Committed vm)"]
    by (simp add: publish_reserved_commit_def good_read_bound)
next
  case (step_allocate now start vm c vm')
  then show ?case
    using advance_read_mono [of "(settle_slot start Committed vm)\<lparr> write_ts := c, write_states :=
          bm_insert c (now, Committed) (write_states (settle_slot start Committed vm)) \<rparr>"]
    by (simp add: allocate_commit_Inr good_read_bound)
next
  case (step_reap now timeout owned vm n vm')
  obtain k v where f:
    "fold reap_one (expired_write_timestamps now timeout owned (write_states vm)) (0, vm) = (k, v)"
    by force
  show ?case
    using step_reap f reap_fold [OF f] advance_read_mono [of v]
    by (auto simp: reap_expired_write_timestamps_def good_read_bound split: if_splits)
qed (simp_all add: acquire_read_Some release_read_timestamp_at_def next_write_Inr
       acquire_insert_Inr reserve_commit_Inr start_slot_def)

lemma steps_read_mono:
  "vm_step\<^sup>*\<^sup>* vm vm' \<Longrightarrow> vm_reachable vm \<Longrightarrow> read_ts vm \<le> read_ts vm'"
proof (induction rule: rtranclp_induct)
  case (step y z)
  have "vm_good y" using step reachable_steps reachable_good by blast
  with step vm_step_read_mono show ?case by fastforce
qed simp

lemma slot_pending_iff: "timestamp_slot vm t = SlotPending \<longleftrightarrow> pending_slot vm t"
  by (auto simp: timestamp_slot_def pending_slot_def
      split: option.splits write_timestamp_state.splits)

lemma frontier_next_pending:
  assumes "vm_good vm" "read_ts vm \<noteq> write_ts vm"
  shows "pending_slot vm (read_ts vm + 1)"
proof -
  have inv: "vm_inv vm" and fm: "frontier_maximal vm" using assms by (simp_all add: vm_good_def)
  have "bm_get (write_states vm) (read_ts vm + 1) \<noteq> None"
    using assms(2) vm_invD(3) [OF inv] by (intro vm_invD(6) [OF inv]) auto
  with fm show ?thesis
    by (cases "bm_get (write_states vm) (read_ts vm + 1)")
       (auto simp: frontier_maximal_def pending_slot_iff is_terminal_iff)
qed

lemma settle_commit_pending:
  "pending_slot (settle_commit_slot now c vm) t \<longleftrightarrow> pending_slot vm t \<and> t \<noteq> c"
  by (auto simp: settle_commit_slot_def pending_slot_def
      split: option.splits write_timestamp_state.splits)

lemma publish_frame [simp]:
  "write_ts (publish_reserved_commit now s c vm) = write_ts vm"
  "tracker (publish_reserved_commit now s c vm) = tracker (settle_slot s Committed vm)"
  "write_pending (publish_reserved_commit now s c vm) = write_pending (settle_slot s Committed vm)"
  by (simp_all add: publish_reserved_commit_def)

lemma settle_write_pending:
  "write_pending (settle_slot ts st vm) = write_pending vm - (if pending_slot vm ts then 1 else 0)"
  by (cases "pending_slot vm ts") (auto simp: pending_slot_iff settle_slot_pending)

lemma publish_pending:
  assumes "vm_inv vm" "c \<le> write_ts vm" "snapshot_refs (tracker vm) c = 0 \<or> c \<le> read_ts vm"
  shows "pending_slot (publish_reserved_commit now s c vm) t \<longleftrightarrow>
         pending_slot vm t \<and> t \<noteq> s \<and> t \<noteq> c"
proof -
  let ?vm = "settle_commit_slot now c (settle_slot s Committed vm)"
  have inv1: "vm_inv (settle_slot s Committed vm)" using assms(1) by (simp add: settle_slot_inv)
  have "snapshot_refs (tracker (settle_slot s Committed vm)) c = 0"
    if p: "pending_slot (settle_slot s Committed vm) c"
    using p assms vm_invD(7) [OF inv1, of c] vm_invD(1) [OF assms(1)]
    by (cases "pending_slot vm s")
       (auto simp: pending_slot_iff settle_slot_pending release_ignoring_refs)
  then have "vm_inv ?vm" using inv1 assms(2) by (intro settle_commit_inv) simp_all
  then show ?thesis
    by (auto simp: publish_reserved_commit_def settle_commit_pending settle_slot_pending_iff)
qed

subsection \<open>What settling does to the other slots\<close>

definition slots_settled :: "timestamp set \<Rightarrow> version_manager \<Rightarrow> version_manager \<Rightarrow> bool" where
  "slots_settled X vm vm' \<longleftrightarrow> write_ts vm \<le> write_ts vm' \<and>
     (\<forall>t. pending_slot vm' t \<longleftrightarrow> pending_slot vm t \<and> t \<notin> X) \<and>
     (\<forall>t. snapshot_refs (tracker vm') t \<le> snapshot_refs (tracker vm) t) \<and>
     (\<forall>t. t \<notin> X \<longrightarrow> snapshot_refs (tracker vm') t = snapshot_refs (tracker vm) t)"

lemma settle_refs:
  "vm_inv vm \<Longrightarrow> snapshot_refs (tracker (settle_slot ts st vm)) t =
     snapshot_refs (tracker vm) t - (if t = ts \<and> pending_slot vm ts then 1 else 0)"
  by (cases "pending_slot vm ts") (auto simp: pending_slot_iff settle_slot_pending release_ignoring_refs vm_invD(1))

lemma settle_settles: "vm_inv vm \<Longrightarrow> st \<noteq> Pending \<Longrightarrow> slots_settled {ts} vm (settle_slot ts st vm)"
  by (simp add: slots_settled_def settle_refs settle_slot_pending_iff)

lemma advance_settles: "slots_settled X vm vm' \<Longrightarrow> vm_inv vm' \<Longrightarrow> slots_settled X vm (advance_read_frontier vm')"
  by (simp add: slots_settled_def)

lemma slots_settled_trans: "slots_settled X a b \<Longrightarrow> slots_settled Y b c \<Longrightarrow> slots_settled (X \<union> Y) a c"
  unfolding slots_settled_def by (auto intro: order_trans)

lemma abort_settles: "vm_inv vm \<Longrightarrow> slots_settled {ts} vm (abort_write_timestamp ts vm)"
  by (simp add: abort_write_timestamp_def finish_write_timestamp_def advance_settles settle_settles settle_slot_inv)

lemma publish_settles:
  assumes "vm_inv vm" "c \<le> write_ts vm" "snapshot_refs (tracker vm) c = 0 \<or> c \<le> read_ts vm"
  shows "slots_settled {s, c} vm (publish_reserved_commit now s c vm)"
  using publish_pending [OF assms] assms(1) by (auto simp: slots_settled_def settle_refs)

lemma allocate_settles:
  assumes "allocate_commit_timestamp now s vm = Inr (c, vm')" "vm_inv vm"
  shows "slots_settled {s} vm vm'"
proof -
  let ?v = "settle_slot s Committed vm"
  let ?w = "?v\<lparr> write_ts := c, write_states := bm_insert c (now, Committed) (write_states ?v) \<rparr>"
  have c: "c = write_ts ?v + 1" "c < MAX_TIMESTAMP" and vm': "vm' = advance_read_frontier ?w"
    using assms(1) below_MAX by (auto simp: allocate_commit_Inr)
  have inv: "vm_inv ?v" using assms(2) by (simp add: settle_slot_inv)
  then have "vm_inv ?w" using insert_fresh_inv [of ?v] c by simp
  moreover have "pending_slot ?w t \<longleftrightarrow> pending_slot ?v t" for t
    using vm_invD(5) [OF inv, of t] c(1) by (auto simp: pending_slot_iff)
  then have "slots_settled {s} vm ?w"
    using settle_settles [OF assms(2), of Committed s] c(1) by (simp add: slots_settled_def)
  ultimately show ?thesis by (simp add: vm' advance_settles)
qed

lemma reap_fold_settles:
  "fold reap_one xs (k, vm) = (k', vm') \<Longrightarrow> vm_inv vm \<Longrightarrow> slots_settled (set xs) vm vm'"
proof (induction xs arbitrary: k vm)
  case Nil
  then show ?case by (simp add: slots_settled_def)
next
  case (Cons x xs)
  have "reap_one x (k, vm) = (if pending_slot vm x then k + 1 else k, settle_slot x Aborted vm)"
    by (cases "pending_slot vm x")
       (auto simp: reap_one_def pending_slot_def split: option.splits write_timestamp_state.splits)
  then have "slots_settled (set xs) (settle_slot x Aborted vm) vm'"
    using Cons by (auto simp: settle_slot_inv)
  from slots_settled_trans [OF settle_settles [OF Cons.prems(2)] this] show ?case by simp
qed

lemma reap_settles:
  assumes "reap_expired_write_timestamps now timeout owned vm = (n, vm')" "vm_inv vm"
  obtains X where "X \<inter> owned = {}" "slots_settled X vm vm'"
proof -
  let ?xs = "expired_write_timestamps now timeout owned (write_states vm)"
  obtain k v where f: "fold reap_one ?xs (0, vm) = (k, v)" by force
  have s: "slots_settled (set ?xs) vm v" "vm_inv v" using reap_fold_settles [OF f] reap_fold [OF f] assms(2) by auto
  then have "slots_settled (set ?xs) vm vm'"
    using assms(1) f advance_settles [OF s] by (auto simp: reap_expired_write_timestamps_def split: if_splits)
  moreover have "set ?xs \<inter> owned = {}" by (auto simp: expired_write_timestamps_def)
  ultimately show thesis using that by blast
qed

definition unpinned_below :: "timestamp \<Rightarrow> version_manager \<Rightarrow> bool" where
  "unpinned_below c vm \<longleftrightarrow> c \<le> write_ts vm \<and> (pending_slot vm c \<longrightarrow> snapshot_refs (tracker vm) c = 0)"

lemma settled_unpinned: "slots_settled X vm vm' \<Longrightarrow> unpinned_below c vm \<Longrightarrow> unpinned_below c vm'"
  unfolding slots_settled_def unpinned_below_def by (metis le_zero_eq order_trans)

lemma fresh_writer_unpinned:
  assumes "unpinned_below c vm" "tracker_inv (tracker vm)" "write_ts vm' = write_ts vm + 1"
    "write_states vm' = bm_insert (write_ts vm + 1) (now, Pending) (write_states vm)"
    "tracker vm' = add_snapshot (write_ts vm + 1) now (tracker vm) \<or> tracker vm' = tracker vm"
  shows "unpinned_below c vm'"
  using assms by (auto simp: unpinned_below_def pending_slot_iff add_snapshot_refs)

lemma step_unpinned: "vm_step vm vm' \<Longrightarrow> vm_good vm \<Longrightarrow> unpinned_below c vm \<Longrightarrow> unpinned_below c vm'"
proof (induction rule: vm_step.induct)
  case (step_acquire_read now vm ts vm')
  then show ?case using vm_invD(1,7) [of vm]
    by (auto simp: unpinned_below_def acquire_read_Some vm_good_def pending_slot_def add_snapshot_refs)
next
  case (step_release_read ts vm)
  then show ?case using vm_invD(1) [of vm]
    by (auto simp: unpinned_below_def release_read_timestamp_at_def vm_good_def pending_slot_def release_ignoring_refs)
next
  case (step_next_write now vm ts vm')
  then show ?case using vm_invD(1) [of vm] by (intro fresh_writer_unpinned [of c vm vm' now]) (auto simp: next_write_Inr vm_good_def)
next
  case (step_acquire_insert now vm ts vm')
  then show ?case using vm_invD(1) [of vm] by (intro fresh_writer_unpinned [of c vm vm' now]) (auto simp: acquire_insert_Inr vm_good_def)
next
  case (step_reserve now start vm c' vm')
  then show ?case using vm_invD(1) [of vm]
    by (intro fresh_writer_unpinned [of c vm vm' now]) (auto simp: reserve_commit_Inr vm_good_def start_slot_def)
next
  case (step_abort vm ts)
  then show ?case using settled_unpinned abort_settles vm_good_def by blast
next
  case (step_publish c' vm now start)
  then show ?case using settled_unpinned publish_settles vm_good_def by blast
next
  case (step_allocate now start vm c' vm')
  then show ?case using settled_unpinned allocate_settles vm_good_def by blast
next
  case (step_reap now timeout owned vm n vm')
  then show ?case using settled_unpinned reap_settles vm_good_def by metis
qed

lemma reservation_unpinned:
  assumes "vm_reachable vm" "reserve_commit_timestamp now start vm = Inr (c, vm1)" "vm_step\<^sup>*\<^sup>* vm1 vm2"
  shows "vm_good vm2" "unpinned_below c vm2"
proof -
  have r: "vm_reachable vm1" using reach_step [OF assms(1) step_reserve [OF assms(2)]] .
  have "vm_inv vm" using reachable_good [OF assms(1)] by (simp add: vm_good_def)
  then have one: "unpinned_below c vm1"
    using assms(2) fresh_unpinned by (auto simp: reserve_commit_Inr unpinned_below_def start_slot_def)
  show "vm_good vm2" using reachable_steps [OF assms(3) r] reachable_good by blast
  from assms(3) show "unpinned_below c vm2"
  proof (induction rule: rtranclp_induct)
    case (step y z)
    then show ?case using step_unpinned reachable_steps [OF step(1) r] reachable_good by blast
  qed (rule one)
qed

subsection \<open>A running example\<close>

definition demo_vm0 :: version_manager where
  "demo_vm0 = version_manager_with_config version_manager_config_default"

definition demo_vm1 :: version_manager where
  "demo_vm1 = (case acquire_insert_timestamp 0 demo_vm0 of Inr (_, vm) \<Rightarrow> vm | Inl _ \<Rightarrow> demo_vm0)"

definition demo_vm2 :: version_manager where
  "demo_vm2 = (case reserve_commit_timestamp 0 2 demo_vm1 of Inr (_, vm) \<Rightarrow> vm | Inl _ \<Rightarrow> demo_vm1)"

lemma demo_vm0_reachable: "vm_reachable demo_vm0"
  by (simp add: demo_vm0_def reach_new)

lemma demo_acquire: "acquire_insert_timestamp 0 demo_vm0 = Inr (2, demo_vm1)"
  by (simp add: demo_vm1_def acquire_insert_timestamp_def reserve_timestamp_def demo_vm0_def
      version_manager_with_config_def is_allocatable_timestamp_def RESERVED_ZERO_TIMESTAMP_def
      INVALID_TIMESTAMP_def MAX_TIMESTAMP_def checked_add_u64_def u64_max_def)

lemma demo_vm1_eq:
  "demo_vm1 = \<lparr> write_ts = 2, read_ts = 1, read_pending = 0, write_pending = 1,
     vm_config = version_manager_config_default,
     tracker = add_snapshot 2 0 snapshot_tracker_new, write_states = [(2, 0, Pending)] \<rparr>"
  using demo_acquire
  by (auto simp: acquire_insert_Inr demo_vm0_def version_manager_with_config_def)

lemma demo_vm1_eval:
  "write_ts demo_vm1 = 2" "read_ts demo_vm1 = 1" "write_states demo_vm1 = [(2, 0, Pending)]"
  "write_pending demo_vm1 = 1" "tracker demo_vm1 = add_snapshot 2 0 snapshot_tracker_new"
  by (simp_all add: demo_vm1_eq)

lemma demo_reserve: "reserve_commit_timestamp 0 2 demo_vm1 = Inr (3, demo_vm2)"
  by (simp add: demo_vm2_def reserve_commit_timestamp_def reserve_timestamp_def demo_vm1_eval
      is_allocatable_timestamp_def RESERVED_ZERO_TIMESTAMP_def
      INVALID_TIMESTAMP_def MAX_TIMESTAMP_def checked_add_u64_def u64_max_def)

lemma demo_vm2_eq: "demo_vm2 = start_slot 0 demo_vm1"
  using demo_reserve by (simp add: reserve_commit_Inr)

lemma demo_vm2_eval:
  "write_ts demo_vm2 = 3" "read_ts demo_vm2 = 1"
  "write_states demo_vm2 = [(2, 0, Pending), (3, 0, Pending)]"
  "write_pending demo_vm2 = 1" "tracker demo_vm2 = add_snapshot 2 0 snapshot_tracker_new"
  by (simp_all add: demo_vm2_eq start_slot_def demo_vm1_eval)

lemma demo_vm1_reachable: "vm_reachable demo_vm1"
  using demo_vm0_reachable demo_acquire reach_step step_acquire_insert by blast

lemma demo_vm2_reachable: "vm_reachable demo_vm2"
  using demo_vm1_reachable demo_reserve reach_step step_reserve by blast

subsection \<open>Properties\<close>

text \<open>
  C13.  Snapshot stability.  Once the read frontier has reached a timestamp, no
  interleaving of the operations moves the frontier back below it or makes a
  write at or below it pending again: what a snapshot may see is settled before
  the snapshot can be taken.
\<close>

theorem frontier_stable:
  assumes "vm_reachable vm" "vm_step\<^sup>*\<^sup>* vm vm'" "t \<le> read_ts vm"
  shows "read_ts vm \<le> read_ts vm' \<and> timestamp_slot vm' t \<noteq> SlotPending"
proof -
  have mono: "read_ts vm \<le> read_ts vm'" using steps_read_mono assms by blast
  have "vm_inv vm'" using reachable_good reachable_steps assms vm_good_def by blast
  then have "\<not> pending_slot vm' t" using vm_invD(7) mono assms(3) by fastforce
  with mono show ?thesis by (simp add: slot_pending_iff)
qed

text \<open>
  C5.  The frontier is exact.  In every reachable state the read timestamp is
  the predecessor of the oldest pending write, and it equals the last allocated
  timestamp when no write is pending: out-of-order commits never stall it and
  it never passes an unsettled write.
\<close>

theorem frontier_exact:
  assumes "vm_reachable vm"
  shows "read_ts vm =
    (if \<exists>t. timestamp_slot vm t = SlotPending
     then (LEAST t. timestamp_slot vm t = SlotPending) - 1 else write_ts vm)"
proof -
  have inv: "vm_inv vm" using reachable_good [OF assms] by (simp add: vm_good_def)
  note D = vm_invD [OF inv]
  note nxt = frontier_next_pending [OF reachable_good [OF assms]]
  have least: "(LEAST t. pending_slot vm t) = read_ts vm + 1" if "pending_slot vm t" for t
  proof (rule Least_equality)
    have "read_ts vm < t" "t \<le> write_ts vm"
      using that D(7) D(5) [of t] by (auto simp: pending_slot_iff)
    then show "pending_slot vm (read_ts vm + 1)" using nxt by simp
    show "read_ts vm + 1 \<le> u" if "pending_slot vm u" for u using D(7) [OF that] by simp
  qed
  show ?thesis unfolding slot_pending_iff using least nxt by auto
qed

theorem frontier_stable_witness:
  "vm_reachable demo_vm1 \<and> vm_step\<^sup>*\<^sup>* demo_vm1 demo_vm2 \<and>
   read_ts demo_vm1 \<le> read_ts demo_vm2 \<and> timestamp_slot demo_vm2 1 \<noteq> SlotPending"
proof -
  have "vm_step\<^sup>*\<^sup>* demo_vm1 demo_vm2" using demo_reserve step_reserve by blast
  with frontier_stable [OF demo_vm1_reachable this, of 1] demo_vm1_reachable
  show ?thesis by (simp add: demo_vm1_eval)
qed

theorem frontier_exact_witness:
  "vm_reachable demo_vm2 \<and> timestamp_slot demo_vm2 2 = SlotPending \<and>
   (LEAST t. timestamp_slot demo_vm2 t = SlotPending) - 1 = 1"
proof -
  have p: "timestamp_slot demo_vm2 2 = SlotPending"
    by (simp add: timestamp_slot_def demo_vm2_eval)
  then have "\<exists>t. timestamp_slot demo_vm2 t = SlotPending" by blast
  with frontier_exact [OF demo_vm2_reachable]
  have "1 = (LEAST t. timestamp_slot demo_vm2 t = SlotPending) - 1"
    unfolding demo_vm2_eval by presburger
  with p demo_vm2_reachable show ?thesis by presburger
qed

text \<open>
  C28.  Commit publication.  Whatever the other transactions did since a commit timestamp
  was reserved, publishing it while it is pending settles the start slot and the
  reservation and no other slot.  If moreover every other pending write is younger than
  the reservation, the commit is visible at once: the read timestamp has reached it.
\<close>

theorem publish_makes_visible:
  assumes "vm_reachable vm" "reserve_commit_timestamp now start vm = Inr (c, vm1)"
    "vm_step\<^sup>*\<^sup>* vm1 vm2" "timestamp_slot vm2 c = SlotPending"
  shows "(\<forall>t. timestamp_slot (publish_reserved_commit now' start c vm2) t = SlotPending
         \<longleftrightarrow> timestamp_slot vm2 t = SlotPending \<and> t \<noteq> start \<and> t \<noteq> c) \<and>
    ((\<forall>t. timestamp_slot vm2 t = SlotPending \<longrightarrow> t = start \<or> c \<le> t) \<longrightarrow>
      c \<le> read_ts (publish_reserved_commit now' start c vm2))"
proof (intro conjI allI impI)
  note r = reservation_unpinned [OF assms(1-3)]
  then have inv: "vm_inv vm2" and c: "c \<le> write_ts vm2" and free: "snapshot_refs (tracker vm2) c = 0 \<or> c \<le> read_ts vm2"
    using assms(4) by (simp_all add: vm_good_def unpinned_below_def slot_pending_iff)
  let ?vm = "publish_reserved_commit now' start c vm2"
  note pend = publish_pending [OF inv c free, of now' start]
  show "timestamp_slot ?vm t = SlotPending
         \<longleftrightarrow> timestamp_slot vm2 t = SlotPending \<and> t \<noteq> start \<and> t \<noteq> c" for t
    by (simp add: slot_pending_iff pend)
  assume younger: "\<forall>t. timestamp_slot vm2 t = SlotPending \<longrightarrow> t = start \<or> c \<le> t"
  show "c \<le> read_ts ?vm"
  proof (rule ccontr)
    assume "\<not> c \<le> read_ts ?vm"
    then have "read_ts ?vm \<noteq> write_ts ?vm" "read_ts ?vm + 1 \<le> c" using c by auto
    then have "pending_slot ?vm (read_ts ?vm + 1)" by (intro frontier_next_pending publish_good [OF inv c free])
    with pend have "pending_slot vm2 (read_ts ?vm + 1)" "read_ts ?vm + 1 \<noteq> start" "read_ts ?vm + 1 \<noteq> c"
      by blast+
    with younger \<open>read_ts ?vm + 1 \<le> c\<close> show False by (auto simp: slot_pending_iff)
  qed
qed

theorem publish_makes_visible_witness:
  "reserve_commit_timestamp 0 2 demo_vm1 = Inr (3, demo_vm2) \<and>
   3 \<le> read_ts (publish_reserved_commit 5 2 3 demo_vm2) \<and>
   timestamp_slot (publish_reserved_commit 5 2 3 demo_vm2) 2 \<noteq> SlotPending"
proof -
  have "\<forall>t. timestamp_slot demo_vm2 t = SlotPending \<longrightarrow> t = 2 \<or> 3 \<le> t" "timestamp_slot demo_vm2 3 = SlotPending"
    by (simp_all add: timestamp_slot_def demo_vm2_eval)
  then show ?thesis
    using publish_makes_visible [OF demo_vm1_reachable demo_reserve rtranclp.rtrancl_refl] demo_reserve
    by blast
qed

text \<open>
  The pending-write counter of the two ways of settling a reservation.
  Publishing a reserved commit gives back exactly the one count its writer
  took.  Aborting the reservation and then the start slot gives back two: the
  reservation never took one, so the counter of writes in flight ends one
  below its value before the transaction (minus one on an idle manager).
\<close>

lemma reserved_abort_undercounts:
  assumes "vm_inv vm" "acquire_insert_timestamp now vm = Inr (s, vm1)"
    "reserve_commit_timestamp now s vm1 = Inr (c, vm2)"
  shows "write_pending (publish_reserved_commit now s c vm2) = write_pending vm \<and>
         write_pending (abort_write_timestamp s (abort_write_timestamp c vm2)) = write_pending vm - 1"
proof -
  have ps: "pending_slot vm2 s" "pending_slot vm2 c" "s \<noteq> c"
    using assms(2,3)
    by (auto simp: reserve_commit_Inr acquire_insert_Inr pending_slot_iff start_slot_def)
  have w: "write_pending vm2 = write_pending vm + 1"
    using assms(2,3) by (auto simp: reserve_commit_Inr acquire_insert_Inr start_slot_def)
  have "vm_inv vm1"
    by (rule writer_inv [OF assms(1), where now = now])
       (use assms(2) below_MAX in \<open>auto simp: acquire_insert_Inr\<close>)
  then have inv2: "vm_inv vm2"
    using assms(3) insert_fresh_inv below_MAX by (auto simp: reserve_commit_Inr start_slot_def)
  have inv3: "vm_inv (settle_slot c Aborted vm2)" using inv2 by (simp add: settle_slot_inv)
  have "pending_slot (abort_write_timestamp c vm2) s"
    using ps inv3 by (simp add: abort_write_timestamp_def finish_write_timestamp_def settle_slot_pending_iff)
  then show ?thesis
    using ps w by (simp add: settle_write_pending abort_write_timestamp_def finish_write_timestamp_def)
qed

end
