(* ===== verification/Visibility.thy ===== *)
theory Visibility
  imports VersionManager
begin

text \<open>
  Who sees what, and what may be reclaimed: the interval predicates and the
  pending-aware gate of \<open>linkrs-storage/src/mvcc_visibility.rs\<close>, the GC
  watermarks of \<open>linkrs-transaction/src/mvcc_watermarks.rs\<close> and the GC
  coordinator of \<open>linkrs-storage/src/engine/gc_coordinator.rs\<close>.  The latest
  checkpoint manifest, read from disk, is an argument of the coordinator's
  capture.  \<open>acquire_read_admit\<close> and \<open>acquire_read_pin\<close> split
  \<open>acquire_read_timestamp\<close> at the point where the source drops its lock.
\<close>

subsection \<open>Interval predicates\<close>

definition is_visible :: "timestamp \<Rightarrow> timestamp \<Rightarrow> timestamp option \<Rightarrow> bool" where
  "is_visible snapshot create_ts delete_ts =
     (if snapshot < create_ts then False
      else case delete_ts of Some del \<Rightarrow> snapshot < del | None \<Rightarrow> True)"

definition row_live :: "timestamp \<Rightarrow> timestamp \<Rightarrow> timestamp option \<Rightarrow> bool" where
  "row_live snapshot create_ts delete_ts = is_visible snapshot create_ts delete_ts"

definition is_column_visible :: "timestamp \<Rightarrow> timestamp \<Rightarrow> bool" where
  "is_column_visible snapshot create_ts = (create_ts \<le> snapshot)"

definition is_edge_visible :: "timestamp \<Rightarrow> timestamp \<Rightarrow> timestamp \<Rightarrow> bool" where
  "is_edge_visible snapshot create_ts delete_ts = (create_ts \<le> snapshot \<and> snapshot < delete_ts)"

definition is_version_visible :: "timestamp \<Rightarrow> timestamp \<Rightarrow> timestamp \<Rightarrow> bool" where
  "is_version_visible snapshot start_ts end_ts = (start_ts \<le> snapshot \<and> snapshot < end_ts)"

definition is_gc_eligible :: "timestamp \<Rightarrow> timestamp \<Rightarrow> bool" where
  "is_gc_eligible end_ts safe = (end_ts \<le> safe)"

subsection \<open>The pending-aware gate\<close>

record pending_gate =
  gate_manager :: version_manager
  own_write :: "timestamp option"

definition is_foreign_pending :: "pending_gate \<Rightarrow> timestamp \<Rightarrow> timestamp \<Rightarrow> bool" where
  "is_foreign_pending g snapshot stamp =
     (if snapshot < stamp then False
      else if stamp \<le> read_ts (gate_manager g) then False
      else if Some stamp = own_write g then False
      else case timestamp_slot (gate_manager g) stamp of
             SlotPending \<Rightarrow> True | SlotAborted \<Rightarrow> True | _ \<Rightarrow> False)"

definition is_create_visible :: "pending_gate \<Rightarrow> timestamp \<Rightarrow> timestamp \<Rightarrow> bool" where
  "is_create_visible g snapshot create_ts =
     (if snapshot < create_ts then False
      else if create_ts \<le> read_ts (gate_manager g) then True
      else if Some create_ts = own_write g then True
      else case timestamp_slot (gate_manager g) create_ts of
             SlotCommitted \<Rightarrow> True | SlotVanished \<Rightarrow> True | _ \<Rightarrow> False)"

definition effective_delete ::
  "pending_gate \<Rightarrow> timestamp \<Rightarrow> timestamp option \<Rightarrow> timestamp option" where
  "effective_delete g snapshot delete_ts =
     (case delete_ts of
        None \<Rightarrow> None
      | Some del \<Rightarrow>
          if snapshot < del then None
          else if del \<le> read_ts (gate_manager g) then Some del
          else if Some del = own_write g then Some del
          else case timestamp_slot (gate_manager g) del of
                 SlotCommitted \<Rightarrow> Some del | SlotVanished \<Rightarrow> Some del
               | SlotPending \<Rightarrow> None | SlotAborted \<Rightarrow> None)"

definition gate_row_visible :: "pending_gate \<Rightarrow> timestamp \<Rightarrow> timestamp \<Rightarrow> timestamp option \<Rightarrow> bool" where
  "gate_row_visible g snapshot create_ts delete_ts =
     (if \<not> is_create_visible g snapshot create_ts then False
      else effective_delete g snapshot delete_ts = None)"

definition gate_edge_visible :: "pending_gate \<Rightarrow> timestamp \<Rightarrow> timestamp \<Rightarrow> timestamp \<Rightarrow> bool" where
  "gate_edge_visible g snapshot create_ts delete_ts =
     gate_row_visible g snapshot create_ts (if delete_ts = u64_max then None else Some delete_ts)"

record visibility_guard =
  guard_snapshot :: timestamp
  guard_gate :: pending_gate

definition guard_row_visible :: "visibility_guard \<Rightarrow> timestamp \<Rightarrow> timestamp option \<Rightarrow> bool" where
  "guard_row_visible vg create_ts delete_ts =
     gate_row_visible (guard_gate vg) (guard_snapshot vg) create_ts delete_ts"

subsection \<open>Watermarks\<close>

definition NO_ACTIVE_SNAPSHOT :: timestamp where
  "NO_ACTIVE_SNAPSHOT = u64_max"

record mvcc_watermarks =
  oldest_active_snapshot :: timestamp
  last_published_commit :: timestamp
  checkpoint_snapshot :: "timestamp option"
  wal_reclaim_lsn :: nat

definition watermarks_capture ::
  "version_manager \<Rightarrow> timestamp option \<Rightarrow> nat option \<Rightarrow> mvcc_watermarks" where
  "watermarks_capture vm cs lsn =
     \<lparr> oldest_active_snapshot = cleanup_threshold (tracker vm),
       last_published_commit = read_ts vm,
       checkpoint_snapshot = cs,
       wal_reclaim_lsn = (case lsn of None \<Rightarrow> 0 | Some l \<Rightarrow> l) \<rparr>"

definition watermarks_from_parts ::
  "timestamp \<Rightarrow> timestamp \<Rightarrow> timestamp option \<Rightarrow> nat \<Rightarrow> mvcc_watermarks" where
  "watermarks_from_parts oldest published cs lsn =
     \<lparr> oldest_active_snapshot = oldest, last_published_commit = published,
       checkpoint_snapshot = cs, wal_reclaim_lsn = lsn \<rparr>"

definition safe_gc_timestamp :: "mvcc_watermarks \<Rightarrow> timestamp" where
  "safe_gc_timestamp wm =
     (if oldest_active_snapshot wm = NO_ACTIVE_SNAPSHOT
      then last_published_commit wm else oldest_active_snapshot wm)"

definition safe_gc_timestamp_with_margin :: "mvcc_watermarks \<Rightarrow> timestamp \<Rightarrow> timestamp" where
  "safe_gc_timestamp_with_margin wm margin = saturating_sub_u64 (safe_gc_timestamp wm) margin"

definition has_active_snapshot :: "mvcc_watermarks \<Rightarrow> bool" where
  "has_active_snapshot wm = (oldest_active_snapshot wm \<noteq> NO_ACTIVE_SNAPSHOT)"

definition has_checkpoint_snapshot :: "mvcc_watermarks \<Rightarrow> bool" where
  "has_checkpoint_snapshot wm = (checkpoint_snapshot wm \<noteq> None)"

definition can_reclaim_wal :: "mvcc_watermarks \<Rightarrow> bool" where
  "can_reclaim_wal wm = (checkpoint_snapshot wm \<noteq> None \<and> wal_reclaim_lsn wm \<noteq> 0)"

subsection \<open>The GC coordinator\<close>

record checkpoint_manifest =
  snapshot_timestamp :: "timestamp option"
  safe_lsn :: nat

record gc_coordinator =
  config_margin :: timestamp
  gc_checkpoint_snapshot :: "timestamp option"
  gc_wal_reclaim_lsn :: "nat option"

definition gc_coordinator_new :: gc_coordinator where
  "gc_coordinator_new =
     \<lparr> config_margin = 1, gc_checkpoint_snapshot = None, gc_wal_reclaim_lsn = None \<rparr>"

definition with_margin :: "timestamp \<Rightarrow> gc_coordinator \<Rightarrow> gc_coordinator" where
  "with_margin margin gc = gc\<lparr> config_margin := margin \<rparr>"

definition refresh_checkpoint_watermark :: "timestamp \<Rightarrow> nat \<Rightarrow> gc_coordinator \<Rightarrow> gc_coordinator" where
  "refresh_checkpoint_watermark snapshot lsn gc =
     gc\<lparr> gc_checkpoint_snapshot := Some snapshot, gc_wal_reclaim_lsn := Some lsn \<rparr>"

definition load_checkpoint_watermark ::
  "checkpoint_manifest option \<Rightarrow> (timestamp option \<times> nat option) option" where
  "load_checkpoint_watermark latest =
     (case latest of
        None \<Rightarrow> None
      | Some m \<Rightarrow>
          (case snapshot_timestamp m of
             None \<Rightarrow> None
           | Some s \<Rightarrow> Some (Some s, Some (safe_lsn m))))"

definition gc_capture_watermarks ::
  "gc_coordinator \<Rightarrow> version_manager \<Rightarrow> checkpoint_manifest option \<Rightarrow> mvcc_watermarks" where
  "gc_capture_watermarks gc vm latest =
     (if gc_checkpoint_snapshot gc \<noteq> None
      then watermarks_capture vm (gc_checkpoint_snapshot gc) (gc_wal_reclaim_lsn gc)
      else case load_checkpoint_watermark latest of
             None \<Rightarrow> watermarks_capture vm None None
           | Some (snapshot, reclaim) \<Rightarrow> watermarks_capture vm snapshot reclaim)"

definition gc_safe_timestamp ::
  "gc_coordinator \<Rightarrow> version_manager \<Rightarrow> checkpoint_manifest option \<Rightarrow> timestamp" where
  "gc_safe_timestamp gc vm latest =
     safe_gc_timestamp_with_margin (gc_capture_watermarks gc vm latest) (config_margin gc)"

subsection \<open>The two halves of acquiring a read timestamp\<close>

definition acquire_read_admit :: "version_manager \<Rightarrow> (timestamp \<times> version_manager) option" where
  "acquire_read_admit vm =
     (let pr = read_pending vm in
      if 0 \<le>s pr then
        if max_concurrent_reads (vm_config vm) \<le>s pr then None
        else Some (read_ts vm, vm\<lparr> read_pending := pr + 1 \<rparr>)
      else None)"

definition acquire_read_pin :: "timestamp \<Rightarrow> instant \<Rightarrow> version_manager \<Rightarrow> version_manager" where
  "acquire_read_pin ts now vm = vm\<lparr> tracker := add_snapshot ts now (tracker vm) \<rparr>"

definition oldest_write_pinned :: "version_manager \<Rightarrow> bool" where
  "oldest_write_pinned vm \<longleftrightarrow>
     (read_ts vm \<noteq> write_ts vm \<longrightarrow> 0 < snapshot_refs (tracker vm) (read_ts vm + 1))"

subsection \<open>Runs that settle each reservation no later than its start\<close>

text \<open>
  A reserved commit slot holds no snapshot of its own; the start slot of its transaction
  holds one for both.  \<open>settling_run R vm\<close>: \<open>vm\<close> is reached by operations that never settle
  a start slot while its reservation is open, \<open>R\<close> being the open reservations with their
  starts.  The manager works like this except where it retires both slots after a failed
  finalization (see \<open>start_first_abort_unsafe\<close>).
\<close>

inductive settling_run :: "(timestamp \<times> timestamp) set \<Rightarrow> version_manager \<Rightarrow> bool" where
  run_new: "settling_run {} (version_manager_with_config cfg)"
| run_init: "ts < MAX_TIMESTAMP \<Longrightarrow> settling_run {} (init_ts ts (version_manager_with_config cfg))"
| run_acquire_read: "settling_run R vm \<Longrightarrow> acquire_read_timestamp now vm = Some (ts, vm') \<Longrightarrow> settling_run R vm'"
| run_release_read: "settling_run R vm \<Longrightarrow> ts \<le> read_ts vm \<Longrightarrow> 0 < snapshot_refs (tracker vm) ts \<Longrightarrow>
     settling_run R (release_read_timestamp_at ts vm)"
| run_next_write: "settling_run R vm \<Longrightarrow> try_next_write_timestamp now vm = Inr (ts, vm') \<Longrightarrow> settling_run R vm'"
| run_acquire_insert: "settling_run R vm \<Longrightarrow> acquire_insert_timestamp now vm = Inr (ts, vm') \<Longrightarrow> settling_run R vm'"
| run_reserve: "settling_run R vm \<Longrightarrow> start \<notin> fst ` R \<Longrightarrow> start \<notin> snd ` R \<Longrightarrow>
     reserve_commit_timestamp now start vm = Inr (c, vm') \<Longrightarrow> settling_run (insert (start, c) R) vm'"
| run_abort: "settling_run R vm \<Longrightarrow> ts \<notin> fst ` R \<Longrightarrow>
     settling_run {p \<in> R. snd p \<noteq> ts} (abort_write_timestamp ts vm)"
| run_publish: "settling_run R vm \<Longrightarrow> (start, c) \<in> R \<Longrightarrow>
     settling_run {p \<in> R. snd p \<noteq> c} (publish_reserved_commit now start c vm)"
| run_allocate: "settling_run R vm \<Longrightarrow> start \<notin> fst ` R \<Longrightarrow> start \<notin> snd ` R \<Longrightarrow>
     allocate_commit_timestamp now start vm = Inr (c, vm') \<Longrightarrow> settling_run R vm'"
| run_reap: "settling_run R vm \<Longrightarrow> fst ` R \<subseteq> owned \<Longrightarrow>
     reap_expired_write_timestamps now timeout owned vm = (n, vm') \<Longrightarrow>
     settling_run {p \<in> R. pending_slot vm' (snd p)} vm'"

definition open_reservation :: "version_manager \<Rightarrow> timestamp \<Rightarrow> timestamp \<Rightarrow> bool" where
  "open_reservation vm s c \<longleftrightarrow> s < c \<and> c \<le> write_ts vm \<and> pending_slot vm s \<and> 0 < snapshot_refs (tracker vm) s \<and>
     pending_slot vm c \<and> snapshot_refs (tracker vm) c = 0"

definition reservations_ok :: "(timestamp \<times> timestamp) set \<Rightarrow> version_manager \<Rightarrow> bool" where
  "reservations_ok R vm \<longleftrightarrow> inj_on fst R \<and> (\<forall>(s, c) \<in> R. open_reservation vm s c) \<and>
     (\<forall>t. pending_slot vm t \<and> snapshot_refs (tracker vm) t = 0 \<longrightarrow> t \<in> snd ` R)"

subsection \<open>Lemmas\<close>

lemma is_create_visible_iff:
  "is_create_visible g snapshot stamp \<longleftrightarrow> stamp \<le> snapshot \<and> \<not> is_foreign_pending g snapshot stamp"
  by (auto simp: is_create_visible_def is_foreign_pending_def split: timestamp_slot_state.splits)

lemma effective_delete_iff:
  "effective_delete g snapshot d =
     (case d of None \<Rightarrow> None
      | Some del \<Rightarrow> if del \<le> snapshot \<and> \<not> is_foreign_pending g snapshot del then Some del else None)"
  by (auto simp: effective_delete_def is_foreign_pending_def
      split: timestamp_slot_state.splits option.splits)

lemma foreign_pending_below:
  "snapshot \<le> read_ts (gate_manager g) \<Longrightarrow> \<not> is_foreign_pending g snapshot stamp"
  by (auto simp: is_foreign_pending_def)

lemma safe_gc_bound:
  assumes good: "vm_good vm" and pinned: "oldest_write_pinned vm"
  shows "safe_gc_timestamp (watermarks_capture vm cs lsn) \<le> read_ts vm + 1"
proof (cases "oldest_active_snapshot (watermarks_capture vm cs lsn) = NO_ACTIVE_SNAPSHOT")
  case True
  then show ?thesis by (simp add: safe_gc_timestamp_def watermarks_capture_def)
next
  case False
  have inv: "vm_inv vm" using good by (simp add: vm_good_def)
  note D = vm_invD [OF inv]
  have ne: "min_active_snapshot (tracker vm) \<noteq> u64_max"
    using False by (simp add: watermarks_capture_def cleanup_threshold_def NO_ACTIVE_SNAPSHOT_def)
  then obtain u where u: "0 < snapshot_refs (tracker vm) u"
    using reg.minimum_none [OF D(1)] by blast
  have "min_active_snapshot (tracker vm) \<le> read_ts vm + 1"
  proof (cases "u \<le> read_ts vm")
    case True
    then show ?thesis using reg.minimum_lower [OF D(1) u] by simp
  next
    case False
    then have "pending_slot vm u" using D(9) [OF u] by simp
    then have "read_ts vm < write_ts vm"
      using False D(5) [of u] by (auto simp: pending_slot_iff)
    then show ?thesis
      using pinned reg.minimum_lower [OF D(1)] by (simp add: oldest_write_pinned_def)
  qed
  then show ?thesis
    using False
    by (simp add: safe_gc_timestamp_def watermarks_capture_def cleanup_threshold_def)
qed

lemma reservations_okI:
  assumes "inj_on fst R" "\<And>s c. (s, c) \<in> R \<Longrightarrow> open_reservation vm s c"
    "\<And>t. pending_slot vm t \<Longrightarrow> snapshot_refs (tracker vm) t = 0 \<Longrightarrow> t \<in> snd ` R"
  shows "reservations_ok R vm"
  using assms by (auto simp: reservations_ok_def)

lemma reservations_okD:
  assumes "reservations_ok R vm"
  shows "inj_on fst R" "\<And>s c. (s, c) \<in> R \<Longrightarrow> open_reservation vm s c"
    "\<And>t. pending_slot vm t \<Longrightarrow> snapshot_refs (tracker vm) t = 0 \<Longrightarrow> t \<in> snd ` R"
  using assms unfolding reservations_ok_def by blast+

lemma open_reservation_kept:
  "open_reservation vm s c \<Longrightarrow> write_ts vm \<le> write_ts vm' \<Longrightarrow> pending_slot vm' s \<Longrightarrow> pending_slot vm' c \<Longrightarrow>
   snapshot_refs (tracker vm') s = snapshot_refs (tracker vm) s \<Longrightarrow>
   snapshot_refs (tracker vm') c = snapshot_refs (tracker vm) c \<Longrightarrow> open_reservation vm' s c"
  by (simp add: open_reservation_def)

lemma reservations_kept:
  assumes ok: "reservations_ok R vm" and w: "write_ts vm \<le> write_ts vm'"
    and kept: "\<And>t. pending_slot vm t \<Longrightarrow> pending_slot vm' t \<and> snapshot_refs (tracker vm') t = snapshot_refs (tracker vm) t"
    and new: "\<And>t. pending_slot vm' t \<Longrightarrow> snapshot_refs (tracker vm') t = 0 \<Longrightarrow> pending_slot vm t"
  shows "reservations_ok R vm'"
proof (rule reservations_okI)
  show "inj_on fst R" by (rule reservations_okD(1) [OF ok])
  show "open_reservation vm' s c" if "(s, c) \<in> R" for s c
    using reservations_okD(2) [OF ok that] kept [of s] kept [of c] w
    by (intro open_reservation_kept [of vm s c vm']) (simp_all add: open_reservation_def)
  show "t \<in> snd ` R" if "pending_slot vm' t" "snapshot_refs (tracker vm') t = 0" for t
    using reservations_okD(3) [OF ok] new [OF that] kept [of t] that by simp
qed

lemma reservations_settled:
  assumes ok: "reservations_ok R vm" and st: "slots_settled X vm vm'"
    and starts: "\<And>s c. (s, c) \<in> R \<Longrightarrow> c \<notin> X \<Longrightarrow> s \<notin> X"
  shows "reservations_ok {p \<in> R. snd p \<notin> X} vm'"
proof (rule reservations_okI)
  have w: "write_ts vm \<le> write_ts vm'" and pend: "\<And>t. pending_slot vm' t \<longleftrightarrow> pending_slot vm t \<and> t \<notin> X"
    and refs: "\<And>t. t \<notin> X \<Longrightarrow> snapshot_refs (tracker vm') t = snapshot_refs (tracker vm) t"
    using st by (simp_all add: slots_settled_def)
  show "inj_on fst {p \<in> R. snd p \<notin> X}" using reservations_okD(1) [OF ok] by (rule inj_on_subset) blast
  show "open_reservation vm' s c" if "(s, c) \<in> {p \<in> R. snd p \<notin> X}" for s c
  proof -
    have sc: "(s, c) \<in> R" "c \<notin> X" "s \<notin> X" using that starts by auto
    then show ?thesis using reservations_okD(2) [OF ok sc(1)] w pend refs
      by (intro open_reservation_kept [of vm s c vm']) (simp_all add: open_reservation_def)
  qed
  show "t \<in> snd ` {p \<in> R. snd p \<notin> X}" if t: "pending_slot vm' t" "snapshot_refs (tracker vm') t = 0" for t
  proof -
    have "t \<notin> X" "t \<in> snd ` R" using t pend [of t] refs [of t] reservations_okD(3) [OF ok, of t] by auto
    then show ?thesis by (auto simp: image_iff)
  qed
qed

lemma reservations_fresh:
  assumes "reservations_ok R vm" "vm_inv vm" "write_ts vm' = write_ts vm + 1"
    "write_states vm' = bm_insert (write_ts vm + 1) (now, Pending) (write_states vm)"
    "tracker vm' = add_snapshot (write_ts vm + 1) now (tracker vm)"
  shows "reservations_ok R vm'"
proof (rule reservations_kept [OF assms(1)])
  have refs: "snapshot_refs (tracker vm') t = snapshot_refs (tracker vm) t + (if t = write_ts vm + 1 then 1 else 0)" for t
    by (simp add: assms(5) add_snapshot_refs vm_invD(1) [OF assms(2)])
  have pend: "pending_slot vm' t \<longleftrightarrow> t = write_ts vm + 1 \<or> pending_slot vm t" for t by (simp add: pending_slot_iff assms(4))
  show "pending_slot vm' t \<and> snapshot_refs (tracker vm') t = snapshot_refs (tracker vm) t" if "pending_slot vm t" for t
  proof -
    have "t \<le> write_ts vm" using that vm_invD(5) [OF assms(2), of t] by (auto simp: pending_slot_iff)
    then show ?thesis using that by (simp add: pend refs)
  qed
  show "pending_slot vm t" if "pending_slot vm' t" "snapshot_refs (tracker vm') t = 0" for t
    using that by (auto simp: pend refs)
qed (simp add: assms(3))

lemma reservations_reserve:
  assumes ok: "reservations_ok R vm" and inv: "vm_inv vm" and s: "s \<notin> fst ` R" "s \<notin> snd ` R"
    and r: "reserve_commit_timestamp now s vm = Inr (c, vm')"
  shows "reservations_ok (insert (s, c) R) vm'"
proof (rule reservations_okI)
  have c: "c = write_ts vm + 1" "vm' = start_slot now vm" "pending_slot vm s" using r by (auto simp: reserve_commit_Inr)
  have v: "tracker vm' = tracker vm" "write_ts vm' = write_ts vm + 1" using c(2) by (simp_all add: start_slot_def)
  have pend: "pending_slot vm' t \<longleftrightarrow> t = c \<or> pending_slot vm t" for t by (simp add: c(1,2) start_slot_pending)
  show "inj_on fst (insert (s, c) R)" using reservations_okD(1) [OF ok] s(1) by auto
  show "open_reservation vm' s' c'" if "(s', c') \<in> insert (s, c) R" for s' c'
  proof (cases "(s', c') \<in> R")
    case True
    then show ?thesis using reservations_okD(2) [OF ok True] v pend
      by (intro open_reservation_kept [of vm s' c' vm']) (simp_all add: open_reservation_def)
  next
    case False
    have "s \<le> write_ts vm" using vm_invD(5) [OF inv, of s] c(3) by (auto simp: pending_slot_iff)
    moreover have "0 < snapshot_refs (tracker vm) s" using reservations_okD(3) [OF ok c(3)] s(2) by auto
    ultimately show ?thesis using False that c(1,3) fresh_unpinned [OF inv] pend v by (auto simp: open_reservation_def)
  qed
  show "t \<in> snd ` insert (s, c) R" if "pending_slot vm' t" "snapshot_refs (tracker vm') t = 0" for t
    using that reservations_okD(3) [OF ok, of t] by (auto simp: pend v(1))
qed

lemma reservations_publish:
  assumes ok: "reservations_ok R vm" and inv: "vm_inv vm" and p: "(s, c) \<in> R"
  shows "reservations_ok {p \<in> R. snd p \<noteq> c} (publish_reserved_commit now s c vm)"
proof -
  note D = reservations_okD(2) [OF ok]
  have pc: "c \<le> write_ts vm" "snapshot_refs (tracker vm) c = 0" "0 < snapshot_refs (tracker vm) s"
    using D [OF p] by (simp_all add: open_reservation_def)
  have "reservations_ok {p \<in> R. snd p \<notin> {s, c}} (publish_reserved_commit now s c vm)"
  proof (rule reservations_settled [OF ok publish_settles [OF inv pc(1) disjI1 [OF pc(2)]]])
    show "s' \<notin> {s, c}" if q: "(s', c') \<in> R" "c' \<notin> {s, c}" for s' c'
      using inj_onD [OF reservations_okD(1) [OF ok] _ q(1) p] q(2) D [OF q(1)] pc(2) by (auto simp: open_reservation_def)
  qed
  moreover have "{p \<in> R. snd p \<notin> {s, c}} = {p \<in> R. snd p \<noteq> c}" using D pc(3) by (force simp: open_reservation_def)
  ultimately show ?thesis by simp
qed

lemma reachable_inv: "vm_reachable vm \<Longrightarrow> vm_inv vm"
  using reachable_good by (simp add: vm_good_def)

lemma settling_run_ok: "settling_run R vm \<Longrightarrow> vm_reachable vm \<and> reservations_ok R vm"
proof (induction rule: settling_run.induct)
  case (run_new cfg)
  have "reservations_ok {} (version_manager_with_config cfg)"
    by (simp add: reservations_ok_def version_manager_with_config_def pending_slot_def)
  then show ?case by (simp add: reach_new)
next
  case (run_init ts cfg)
  moreover have "reservations_ok {} (init_ts ts (version_manager_with_config cfg))"
    by (simp add: reservations_ok_def init_ts_def pending_slot_def)
  ultimately show ?case by (simp add: reach_init)
next
  case (run_acquire_read R vm now ts vm')
  then have inv: "vm_inv vm" using reachable_inv by blast
  have v: "vm' = vm\<lparr> read_pending := read_pending vm + 1, tracker := add_snapshot (read_ts vm) now (tracker vm) \<rparr>"
    using run_acquire_read by (simp add: acquire_read_Some)
  have "reservations_ok R vm'"
  proof (rule reservations_kept [of R vm])
    show "pending_slot vm' t \<and> snapshot_refs (tracker vm') t = snapshot_refs (tracker vm) t" if "pending_slot vm t" for t
      using that vm_invD(7) [OF inv that] by (simp add: v pending_slot_def add_snapshot_refs vm_invD(1) [OF inv])
  qed (use run_acquire_read in \<open>simp_all add: v pending_slot_def\<close>)
  then show ?case using run_acquire_read reach_step step_acquire_read by blast
next
  case (run_release_read R vm ts)
  then have inv: "vm_inv vm" using reachable_inv by blast
  have "reservations_ok R (release_read_timestamp_at ts vm)"
  proof (rule reservations_kept [of R vm])
    show "pending_slot (release_read_timestamp_at ts vm) t \<and>
      snapshot_refs (tracker (release_read_timestamp_at ts vm)) t = snapshot_refs (tracker vm) t" if "pending_slot vm t" for t
      using that vm_invD(7) [OF inv that] run_release_read(2)
      by (simp add: release_read_timestamp_at_def pending_slot_def release_ignoring_refs vm_invD(1) [OF inv])
  qed (use run_release_read in \<open>simp_all add: release_read_timestamp_at_def pending_slot_def\<close>)
  then show ?case using run_release_read reach_step step_release_read by blast
next
  case (run_next_write R vm now ts vm')
  then have "reservations_ok R vm'" using reachable_inv
    by (intro reservations_fresh [of R vm vm' now]) (auto simp: next_write_Inr)
  then show ?case using run_next_write reach_step step_next_write by blast
next
  case (run_acquire_insert R vm now ts vm')
  then have "reservations_ok R vm'" using reachable_inv
    by (intro reservations_fresh [of R vm vm' now]) (auto simp: acquire_insert_Inr)
  then show ?case using run_acquire_insert reach_step step_acquire_insert by blast
next
  case (run_reserve R vm start now c vm')
  then show ?case using reservations_reserve reach_step step_reserve reachable_inv by metis
next
  case (run_abort R vm ts)
  then have "reservations_ok {p \<in> R. snd p \<notin> {ts}} (abort_write_timestamp ts vm)"
    by (intro reservations_settled [OF _ abort_settles]) (auto simp: reachable_inv image_iff)
  then show ?case using run_abort reach_step [OF _ step_abort] by simp
next
  case (run_publish R vm start c now)
  then have "c \<le> write_ts vm" "snapshot_refs (tracker vm) c = 0"
    using reservations_okD(2) [of R vm start c] by (auto simp: open_reservation_def)
  then have "vm_reachable (publish_reserved_commit now start c vm)"
    using run_publish reach_step [OF _ step_publish [of c vm now start]] by blast
  then show ?case using run_publish reservations_publish reachable_inv by blast
next
  case (run_allocate R vm start now c vm')
  then have "reservations_ok {p \<in> R. snd p \<notin> {start}} vm'"
    by (intro reservations_settled [OF _ allocate_settles]) (auto simp: reachable_inv image_iff)
  moreover have "{p \<in> R. snd p \<notin> {start}} = R" using run_allocate(3) by force
  ultimately have "reservations_ok R vm'" by simp
  then show ?case using run_allocate reach_step step_allocate by blast
next
  case (run_reap R vm owned now timeout n vm')
  then obtain X where X: "X \<inter> owned = {}" "slots_settled X vm vm'" using reap_settles reachable_inv by metis
  have ok: "reservations_ok R vm" using run_reap by blast
  have "reservations_ok {p \<in> R. snd p \<notin> X} vm'" using X run_reap(2) by (intro reservations_settled [OF ok]) force+
  moreover have "{p \<in> R. snd p \<notin> X} = {p \<in> R. pending_slot vm' (snd p)}"
    using X(2) reservations_okD(2) [OF ok] by (auto simp: slots_settled_def open_reservation_def)
  ultimately show ?case using run_reap reach_step step_reap by metis
qed

lemma settling_run_pinned:
  assumes "settling_run R vm" shows "oldest_write_pinned vm"
  unfolding oldest_write_pinned_def
proof (intro impI, rule ccontr)
  assume ne: "read_ts vm \<noteq> write_ts vm" and z: "\<not> 0 < snapshot_refs (tracker vm) (read_ts vm + 1)"
  have good: "vm_good vm" and ok: "reservations_ok R vm" using settling_run_ok [OF assms] reachable_good by auto
  obtain s where "(s, read_ts vm + 1) \<in> R"
    using reservations_okD(3) [OF ok frontier_next_pending [OF good ne]] z by auto
  from reservations_okD(2) [OF ok this] have "s < read_ts vm + 1" "pending_slot vm s" by (simp_all add: open_reservation_def)
  then show False using vm_invD(7) [of vm s] good by (simp add: vm_good_def)
qed

lemma safe_gc_below_active:
  assumes "tracker_inv (tracker vm)" "0 < snapshot_refs (tracker vm) s" "s < u64_max"
  shows "safe_gc_timestamp (watermarks_capture vm cs lsn) \<le> s"
  using reg.minimum_lower [OF assms(1,2)] assms(3)
  by (simp add: safe_gc_timestamp_def watermarks_capture_def cleanup_threshold_def
      NO_ACTIVE_SNAPSHOT_def)

lemma gc_capture_cases:
  obtains cs lsn where "gc_capture_watermarks gc vm latest = watermarks_capture vm cs lsn"
proof (cases "gc_checkpoint_snapshot gc \<noteq> None")
  case False
  then show thesis
    using that by (cases "load_checkpoint_watermark latest") (auto simp: gc_capture_watermarks_def)
qed (use that in \<open>simp add: gc_capture_watermarks_def\<close>)

definition quiet :: "version_manager \<Rightarrow> bool" where
  "quiet vm \<longleftrightarrow> vm_good vm \<and> read_ts vm = write_ts vm \<and> (\<forall>u. snapshot_refs (tracker vm) u = 0)"

lemma commit_cycle:
  assumes q: "quiet vm" and i: "acquire_insert_timestamp now vm = Inr (w, vm1)" and k: "commit_ordered now' w vm1 = Inr (c, vm2)"
  shows "quiet vm2" "c = write_ts vm + 2" "write_ts vm2 = c"
proof -
  have good: "vm_good vm" "vm_inv vm" using q by (simp_all add: quiet_def vm_good_def)
  have w: "w = write_ts vm + 1" "write_ts vm1 = w" using i by (auto simp: acquire_insert_Inr)
  obtain v where v: "reserve_commit_timestamp now' w vm1 = Inr (c, v)" and vm2: "vm2 = publish_reserved_commit now' w c v"
    using k by (auto simp: commit_ordered_def bind_result_Inr)
  then have c: "c = write_ts vm + 2" "v = start_slot now' vm1" using w by (auto simp: reserve_commit_Inr)
  have vg: "vm_good v" using reserve_commit_good [OF v acquire_insert_good [OF i good(1)]] .
  have refs: "snapshot_refs (tracker v) u = (if u = w then 1 else 0)" for u
    using i q vm_invD(1) [OF good(2)] by (auto simp: c(2) start_slot_def acquire_insert_Inr add_snapshot_refs quiet_def)
  have "\<not> pending_slot vm u" for u using vm_invD(5,7) [OF good(2), of u] q by (auto simp: pending_slot_iff quiet_def)
  then have "pending_slot vm1 u \<longleftrightarrow> u = w" for u using i by (auto simp: acquire_insert_Inr pending_slot_iff)
  then have pend: "pending_slot v u \<longleftrightarrow> u = w \<or> u = c" for u using c w by (auto simp: start_slot_pending)
  have wv: "write_ts v = c" using c w by (simp add: start_slot_def)
  have vi: "vm_inv v" "c \<le> write_ts v" "snapshot_refs (tracker v) c = 0 \<or> c \<le> read_ts v"
    using vg wv refs c(1) w(1) by (simp_all add: vm_good_def)
  have g2: "vm_good vm2" unfolding vm2 by (rule publish_good [OF vi])
  have "read_ts vm2 = write_ts vm2"
  proof (rule ccontr)
    assume "read_ts vm2 \<noteq> write_ts vm2"
    from frontier_next_pending [OF g2 this] show False unfolding vm2 by (auto simp: publish_pending [OF vi] pend)
  qed
  moreover have "snapshot_refs (tracker vm2) u = 0" for u
    using refs [of u] pend by (simp add: vm2 settle_refs [OF vi(1)])
  ultimately show "quiet vm2" using g2 by (simp add: quiet_def)
  show "c = write_ts vm + 2" "write_ts vm2 = c" using c(1) wv by (simp_all add: vm2)
qed

lemma commit_cycle_exists:
  assumes "write_ts vm + 2 < MAX_TIMESTAMP"
  obtains w vm1 c vm2 where "acquire_insert_timestamp now vm = Inr (w, vm1)" "commit_ordered now' w vm1 = Inr (c, vm2)"
proof -
  obtain w vm1 where i: "acquire_insert_timestamp now vm = Inr (w, vm1)"
    using assms MAX_TIMESTAMP_less by (auto simp: acquire_insert_Inr)
  then have "pending_slot vm1 w" "write_ts vm1 = write_ts vm + 1" by (auto simp: acquire_insert_Inr pending_slot_iff)
  then obtain c v where "reserve_commit_timestamp now' w vm1 = Inr (c, v)"
    using assms MAX_TIMESTAMP_less by (auto simp: reserve_commit_Inr)
  then show thesis using that i by (simp add: commit_ordered_def)
qed

lemma quiet_cutoff:
  assumes "quiet vm" shows "gc_safe_timestamp gc_coordinator_new vm None = write_ts vm - 1"
  using assms reg.minimum_none [of "tracker vm"]
  by (simp add: quiet_def vm_good_def vm_invD(1) gc_safe_timestamp_def gc_coordinator_new_def gc_capture_watermarks_def
      load_checkpoint_watermark_def watermarks_capture_def cleanup_threshold_def NO_ACTIVE_SNAPSHOT_def
      safe_gc_timestamp_with_margin_def safe_gc_timestamp_def saturating_sub_u64_def)

definition demo_vm4 :: version_manager where
  "demo_vm4 = (case acquire_insert_timestamp 0 demo_vm2 of Inr (_, vm) \<Rightarrow> vm | Inl _ \<Rightarrow> demo_vm2)"

lemma demo_vm4_eq: "demo_vm4 = demo_vm2\<lparr> write_ts := 4, tracker := add_snapshot 4 0 (tracker demo_vm2),
    write_states := write_states demo_vm2 @ [(4, 0, Pending)], write_pending := 2 \<rparr>"
  by (simp add: demo_vm4_def acquire_insert_timestamp_def reserve_timestamp_def demo_vm2_eval is_allocatable_timestamp_def
      RESERVED_ZERO_TIMESTAMP_def INVALID_TIMESTAMP_def MAX_TIMESTAMP_def checked_add_u64_def u64_max_def)

lemmas run_simps =
  acquire_insert_timestamp_def commit_ordered_def reserve_commit_timestamp_def reserve_timestamp_def
  publish_reserved_commit_def settle_slot_def settle_commit_slot_def advance_read_frontier_def
  frontier_loop.simps release_ignoring_def release_snapshot_def add_snapshot_def
  update_min_active_def snapshot_tracker_new_def snapshot_refs_def
  checked_add_u64_def saturating_add_u64_def saturating_sub_u64_def is_allocatable_timestamp_def
  RESERVED_ZERO_TIMESTAMP_def INVALID_TIMESTAMP_def MAX_TIMESTAMP_def u64_max_def
  bm_remove_def bm_first_key_def
  gc_safe_timestamp_def gc_coordinator_new_def gc_capture_watermarks_def
  load_checkpoint_watermark_def watermarks_capture_def safe_gc_timestamp_with_margin_def
  safe_gc_timestamp_def cleanup_threshold_def min_active_snapshot_def NO_ACTIVE_SNAPSHOT_def
  is_gc_eligible_def is_version_visible_def

subsection \<open>Properties\<close>

text \<open>
  C27.  The pending-aware gate refines the plain interval predicate: it decides
  exactly as the plain predicate does once the stamps of foreign unsettled
  writes are erased, a foreign creation hiding the row and a foreign deletion
  counting as no deletion.
\<close>

theorem gate_refines_plain:
  "gate_row_visible g snapshot create_ts delete_ts \<longleftrightarrow>
     \<not> is_foreign_pending g snapshot create_ts \<and>
     row_live snapshot create_ts
       (case delete_ts of
          Some del \<Rightarrow> if is_foreign_pending g snapshot del then None else Some del
        | None \<Rightarrow> None)"
  by (auto simp: gate_row_visible_def is_create_visible_iff effective_delete_iff row_live_def
      is_visible_def split: option.splits)

text \<open>
  C12.  No dirty reads.  In every reachable state another transaction's pending write has
  no effect on what a transaction sees: a row it created is invisible at every snapshot,
  and a row it deleted is visible exactly when it would be without the deletion.  The
  transaction's own pending writes do count from its write timestamp on: its creations
  are visible to it and its deletions hide the row.
\<close>

theorem no_dirty_reads:
  assumes "vm_reachable vm" "timestamp_slot vm t = SlotPending"
  shows "(own \<noteq> Some t \<longrightarrow>
            \<not> gate_row_visible \<lparr> gate_manager = vm, own_write = own \<rparr> snapshot t d \<and>
            gate_row_visible \<lparr> gate_manager = vm, own_write = own \<rparr> snapshot c (Some t) =
              gate_row_visible \<lparr> gate_manager = vm, own_write = own \<rparr> snapshot c None) \<and>
         (own \<noteq> Some t \<and> c \<le> snapshot \<and> c \<le> read_ts vm \<longrightarrow>
            gate_row_visible \<lparr> gate_manager = vm, own_write = own \<rparr> snapshot c (Some t)) \<and>
         (t \<le> snapshot \<longrightarrow>
            gate_row_visible \<lparr> gate_manager = vm, own_write = Some t \<rparr> snapshot t None \<and>
            \<not> gate_row_visible \<lparr> gate_manager = vm, own_write = Some t \<rparr> snapshot c (Some t))"
proof -
  have "read_ts vm < t"
    using reachable_good [OF assms(1)] assms(2) vm_invD(7) by (auto simp: vm_good_def slot_pending_iff)
  then show ?thesis
    using assms(2)
    by (auto simp: gate_row_visible_def is_create_visible_def effective_delete_def)
qed

theorem no_dirty_reads_witness:
  "timestamp_slot demo_vm1 2 = SlotPending \<and>
   \<not> gate_row_visible \<lparr> gate_manager = demo_vm1, own_write = None \<rparr> 5 2 None \<and>
   gate_row_visible \<lparr> gate_manager = demo_vm1, own_write = None \<rparr> 5 1 (Some 2) \<and>
   gate_row_visible \<lparr> gate_manager = demo_vm1, own_write = Some 2 \<rparr> 2 2 None \<and>
   \<not> gate_row_visible \<lparr> gate_manager = demo_vm1, own_write = Some 2 \<rparr> 2 1 (Some 2)"
proof -
  have p: "timestamp_slot demo_vm1 2 = SlotPending" by (simp add: timestamp_slot_def demo_vm1_eval)
  show ?thesis
    using no_dirty_reads [OF demo_vm1_reachable p, of None 5 None 1]
      no_dirty_reads [OF demo_vm1_reachable p, of None 2 None 1] p
    by (elim conjE, intro conjI) (simp_all add: demo_vm1_eval)
qed

text \<open>
  C11.  Repeatable reads.  A snapshot at or below the read frontier gets the
  same answer from the gate after any interleaving of version-manager
  operations, and that answer is the plain interval predicate.
\<close>

theorem repeatable_reads:
  assumes "vm_reachable vm" "vm_step\<^sup>*\<^sup>* vm vm'" "snapshot \<le> read_ts vm"
  shows "gate_row_visible \<lparr> gate_manager = vm', own_write = own \<rparr> snapshot c d =
           gate_row_visible \<lparr> gate_manager = vm, own_write = own \<rparr> snapshot c d \<and>
         gate_row_visible \<lparr> gate_manager = vm, own_write = own \<rparr> snapshot c d = row_live snapshot c d"
proof -
  have "snapshot \<le> read_ts vm'" using steps_read_mono [OF assms(2,1)] assms(3) by simp
  with assms(3) show ?thesis
    by (simp add: gate_row_visible_def is_create_visible_iff effective_delete_iff
        foreign_pending_below row_live_def is_visible_def split: option.splits)
qed

theorem repeatable_reads_witness:
  "vm_step\<^sup>*\<^sup>* demo_vm1 demo_vm2 \<and>
   gate_row_visible \<lparr> gate_manager = demo_vm2, own_write = None \<rparr> 1 1 (Some 2) =
   gate_row_visible \<lparr> gate_manager = demo_vm1, own_write = None \<rparr> 1 1 (Some 2)"
proof -
  have st: "vm_step\<^sup>*\<^sup>* demo_vm1 demo_vm2" using demo_reserve step_reserve by blast
  with repeatable_reads [OF demo_vm1_reachable st, of 1 None 1 "Some 2"]
  show ?thesis by (simp add: demo_vm1_eval)
qed

text \<open>
  C4.  Safe garbage collection.  A version that the coordinator's cutoff makes eligible
  (with a margin of at least one) is invisible to every snapshot active when the
  watermark is captured.  If so far every reserved commit slot was settled together with
  or before the start slot of its transaction, it is also invisible to every reader that
  acquires its snapshot later in one step, whatever happened in between.
\<close>

theorem gc_never_reclaims_visible:
  assumes "vm_reachable vm" "1 \<le> config_margin gc"
    and eligible: "is_gc_eligible end_ts (gc_safe_timestamp gc vm latest)"
    and reader: "0 < snapshot_refs (tracker vm) s \<or>
      settling_run R vm \<and> vm_step\<^sup>*\<^sup>* vm vm' \<and> acquire_read_timestamp now vm' = Some (s, vm'')"
  shows "\<not> is_version_visible s start_ts end_ts"
proof -
  have good: "vm_good vm" using reachable_good assms(1) by blast
  then have inv: "vm_inv vm" by (simp add: vm_good_def)
  obtain cs lsn where wm: "gc_capture_watermarks gc vm latest = watermarks_capture vm cs lsn"
    by (rule gc_capture_cases)
  let ?safe = "safe_gc_timestamp (watermarks_capture vm cs lsn)"
  have e: "end_ts \<le> ?safe - config_margin gc"
    using eligible wm by (simp add: is_gc_eligible_def gc_safe_timestamp_def
        safe_gc_timestamp_with_margin_def saturating_sub_u64_def)
  have "end_ts \<le> s"
    using reader
  proof
    assume s: "0 < snapshot_refs (tracker vm) s"
    then have "s \<le> write_ts vm"
      using vm_invD(3) [OF inv] vm_invD(5,9) [OF inv, of s]
      by (cases "pending_slot vm s") (auto simp: pending_slot_iff)
    then have "s < u64_max" using vm_invD(4) [OF inv] by (simp add: MAX_TIMESTAMP_def)
    from safe_gc_below_active [OF vm_invD(1) [OF inv] s this, of cs lsn] e show ?thesis by simp
  next
    assume l: "settling_run R vm \<and> vm_step\<^sup>*\<^sup>* vm vm' \<and> acquire_read_timestamp now vm' = Some (s, vm'')"
    then have "read_ts vm \<le> s" using steps_read_mono [OF _ assms(1), of vm'] by (simp add: acquire_read_Some)
    with e safe_gc_bound [OF good settling_run_pinned [of R], of cs lsn] l assms(2) show ?thesis by simp
  qed
  then show ?thesis by (simp add: is_version_visible_def)
qed

lemma demo_vm1_read:
  "acquire_read_timestamp 0 demo_vm1 =
     Some (1, demo_vm1\<lparr> read_pending := 1, tracker := add_snapshot 1 0 (tracker demo_vm1) \<rparr>)"
  by (simp add: acquire_read_timestamp_def demo_vm1_eq version_manager_config_default_def
      word_sle_eq Let_def)

lemma demo_vm1_min: "min_active_snapshot (tracker demo_vm1) = 2"
  by (rule reg.minimum_eqI)
     (simp_all add: demo_vm1_eval reg.add_refs reg.fresh_inv reg.fresh_refs reg.add_inv
       u64_max_def split: if_splits)

theorem gc_never_reclaims_visible_witness:
  "is_gc_eligible 1 (gc_safe_timestamp gc_coordinator_new demo_vm1 None) \<and>
   settling_run {} demo_vm1 \<and> \<not> is_version_visible 1 0 1"
proof -
  have "settling_run {} demo_vm0" unfolding demo_vm0_def by (rule run_new)
  then have run: "settling_run {} demo_vm1" using demo_acquire run_acquire_insert by blast
  have "gc_safe_timestamp gc_coordinator_new demo_vm1 None = 1"
    by (simp add: gc_safe_timestamp_def gc_capture_watermarks_def gc_coordinator_new_def
        load_checkpoint_watermark_def watermarks_capture_def cleanup_threshold_def demo_vm1_min
        safe_gc_timestamp_with_margin_def safe_gc_timestamp_def saturating_sub_u64_def
        NO_ACTIVE_SNAPSHOT_def u64_max_def)
  then have el: "is_gc_eligible 1 (gc_safe_timestamp gc_coordinator_new demo_vm1 None)"
    by (simp add: is_gc_eligible_def)
  have "1 \<le> config_margin gc_coordinator_new" by (simp add: gc_coordinator_new_def)
  from gc_never_reclaims_visible [OF demo_vm1_reachable this el] demo_vm1_read run el
  show ?thesis by blast
qed

text \<open>
  Aborting the start slot before its reservation, as the commit does after a failed
  finalization, leaves a pending slot that no snapshot protects: a capture between the
  two calls allows reclaiming a version that a reader arriving at once still sees.
\<close>

lemma start_first_abort_unsafe:
  "case bind_result (commit_ordered 0 4 demo_vm4) (\<lambda>(c, vm). bind_result (acquire_insert_timestamp 0 vm)
          (\<lambda>(w, vm1). Inr (c, abort_write_timestamp 2 vm1))) of
     Inl _ \<Rightarrow> False
   | Inr (c, vm) \<Rightarrow> is_gc_eligible c (gc_safe_timestamp gc_coordinator_new vm None) \<and>
       (\<exists>vm'. acquire_read_timestamp 0 vm = Some (2, vm')) \<and> is_version_visible 2 1 c"
  by (simp add: demo_vm4_eq demo_vm2_eq demo_vm1_eq start_slot_def abort_write_timestamp_def finish_write_timestamp_def acquire_read_timestamp_def
      version_manager_config_default_def word_sle_eq run_simps Let_def)

text \<open>
  C35.  The race the margin does not absorb.  \<open>acquire_read_timestamp\<close> reads
  the frontier under its lock but registers the snapshot after dropping it.  In every
  reachable state with no write in flight and no registered snapshot: if a reader is
  admitted and two write transactions commit before it registers, the default cutoff
  already allows reclaiming a version that ends at the first of them and that the
  admitted reader sees, and registering the reader comes too late.
\<close>

theorem gc_races_with_admitted_reader:
  assumes vm: "vm_reachable vm" and idle: "read_ts vm = write_ts vm" "\<forall>u. snapshot_refs (tracker vm) u = 0"
    and admit: "acquire_read_admit vm = Some (s, vm0)"
    and first: "acquire_insert_timestamp now1 vm0 = Inr (w1, vm1)" "commit_ordered now2 w1 vm1 = Inr (c1, vm2)"
    and second: "acquire_insert_timestamp now3 vm2 = Inr (w2, vm3)" "commit_ordered now4 w2 vm3 = Inr (c2, vm4)"
    and b: "b \<le> s"
  shows "snapshot_refs (tracker vm4) s = 0 \<and> is_version_visible s b c1 \<and>
    is_gc_eligible c1 (gc_safe_timestamp gc_coordinator_new vm4 None) \<and>
    snapshot_refs (tracker (acquire_read_pin s now5 vm4)) s = 1"
proof -
  have vm0: "s = read_ts vm" "vm0 = vm\<lparr> read_pending := read_pending vm + 1 \<rparr>"
    using admit by (auto simp: acquire_read_admit_def Let_def split: if_splits)
  have "vm_good vm" using vm reachable_good by blast
  then have "quiet vm0" using idle vm0(2) by (simp add: quiet_def vm_good_def frontier_maximal_def)
  from commit_cycle [OF this first] have q2: "quiet vm2" "c1 = write_ts vm + 2" "write_ts vm2 = c1" by (simp_all add: vm0(2))
  from commit_cycle [OF q2(1) second] have q4: "quiet vm4" "write_ts vm4 = write_ts vm + 4" by (simp_all add: q2)
  have "gc_safe_timestamp gc_coordinator_new vm4 None = write_ts vm4 - 1" by (rule quiet_cutoff [OF q4(1)])
  then show ?thesis
    using q2 q4 b vm0(1) idle(1) by (simp add: quiet_def is_version_visible_def is_gc_eligible_def acquire_read_pin_def
        add_snapshot_refs vm_good_def vm_invD(1))
qed

theorem gc_races_with_admitted_reader_witness:
  "\<exists>s c1 vm0 w1 vm1 vm2 w2 vm3 c2 vm4. acquire_read_admit demo_vm0 = Some (s, vm0) \<and>
     acquire_insert_timestamp 0 vm0 = Inr (w1, vm1) \<and> commit_ordered 0 w1 vm1 = Inr (c1, vm2) \<and>
     acquire_insert_timestamp 0 vm2 = Inr (w2, vm3) \<and> commit_ordered 0 w2 vm3 = Inr (c2, vm4) \<and>
     is_version_visible s 1 c1 \<and> is_gc_eligible c1 (gc_safe_timestamp gc_coordinator_new vm4 None)"
proof -
  note eval = demo_vm0_def version_manager_with_config_def version_manager_config_default_def
  obtain vm0 where a: "acquire_read_admit demo_vm0 = Some (1, vm0)"
    by (simp add: acquire_read_admit_def eval word_sle_eq)
  have vm0: "vm0 = demo_vm0\<lparr> read_pending := read_pending demo_vm0 + 1 \<rparr>"
    using a by (auto simp: acquire_read_admit_def Let_def split: if_splits)
  then have q: "quiet vm0" using reachable_good [OF demo_vm0_reachable]
    by (simp add: quiet_def vm_good_def frontier_maximal_def) (simp add: eval reg.fresh_refs)
  have "write_ts vm0 = 1" by (simp add: vm0) (simp add: eval)
  then have room: "write_ts vm0 + 4 < MAX_TIMESTAMP" by (simp add: MAX_TIMESTAMP_def u64_max_def)
  then have r0: "write_ts vm0 + 2 < MAX_TIMESTAMP" by linarith
  obtain w1 vm1 c1 vm2 where i1: "acquire_insert_timestamp 0 vm0 = Inr (w1, vm1)" and k1: "commit_ordered 0 w1 vm1 = Inr (c1, vm2)"
    by (rule commit_cycle_exists [OF r0, of 0 0])
  have r2: "write_ts vm2 + 2 < MAX_TIMESTAMP" using commit_cycle(2,3) [OF q i1 k1] room by linarith
  obtain w2 vm3 c2 vm4 where i2: "acquire_insert_timestamp 0 vm2 = Inr (w2, vm3)" and k2: "commit_ordered 0 w2 vm3 = Inr (c2, vm4)"
    by (rule commit_cycle_exists [OF r2, of 0 0])
  have "read_ts demo_vm0 = write_ts demo_vm0" "\<forall>u. snapshot_refs (tracker demo_vm0) u = 0"
    by (simp_all add: eval reg.fresh_refs)
  from gc_races_with_admitted_reader [OF demo_vm0_reachable this a i1 k1 i2 k2, of 1] a i1 k1 i2 k2
  show ?thesis by blast
qed

end
