(* ===== verification/Bytes.thy ===== *)
theory Bytes
  imports Prelude
begin

text \<open>
  Byte strings as the source uses them: fixed-width big- and little-endian
  integers (\<open>to_be_bytes\<close>, \<open>to_le_bytes\<close> and their inverses), the
  lexicographic comparison of slices, UTF-8 validity
  (\<open>std::str::from_utf8\<close>), and the decimal printing and parsing of 64-bit
  integers.  These are the parts of the Rust standard library that the
  identifier, range and codec code relies on.
\<close>

subsection \<open>Orderings\<close>

datatype cmp_ordering = Less | Equal | Greater

fun cmp_reverse :: "cmp_ordering \<Rightarrow> cmp_ordering" where
  "cmp_reverse Less = Greater"
| "cmp_reverse Equal = Equal"
| "cmp_reverse Greater = Less"

definition ord_cmp :: "'a::linorder \<Rightarrow> 'a \<Rightarrow> cmp_ordering" where
  "ord_cmp a b = (if a < b then Less else if a = b then Equal else Greater)"

fun slice_cmp :: "byte list \<Rightarrow> byte list \<Rightarrow> cmp_ordering" where
  "slice_cmp [] [] = Equal"
| "slice_cmp [] (_ # _) = Less"
| "slice_cmp (_ # _) [] = Greater"
| "slice_cmp (a # as) (b # bs) =
     (if a < b then Less else if b < a then Greater else slice_cmp as bs)"

subsection \<open>Fixed-width integers\<close>

primrec be_enc :: "nat \<Rightarrow> nat \<Rightarrow> byte list" where
  "be_enc 0 n = []"
| "be_enc (Suc k) n = of_nat (n div 256 ^ k) # be_enc k (n mod 256 ^ k)"

primrec be_val :: "byte list \<Rightarrow> nat" where
  "be_val [] = 0"
| "be_val (b # bs) = unat b * 256 ^ length bs + be_val bs"

definition le_enc :: "nat \<Rightarrow> nat \<Rightarrow> byte list" where
  "le_enc k n = rev (be_enc k n)"

definition le_val :: "byte list \<Rightarrow> nat" where
  "le_val bs = be_val (rev bs)"

definition u64_to_be_bytes :: "u64 \<Rightarrow> byte list" where
  "u64_to_be_bytes w = be_enc 8 (unat w)"

definition u64_from_be_bytes :: "byte list \<Rightarrow> u64" where
  "u64_from_be_bytes bs = of_nat (be_val bs)"

definition u64_to_le_bytes :: "u64 \<Rightarrow> byte list" where
  "u64_to_le_bytes w = le_enc 8 (unat w)"

definition u64_from_le_bytes :: "byte list \<Rightarrow> u64" where
  "u64_from_le_bytes bs = of_nat (le_val bs)"

subsection \<open>UTF-8 validity\<close>

definition in_range :: "byte \<Rightarrow> byte \<Rightarrow> byte \<Rightarrow> bool" where
  "in_range lo hi b \<longleftrightarrow> lo \<le> b \<and> b \<le> hi"

fun utf8_valid :: "byte list \<Rightarrow> bool" where
  "utf8_valid [] = True"
| "utf8_valid (a # as) =
     (if a < 0x80 then utf8_valid as
      else if in_range 0xC2 0xDF a then
        (case as of b # bs \<Rightarrow> in_range 0x80 0xBF b \<and> utf8_valid bs | _ \<Rightarrow> False)
      else if in_range 0xE0 0xEF a then
        (case as of b # c # cs \<Rightarrow>
           in_range (if a = 0xE0 then 0xA0 else 0x80) (if a = 0xED then 0x9F else 0xBF) b \<and>
           in_range 0x80 0xBF c \<and> utf8_valid cs
         | _ \<Rightarrow> False)
      else if in_range 0xF0 0xF4 a then
        (case as of b # c # d # ds \<Rightarrow>
           in_range (if a = 0xF0 then 0x90 else 0x80) (if a = 0xF4 then 0x8F else 0xBF) b \<and>
           in_range 0x80 0xBF c \<and> in_range 0x80 0xBF d \<and> utf8_valid ds
         | _ \<Rightarrow> False)
      else False)"

subsection \<open>Decimal integers\<close>

fun nat_to_decimal :: "nat \<Rightarrow> byte list" where
  "nat_to_decimal n =
     (if n < 10 then [of_nat (48 + n)] else nat_to_decimal (n div 10) @ [of_nat (48 + n mod 10)])"

definition int_to_decimal :: "int \<Rightarrow> byte list" where
  "int_to_decimal i =
     (if i < 0 then 45 # nat_to_decimal (nat (- i)) else nat_to_decimal (nat i))"

definition is_digit :: "byte \<Rightarrow> bool" where
  "is_digit b = in_range 48 57 b"

definition digits_val :: "byte list \<Rightarrow> nat" where
  "digits_val bs = foldl (\<lambda>acc b. acc * 10 + (unat b - 48)) 0 bs"

definition parse_digits :: "byte list \<Rightarrow> nat option" where
  "parse_digits bs = (if bs \<noteq> [] \<and> list_all is_digit bs then Some (digits_val bs) else None)"

definition parse_i64 :: "byte list \<Rightarrow> int option" where
  "parse_i64 bs =
     (case bs of
        [] \<Rightarrow> None
      | b # ds \<Rightarrow>
          (let value =
             (if b = 45 then map_option (\<lambda>n. - int n) (parse_digits ds)
              else if b = 43 then map_option int (parse_digits ds)
              else map_option int (parse_digits bs))
           in case value of
                Some i \<Rightarrow> if - (2 ^ 63) \<le> i \<and> i < 2 ^ 63 then Some i else None
              | None \<Rightarrow> None))"

declare nat_to_decimal.simps [simp del]

subsection \<open>Lemmas on encodings\<close>

lemma length_be_enc [simp]: "length (be_enc k n) = k"
  by (induction k arbitrary: n) auto

lemma length_le_enc [simp]: "length (le_enc k n) = k"
  by (simp add: le_enc_def)

lemma unat_byte_of_nat: "unat (of_nat n :: byte) = n mod 256"
  by (simp add: unat_of_nat)

lemma be_val_bound: "be_val bs < 256 ^ length bs"
proof (induction bs)
  case (Cons b bs)
  have "unat b \<le> 255" using unat_bound [of b] by simp
  then have "unat b * 256 ^ length bs \<le> 255 * 256 ^ length bs" by (rule mult_right_mono) simp
  with Cons have "unat b * 256 ^ length bs + be_val bs < 255 * 256 ^ length bs + 256 ^ length bs"
    by linarith
  then show ?case by simp
qed simp

lemma be_val_enc: "n < 256 ^ k \<Longrightarrow> be_val (be_enc k n) = n"
proof (induction k arbitrary: n)
  case (Suc k)
  have "n div 256 ^ k < 256"
    using Suc.prems by (simp add: less_mult_imp_div_less)
  then show ?case
    using Suc.IH [of "n mod 256 ^ k"] by (simp add: unat_byte_of_nat div_mult_mod_eq)
qed simp

lemma be_enc_val: "be_enc (length bs) (be_val bs) = bs"
proof (induction bs)
  case (Cons b bs)
  have "(unat b * 256 ^ length bs + be_val bs) div 256 ^ length bs = unat b"
    using be_val_bound [of bs] by simp
  moreover have "(unat b * 256 ^ length bs + be_val bs) mod 256 ^ length bs = be_val bs"
    using be_val_bound [of bs] by simp
  ultimately show ?case using Cons by simp
qed simp

lemma le_val_enc: "n < 256 ^ k \<Longrightarrow> le_val (le_enc k n) = n"
  by (simp add: le_val_def le_enc_def be_val_enc)

lemma u64_be_roundtrip [simp]: "u64_from_be_bytes (u64_to_be_bytes w) = w"
proof -
  have "unat w < 256 ^ 8" using unat_bound [of w] by simp
  then show ?thesis by (simp add: u64_from_be_bytes_def u64_to_be_bytes_def be_val_enc)
qed

lemma u64_le_roundtrip [simp]: "u64_from_le_bytes (u64_to_le_bytes w) = w"
proof -
  have "unat w < 256 ^ 8" using unat_bound [of w] by simp
  then show ?thesis by (simp add: u64_from_le_bytes_def u64_to_le_bytes_def le_val_enc)
qed

lemma length_u64_to_be_bytes [simp]: "length (u64_to_be_bytes w) = 8"
  by (simp add: u64_to_be_bytes_def)

lemma length_u64_to_le_bytes [simp]: "length (u64_to_le_bytes w) = 8"
  by (simp add: u64_to_le_bytes_def)

lemma u64_be_bytes_inverse: "length bs = 8 \<Longrightarrow> u64_to_be_bytes (u64_from_be_bytes bs) = bs"
proof -
  assume len: "length bs = 8"
  then have "be_val bs < 2 ^ 64" using be_val_bound [of bs] by simp
  then have "unat (of_nat (be_val bs) :: u64) = be_val bs" by (simp add: unat_of_nat)
  then show ?thesis
    using len be_enc_val [of bs] by (simp add: u64_to_be_bytes_def u64_from_be_bytes_def)
qed

subsection \<open>Lemmas on slice comparison\<close>

lemma slice_cmp_Equal [simp]: "slice_cmp as bs = Equal \<longleftrightarrow> as = bs"
  by (induction as bs rule: slice_cmp.induct) auto

lemma slice_cmp_refl [simp]: "slice_cmp as as = Equal"
  by simp

lemma slice_cmp_reverse: "slice_cmp bs as = cmp_reverse (slice_cmp as bs)"
  by (induction as bs rule: slice_cmp.induct) auto

lemma slice_cmp_trans:
  "slice_cmp as bs \<noteq> Greater \<Longrightarrow> slice_cmp bs cs \<noteq> Greater \<Longrightarrow> slice_cmp as cs \<noteq> Greater"
proof (induction as bs arbitrary: cs rule: slice_cmp.induct)
  case (4 a as b bs)
  then show ?case
    by (cases cs) (auto split: if_splits)
qed (auto split: list.splits elim: slice_cmp.elims)

lemma slice_cmp_be_val:
  "length as = length bs \<Longrightarrow> slice_cmp as bs = ord_cmp (be_val as) (be_val bs)"
proof (induction as bs rule: slice_cmp.induct)
  case (4 a as b bs)
  have A: "be_val as < 256 ^ length bs" "be_val bs < 256 ^ length bs"
    using be_val_bound [of as] be_val_bound [of bs] 4(2) by auto
  have lt: "unat x * P + u < unat y * P + v" if "x < y" "u < P" for x y :: byte and u v P :: nat
  proof -
    have "Suc (unat x) \<le> unat y" using that(1) by (simp add: word_less_nat_alt Suc_le_eq)
    then have "Suc (unat x) * P \<le> unat y * P" by (rule mult_right_mono) simp
    with that(2) show ?thesis by simp
  qed
  show ?case
    using 4 A lt [of a b "be_val as" "256 ^ length bs" "be_val bs"]
      lt [of b a "be_val bs" "256 ^ length bs" "be_val as"]
    by (cases a b rule: linorder_cases) (auto simp: ord_cmp_def)
qed (simp_all add: ord_cmp_def)

lemma slice_cmp_u64: "slice_cmp (u64_to_be_bytes v) (u64_to_be_bytes w) = ord_cmp v w"
proof -
  have "unat v < 256 ^ 8" "unat w < 256 ^ 8" using unat_bound [of v] unat_bound [of w] by simp_all
  then show ?thesis
    by (simp add: slice_cmp_be_val u64_to_be_bytes_def be_val_enc)
       (simp add: ord_cmp_def word_less_nat_alt word_unat_eq_iff)
qed

lemma ord_cmp_Equal [simp]: "ord_cmp a b = Equal \<longleftrightarrow> a = b"
  by (simp add: ord_cmp_def)

lemma ord_cmp_reverse: "ord_cmp b a = cmp_reverse (ord_cmp a b)"
  by (auto simp: ord_cmp_def)

lemma ord_cmp_not_Greater: "ord_cmp a b \<noteq> Greater \<longleftrightarrow> a \<le> b"
  by (auto simp: ord_cmp_def)

subsection \<open>Lemmas on decimals\<close>

lemma digit_byte: "n < 10 \<Longrightarrow> is_digit (of_nat (48 + n)) \<and> unat (of_nat (48 + n) :: byte) = 48 + n"
proof -
  assume n: "n < 10"
  then have u: "unat (of_nat (48 + n) :: byte) = 48 + n"
    by (subst unat_byte_of_nat) simp
  with n show ?thesis by (simp add: is_digit_def in_range_def word_le_nat_alt)
qed

lemma digits_val_snoc: "digits_val (bs @ [b]) = digits_val bs * 10 + (unat b - 48)"
  by (simp add: digits_val_def)

lemma decimal_digits: "list_all is_digit (nat_to_decimal n) \<and> nat_to_decimal n \<noteq> []"
proof (induction n rule: nat_to_decimal.induct)
  case (1 n)
  show ?case
    using 1 digit_byte [of n] digit_byte [of "n mod 10"]
    by (subst (1 2) nat_to_decimal.simps) auto
qed

lemma decimal_val: "digits_val (nat_to_decimal n) = n"
proof (induction n rule: nat_to_decimal.induct)
  case (1 n)
  show ?case
  proof (cases "n < 10")
    case True
    then show ?thesis
      using digit_byte [of n] by (subst nat_to_decimal.simps) (simp add: digits_val_def)
  next
    case False
    then show ?thesis
      using 1 digit_byte [of "n mod 10"]
      by (subst nat_to_decimal.simps) (simp add: digits_val_snoc)
  qed
qed

lemma parse_digits_decimal: "parse_digits (nat_to_decimal n) = Some n"
  using decimal_digits [of n] by (simp add: parse_digits_def decimal_val)

lemma parse_int_to_decimal:
  assumes "- (2 ^ 63) \<le> i" "i < 2 ^ 63"
  shows "parse_i64 (int_to_decimal i) = Some i"
proof (cases "i < 0")
  case True
  then show ?thesis
    using assms by (simp add: parse_i64_def int_to_decimal_def parse_digits_decimal)
next
  case False
  obtain b ds where bd: "nat_to_decimal (nat i) = b # ds"
    using decimal_digits [of "nat i"] by (cases "nat_to_decimal (nat i)") auto
  then have "is_digit b" using decimal_digits [of "nat i"] by simp
  then have "b \<noteq> 45" "b \<noteq> 43" by (auto simp: is_digit_def in_range_def)
  then show ?thesis
    using False assms bd parse_digits_decimal [of "nat i"]
    by (simp add: parse_i64_def int_to_decimal_def)
qed

lemma decimal_ascii: "b \<in> set (int_to_decimal i) \<Longrightarrow> b < 0x80"
proof -
  have d: "is_digit x \<Longrightarrow> x < 0x80" for x
    by (simp add: is_digit_def in_range_def word_le_nat_alt word_less_nat_alt)
  assume "b \<in> set (int_to_decimal i)"
  then show ?thesis
    using decimal_digits d by (auto simp: int_to_decimal_def list_all_iff split: if_splits)
qed

lemma utf8_ascii: "(\<And>b. b \<in> set bs \<Longrightarrow> b < 0x80) \<Longrightarrow> utf8_valid bs"
  by (induction bs) auto

lemma utf8_decimal: "utf8_valid (int_to_decimal i)"
  by (rule utf8_ascii) (rule decimal_ascii)

lemma int_to_decimal_not_Nil [simp]: "int_to_decimal i \<noteq> []"
  using decimal_digits by (simp add: int_to_decimal_def)

end
