(* ===== verification/StorageIds.thy ===== *)
theory StorageIds
  imports Bytes
begin

text \<open>
  Identifiers of \<open>linkrs-core/src/types/storage_ids.rs\<close>: the typed vertex
  identifier (a kind tag, a length and a 32-byte payload), its constructors,
  projections, ordering, normalisation against a space's \<open>vid_type\<close>, the
  edge-endpoint keys of the CSR layer, and the edge identifiers.  Signed
  64-bit integers are 64-bit words read with \<open>sint\<close>.  Text is a byte string;
  \<open>utf8_valid\<close> is the check of \<open>std::str::from_utf8\<close>.  The data types other
  than the integer and string ones are one constructor, as the source treats
  them in one arm.
\<close>

subsection \<open>Data\<close>

definition VERTEX_ID_MAX_SIZE :: nat where
  "VERTEX_ID_MAX_SIZE = 32"

datatype vertex_id_kind = KEmpty | KInt | KUint | KText | KEdgeEndpoint

fun kind_as_u8 :: "vertex_id_kind \<Rightarrow> nat" where
  "kind_as_u8 KEmpty = 0"
| "kind_as_u8 KInt = 1"
| "kind_as_u8 KUint = 2"
| "kind_as_u8 KText = 3"
| "kind_as_u8 KEdgeEndpoint = 4"

definition kind_from_u8 :: "nat \<Rightarrow> vertex_id_kind option" where
  "kind_from_u8 v =
     (if v = 0 then Some KEmpty else if v = 1 then Some KInt else if v = 2 then Some KUint
      else if v = 3 then Some KText else if v = 4 then Some KEdgeEndpoint else None)"

record vertex_id =
  vid_data :: "byte list"
  vid_len :: nat
  vid_kind_tag :: nat

datatype vid_error =
    NegativeId int
  | PayloadTooLong nat
  | EmptyWithBytes
  | IntegerLength nat
  | EndpointLength nat
  | StringTooLong nat
  | MalformedId
  | OverflowsInt64 nat
  | NotAnInteger "byte list"
  | EmptyNotValid
  | ExceedsFixedString nat nat
  | BadDiscriminant nat
  | BadLength nat

datatype vid_data_type =
  DT_SmallInt | DT_Int | DT_BigInt | DT_String | DT_FixedString nat | DT_Other

type_synonym label_id = nat

record edge_key =
  ek_src_label :: label_id
  ek_dst_label :: label_id
  ek_edge_label :: label_id

record edge_identifier =
  src_label :: label_id
  src_vid :: vertex_id
  dst_label :: label_id
  dst_vid :: vertex_id
  edge_label :: label_id
  rank :: i64

subsection \<open>Constructors\<close>

definition pad32 :: "byte list \<Rightarrow> byte list" where
  "pad32 bs = bs @ replicate (VERTEX_ID_MAX_SIZE - length bs) 0"

definition vertex_id_new :: vertex_id where
  "vertex_id_new = \<lparr> vid_data = replicate VERTEX_ID_MAX_SIZE 0, vid_len = 0, vid_kind_tag = 0 \<rparr>"

definition from_typed_bytes :: "vertex_id_kind \<Rightarrow> byte list \<Rightarrow> (vid_error, vertex_id) result" where
  "from_typed_bytes kind bytes =
     (if VERTEX_ID_MAX_SIZE < length bytes then Inl (PayloadTooLong (length bytes))
      else case
        (case kind of
           KEmpty \<Rightarrow> if bytes \<noteq> [] then Some EmptyWithBytes else None
         | KInt \<Rightarrow> if length bytes \<noteq> 8 then Some (IntegerLength (length bytes)) else None
         | KUint \<Rightarrow> if length bytes \<noteq> 8 then Some (IntegerLength (length bytes)) else None
         | KEdgeEndpoint \<Rightarrow> if length bytes \<noteq> 16 then Some (EndpointLength (length bytes)) else None
         | KText \<Rightarrow> None) of
        Some e \<Rightarrow> Inl e
      | None \<Rightarrow> Inr \<lparr> vid_data = pad32 bytes, vid_len = length bytes, vid_kind_tag = kind_as_u8 kind \<rparr>)"

definition try_from_int64 :: "i64 \<Rightarrow> (vid_error, vertex_id) result" where
  "try_from_int64 i =
     (if sint i < 0 then Inl (NegativeId (sint i)) else from_typed_bytes KInt (u64_to_be_bytes i))"

definition from_u64 :: "u64 \<Rightarrow> vertex_id" where
  "from_u64 i = \<lparr> vid_data = pad32 (u64_to_be_bytes i), vid_len = 8, vid_kind_tag = kind_as_u8 KUint \<rparr>"

definition from_u32 :: "32 word \<Rightarrow> vertex_id" where
  "from_u32 i =
     \<lparr> vid_data = pad32 (u64_to_be_bytes (ucast i)), vid_len = 8, vid_kind_tag = kind_as_u8 KInt \<rparr>"

definition try_from_string :: "byte list \<Rightarrow> (vid_error, vertex_id) result" where
  "try_from_string bytes =
     (if VERTEX_ID_MAX_SIZE < length bytes then Inl (StringTooLong (length bytes))
      else Inr \<lparr> vid_data = pad32 bytes, vid_len = length bytes,
                 vid_kind_tag = (if length bytes = 0 then kind_as_u8 KEmpty else kind_as_u8 KText) \<rparr>)"

definition deserialize_vertex_id :: "byte list \<Rightarrow> nat \<Rightarrow> nat \<Rightarrow> (vid_error, vertex_id) result" where
  "deserialize_vertex_id raw_data raw_len raw_kind =
     (case kind_from_u8 raw_kind of
        None \<Rightarrow> Inl (BadDiscriminant raw_kind)
      | Some kind \<Rightarrow>
          if VERTEX_ID_MAX_SIZE < raw_len then Inl (BadLength raw_len)
          else from_typed_bytes kind (take raw_len raw_data))"

subsection \<open>Projections\<close>

definition vid_kind :: "vertex_id \<Rightarrow> vertex_id_kind" where
  "vid_kind v = (case kind_from_u8 (vid_kind_tag v) of Some k \<Rightarrow> k | None \<Rightarrow> KEmpty)"

definition int_bits :: "vertex_id \<Rightarrow> i64 option" where
  "int_bits v = (if vid_len v \<noteq> 8 then None else Some (u64_from_be_bytes (take 8 (vid_data v))))"

definition uint_bits :: "vertex_id \<Rightarrow> u64 option" where
  "uint_bits v = (if vid_len v \<noteq> 8 then None else Some (u64_from_be_bytes (take 8 (vid_data v))))"

definition as_bytes :: "vertex_id \<Rightarrow> byte list" where
  "as_bytes v = take (vid_len v) (vid_data v)"

definition as_int64 :: "vertex_id \<Rightarrow> i64 option" where
  "as_int64 v = (if vid_kind v \<noteq> KInt then None else Some (u64_from_be_bytes (take 8 (vid_data v))))"

definition as_u64 :: "vertex_id \<Rightarrow> u64 option" where
  "as_u64 v =
     (let w = u64_from_be_bytes (take 8 (vid_data v)) in
      case vid_kind v of
        KUint \<Rightarrow> Some w
      | KInt \<Rightarrow> if 0 \<le> sint w then Some w else None
      | _ \<Rightarrow> None)"

definition as_str :: "vertex_id \<Rightarrow> byte list option" where
  "as_str v =
     (if vid_kind v \<noteq> KText then None
      else if utf8_valid (as_bytes v) then Some (as_bytes v) else None)"

definition as_internal_u32 :: "vertex_id \<Rightarrow> nat option" where
  "as_internal_u32 v =
     (case vid_kind v of
        KInt \<Rightarrow>
          (case as_int64 v of
             None \<Rightarrow> None
           | Some i \<Rightarrow> if 0 \<le> sint i \<and> sint i < 2 ^ 32 then Some (unat i) else None)
      | KUint \<Rightarrow>
          (case as_u64 v of
             None \<Rightarrow> None
           | Some i \<Rightarrow> if unat i < 2 ^ 32 then Some (unat i) else None)
      | _ \<Rightarrow> None)"

definition vid_checked_add :: "vertex_id \<Rightarrow> u64 \<Rightarrow> vertex_id option" where
  "vid_checked_add v rhs =
     (case vid_kind v of
        KInt \<Rightarrow>
          (case int_bits v of
             None \<Rightarrow> None
           | Some i \<Rightarrow>
               if sint i + uint rhs < 2 ^ 63
               then (case try_from_int64 (i + rhs) of Inr w \<Rightarrow> Some w | Inl _ \<Rightarrow> None)
               else None)
      | KUint \<Rightarrow>
          (case uint_bits v of
             None \<Rightarrow> None
           | Some i \<Rightarrow> if uint i + uint rhs < 2 ^ 64 then Some (from_u64 (i + rhs)) else None)
      | _ \<Rightarrow> None)"

subsection \<open>Normalisation\<close>

definition normalize_to_int :: "vertex_id \<Rightarrow> (vid_error, vertex_id) result" where
  "normalize_to_int v =
     (case vid_kind v of
        KInt \<Rightarrow> (case int_bits v of None \<Rightarrow> Inl MalformedId | Some i \<Rightarrow> try_from_int64 i)
      | KUint \<Rightarrow>
          (case uint_bits v of
             None \<Rightarrow> Inl MalformedId
           | Some w \<Rightarrow> if unat w < 2 ^ 63 then try_from_int64 w else Inl (OverflowsInt64 (unat w)))
      | KText \<Rightarrow>
          (case as_str v of
             None \<Rightarrow> Inl MalformedId
           | Some text \<Rightarrow>
               (case parse_i64 text of
                  None \<Rightarrow> Inl (NotAnInteger text)
                | Some i \<Rightarrow> try_from_int64 (word_of_int i)))
      | _ \<Rightarrow> Inl EmptyNotValid)"

definition vid_text :: "vertex_id \<Rightarrow> (vid_error, byte list) result" where
  "vid_text v =
     (case vid_kind v of
        KText \<Rightarrow> (case as_str v of None \<Rightarrow> Inl MalformedId | Some t \<Rightarrow> Inr t)
      | KInt \<Rightarrow> (case int_bits v of None \<Rightarrow> Inl MalformedId | Some i \<Rightarrow> Inr (int_to_decimal (sint i)))
      | KUint \<Rightarrow> (case uint_bits v of None \<Rightarrow> Inl MalformedId | Some w \<Rightarrow> Inr (int_to_decimal (uint w)))
      | _ \<Rightarrow> Inl EmptyNotValid)"

definition normalize_for_vid_type :: "vid_data_type \<Rightarrow> vertex_id \<Rightarrow> (vid_error, vertex_id) result" where
  "normalize_for_vid_type vid_type v =
     (case vid_type of
        DT_SmallInt \<Rightarrow> normalize_to_int v
      | DT_Int \<Rightarrow> normalize_to_int v
      | DT_BigInt \<Rightarrow> normalize_to_int v
      | DT_String \<Rightarrow> bind_result (vid_text v) try_from_string
      | DT_FixedString width \<Rightarrow>
          bind_result (vid_text v) (\<lambda>text.
            if width < length text then Inl (ExceedsFixedString width (length text))
            else try_from_string text)
      | DT_Other \<Rightarrow> Inr v)"

subsection \<open>Edge endpoints and ordering\<close>

definition edge_endpoint_key :: "32 word \<Rightarrow> i64 \<Rightarrow> vertex_id" where
  "edge_endpoint_key endpoint rnk =
     \<lparr> vid_data = pad32 (u64_to_be_bytes (ucast endpoint) @ u64_to_be_bytes rnk),
       vid_len = 16, vid_kind_tag = kind_as_u8 KEdgeEndpoint \<rparr>"

definition try_decode_edge_endpoint :: "vertex_id \<Rightarrow> (vertex_id \<times> i64) option" where
  "try_decode_edge_endpoint v =
     (if vid_kind v \<noteq> KEdgeEndpoint \<or> vid_len v \<noteq> 16 then None
      else let bytes = as_bytes v in
        case try_from_int64 (u64_from_be_bytes (take 8 bytes)) of
          Inl _ \<Rightarrow> None
        | Inr endpoint \<Rightarrow> Some (endpoint, u64_from_be_bytes (take 8 (drop 8 bytes))))"

definition vid_cmp :: "vertex_id \<Rightarrow> vertex_id \<Rightarrow> cmp_ordering" where
  "vid_cmp a b =
     (let by_bytes = slice_cmp (as_bytes a) (as_bytes b) in
      case (vid_kind a, vid_kind b) of
        (KEmpty, KEmpty) \<Rightarrow> Equal
      | (KInt, KInt) \<Rightarrow>
          (case (int_bits a, int_bits b) of
             (Some l, Some r) \<Rightarrow> ord_cmp (sint l) (sint r) | _ \<Rightarrow> by_bytes)
      | (KUint, KUint) \<Rightarrow>
          (case (uint_bits a, uint_bits b) of
             (Some l, Some r) \<Rightarrow> ord_cmp l r | _ \<Rightarrow> by_bytes)
      | (KInt, KUint) \<Rightarrow>
          (case (int_bits a, uint_bits b) of
             (Some l, Some r) \<Rightarrow> ord_cmp (sint l) (uint r) | _ \<Rightarrow> by_bytes)
      | (KUint, KInt) \<Rightarrow>
          (case (uint_bits a, int_bits b) of
             (Some l, Some r) \<Rightarrow> ord_cmp (uint l) (sint r) | _ \<Rightarrow> by_bytes)
      | (KText, KText) \<Rightarrow> by_bytes
      | (KEdgeEndpoint, KEdgeEndpoint) \<Rightarrow> by_bytes
      | (l, r) \<Rightarrow> ord_cmp (kind_as_u8 l) (kind_as_u8 r))"

subsection \<open>Well-formed identifiers\<close>

definition wf_vid :: "vertex_id \<Rightarrow> bool" where
  "wf_vid v \<longleftrightarrow> from_typed_bytes (vid_kind v) (as_bytes v) = Inr v"

fun kind_length_ok :: "vertex_id_kind \<Rightarrow> nat \<Rightarrow> bool" where
  "kind_length_ok KEmpty n = (n = 0)"
| "kind_length_ok KInt n = (n = 8)"
| "kind_length_ok KUint n = (n = 8)"
| "kind_length_ok KText n = (n \<le> 32)"
| "kind_length_ok KEdgeEndpoint n = (n = 16)"

definition vid_class :: "vertex_id \<Rightarrow> nat" where
  "vid_class v = (if vid_kind v = KUint then 1 else kind_as_u8 (vid_kind v))"

definition vid_number :: "vertex_id \<Rightarrow> int" where
  "vid_number v =
     (case vid_kind v of
        KInt \<Rightarrow> sint (u64_from_be_bytes (as_bytes v))
      | KUint \<Rightarrow> uint (u64_from_be_bytes (as_bytes v))
      | _ \<Rightarrow> 0)"

definition vid_payload :: "vertex_id \<Rightarrow> byte list" where
  "vid_payload v = (if vid_class v = 1 then [] else as_bytes v)"

lemma kind_roundtrip [simp]: "kind_from_u8 (kind_as_u8 k) = Some k"
  by (cases k) (simp_all add: kind_from_u8_def)

lemma from_typed_bytes_Inr:
  "from_typed_bytes k bs = Inr v \<longleftrightarrow>
     kind_length_ok k (length bs) \<and>
     v = \<lparr> vid_data = pad32 bs, vid_len = length bs, vid_kind_tag = kind_as_u8 k \<rparr>"
  by (cases k) (auto simp: from_typed_bytes_def VERTEX_ID_MAX_SIZE_def)

lemma made_fields [simp]:
  "vid_kind \<lparr> vid_data = d, vid_len = n, vid_kind_tag = kind_as_u8 k \<rparr> = k"
  "as_bytes \<lparr> vid_data = pad32 bs, vid_len = length bs, vid_kind_tag = t \<rparr> = bs"
  by (simp_all add: vid_kind_def as_bytes_def pad32_def)

lemma from_typed_bytes_fields:
  assumes "from_typed_bytes k bs = Inr v"
  shows "vid_kind v = k" "as_bytes v = bs" "vid_len v = length bs" "wf_vid v"
  using assms by (auto simp: from_typed_bytes_Inr wf_vid_def)

lemma wf_vidE:
  assumes "wf_vid v"
  obtains k bs where "from_typed_bytes k bs = Inr v"
  using assms by (auto simp: wf_vid_def)

lemma take8_pad: "length bs = 8 \<Longrightarrow> take 8 (pad32 bs) = bs"
  by (simp add: pad32_def)

lemma wf_int_bits:
  assumes "wf_vid v" "vid_kind v = KInt \<or> vid_kind v = KUint"
  shows "int_bits v = Some (u64_from_be_bytes (as_bytes v))"
    "uint_bits v = Some (u64_from_be_bytes (as_bytes v))" "length (as_bytes v) = 8"
  using assms(1)
  by (rule wf_vidE; use assms(2) in
      \<open>auto simp: from_typed_bytes_Inr int_bits_def uint_bits_def take8_pad\<close>)+

lemma wf_new: "wf_vid vertex_id_new"
  by (simp add: wf_vid_def vertex_id_new_def vid_kind_def kind_from_u8_def as_bytes_def
      from_typed_bytes_def pad32_def)

lemma wf_from_u64: "from_typed_bytes KUint (u64_to_be_bytes w) = Inr (from_u64 w)"
  by (simp add: from_typed_bytes_Inr from_u64_def)

lemma wf_from_u32: "from_typed_bytes KInt (u64_to_be_bytes (ucast w)) = Inr (from_u32 w)"
  by (simp add: from_typed_bytes_Inr from_u32_def)

lemma wf_edge_endpoint_key:
  "from_typed_bytes KEdgeEndpoint (u64_to_be_bytes (ucast e) @ u64_to_be_bytes r)
     = Inr (edge_endpoint_key e r)"
  by (simp add: from_typed_bytes_Inr edge_endpoint_key_def)

lemma try_from_int64_Inr:
  "try_from_int64 i = Inr v \<longleftrightarrow> 0 \<le> sint i \<and> from_typed_bytes KInt (u64_to_be_bytes i) = Inr v"
  by (auto simp: try_from_int64_def)

lemma try_from_int64_ok: "0 \<le> sint i \<Longrightarrow> \<exists>v. try_from_int64 i = Inr v"
  by (simp add: try_from_int64_Inr from_typed_bytes_Inr)

lemma try_from_string_Inr:
  "try_from_string bs = Inr v \<longleftrightarrow>
     from_typed_bytes (if bs = [] then KEmpty else KText) bs = Inr v"
  by (auto simp: try_from_string_def from_typed_bytes_Inr VERTEX_ID_MAX_SIZE_def)

lemma ucast_sint: "sint (ucast (w :: 32 word) :: i64) = uint w"
proof -
  have "uint w < 2 ^ 32" using unsigned_less [of w] by simp
  moreover have "- 9223372036854775808 \<le> uint w"
    using order_trans [of "- 9223372036854775808" 0 "uint w"] by simp
  ultimately show ?thesis
    by (simp add: sint_uint signed_take_bit_int_eq_self_iff unsigned_ucast_eq take_bit_int_eq_self)
qed

subsection \<open>The ordering as a lexicographic key\<close>

definition lex_cmp :: "cmp_ordering \<Rightarrow> cmp_ordering \<Rightarrow> cmp_ordering" where
  "lex_cmp a b = (if a = Equal then b else a)"

definition vid_key_cmp :: "vertex_id \<Rightarrow> vertex_id \<Rightarrow> cmp_ordering" where
  "vid_key_cmp a b =
     lex_cmp (ord_cmp (vid_class a) (vid_class b))
       (lex_cmp (ord_cmp (vid_number a) (vid_number b)) (slice_cmp (vid_payload a) (vid_payload b)))"

lemma wf_empty_bytes: "wf_vid v \<Longrightarrow> vid_kind v = KEmpty \<Longrightarrow> as_bytes v = []"
  by (erule wf_vidE) (auto simp: from_typed_bytes_Inr as_bytes_def)

lemma vid_cmp_key:
  assumes "wf_vid a" "wf_vid b"
  shows "vid_cmp a b = vid_key_cmp a b"
  using assms wf_int_bits(1,2) [OF assms(1)] wf_int_bits(1,2) [OF assms(2)]
    wf_empty_bytes [OF assms(1)] wf_empty_bytes [OF assms(2)]
  by (cases "vid_kind a"; cases "vid_kind b")
     (simp_all add: vid_cmp_def vid_key_cmp_def lex_cmp_def vid_class_def vid_number_def
       vid_payload_def ord_cmp_def word_less_iff_unsigned [where ?'a = int] word_uint_eq_iff)

lemma lex_cmp_reverse: "cmp_reverse (lex_cmp a b) = lex_cmp (cmp_reverse a) (cmp_reverse b)"
  by (cases a) (auto simp: lex_cmp_def)

lemma vid_key_cmp_reverse: "vid_key_cmp b a = cmp_reverse (vid_key_cmp a b)"
  by (simp add: vid_key_cmp_def lex_cmp_reverse ord_cmp_reverse [of "vid_class b"]
      ord_cmp_reverse [of "vid_number b"] slice_cmp_reverse [of "vid_payload b"])

lemma lex_not_Greater:
  "lex_cmp a b \<noteq> Greater \<longleftrightarrow> a = Less \<or> (a = Equal \<and> b \<noteq> Greater)"
  by (cases a) (auto simp: lex_cmp_def)

lemma ord_cmp_Less [simp]: "ord_cmp a b = Less \<longleftrightarrow> a < b"
  by (simp add: ord_cmp_def)

lemma vid_key_cmp_trans:
  assumes "vid_key_cmp a b \<noteq> Greater" "vid_key_cmp b c \<noteq> Greater"
  shows "vid_key_cmp a c \<noteq> Greater"
  using assms slice_cmp_trans [of "vid_payload a" "vid_payload b" "vid_payload c"]
  unfolding vid_key_cmp_def lex_not_Greater by auto

lemma vid_key_cmp_Equal:
  "vid_key_cmp a b = Equal \<longleftrightarrow>
     vid_class a = vid_class b \<and> vid_number a = vid_number b \<and> vid_payload a = vid_payload b"
  by (auto simp: vid_key_cmp_def lex_cmp_def)

lemma wf_eqI: "wf_vid a \<Longrightarrow> wf_vid b \<Longrightarrow> vid_kind a = vid_kind b \<Longrightarrow> as_bytes a = as_bytes b \<Longrightarrow> a = b"
  unfolding wf_vid_def by (metis sum.inject(2))

lemma be_bytes_inj: "length as = 8 \<Longrightarrow> length bs = 8 \<Longrightarrow>
  u64_from_be_bytes as = u64_from_be_bytes bs \<Longrightarrow> as = bs"
  using u64_be_bytes_inverse [of as] u64_be_bytes_inverse [of bs] by presburger

lemma same_kind_Equal:
  assumes wf: "wf_vid a" "wf_vid b" and k: "vid_kind a = vid_kind b"
  shows "vid_cmp a b = Equal \<longleftrightarrow> a = b"
proof
  assume "vid_cmp a b = Equal"
  then have eq: "vid_number a = vid_number b" "vid_payload a = vid_payload b"
    using vid_cmp_key [OF wf] by (simp_all add: vid_key_cmp_Equal)
  have "as_bytes a = as_bytes b"
  proof (cases "vid_kind a = KInt \<or> vid_kind a = KUint")
    case True
    then have "u64_from_be_bytes (as_bytes a) = u64_from_be_bytes (as_bytes b)"
      using eq(1) k by (auto simp: vid_number_def intro: signed_word_eqI unsigned_word_eqI)
    then show ?thesis
      using be_bytes_inj wf_int_bits(3) [OF wf(1)] wf_int_bits(3) [OF wf(2)] True k by metis
  next
    case False
    then have "vid_class a \<noteq> 1" "vid_class b \<noteq> 1"
      using k by (cases "vid_kind b"; simp add: vid_class_def)+
    then show ?thesis using eq(2) by (simp add: vid_payload_def)
  qed
  then show "a = b" using wf_eqI wf k by blast
next
  assume "a = b"
  then show "vid_cmp a b = Equal" using vid_cmp_key [OF wf] by (simp add: vid_key_cmp_Equal)
qed

lemma decode_edge_endpoint_key:
  "try_decode_edge_endpoint (edge_endpoint_key e r) = Some (from_u32 e, r)"
proof -
  note F = from_typed_bytes_fields [OF wf_edge_endpoint_key [of e r]]
  have "try_from_int64 (ucast e) = Inr (from_u32 e)"
    using wf_from_u32 [of e] by (simp add: try_from_int64_Inr ucast_sint)
  then show ?thesis
    using F by (simp add: try_decode_edge_endpoint_def)
qed

lemma deserialize_wf:
  assumes "wf_vid v"
  shows "deserialize_vertex_id (vid_data v) (vid_len v) (vid_kind_tag v) = Inr v"
proof -
  obtain k bs where kb: "from_typed_bytes k bs = Inr v" using assms by (rule wf_vidE)
  then have v: "v = \<lparr> vid_data = pad32 bs, vid_len = length bs, vid_kind_tag = kind_as_u8 k \<rparr>"
    and len: "kind_length_ok k (length bs)" by (simp_all add: from_typed_bytes_Inr)
  have "length bs \<le> 32" using len by (cases k) auto
  then show ?thesis
    using kb by (simp add: deserialize_vertex_id_def v VERTEX_ID_MAX_SIZE_def pad32_def)
qed

lemma normalize_to_int_idem:
  assumes "normalize_to_int v = Inr w"
  shows "normalize_to_int w = Inr w \<and> wf_vid w"
proof -
  obtain i where i: "try_from_int64 i = Inr w"
    using assms by (auto simp: normalize_to_int_def split: vertex_id_kind.splits option.splits if_splits)
  then have t: "from_typed_bytes KInt (u64_to_be_bytes i) = Inr w" by (simp add: try_from_int64_Inr)
  note F = from_typed_bytes_fields [OF t]
  have "int_bits w = Some i" using wf_int_bits(1) [OF F(4)] F(1,2) by simp
  then show ?thesis using i F by (simp add: normalize_to_int_def)
qed

lemma vid_text_of_string:
  assumes "try_from_string t = Inr w" "t \<noteq> []" "utf8_valid t"
  shows "vid_text w = Inr t \<and> wf_vid w"
proof -
  have "from_typed_bytes KText t = Inr w" using assms(1,2) by (simp add: try_from_string_Inr)
  from from_typed_bytes_fields [OF this] assms(3) show ?thesis
    by (simp add: vid_text_def as_str_def)
qed

lemma vid_text_valid:
  assumes "vid_text v = Inr t" "vid_kind v = KText \<longrightarrow> as_bytes v \<noteq> []"
  shows "t \<noteq> [] \<and> utf8_valid t"
  using assms
  by (auto simp: vid_text_def as_str_def utf8_decimal
      split: vertex_id_kind.splits option.splits if_splits)

subsection \<open>Properties\<close>

text \<open>
  C36.  The ordering of vertex identifiers.  On well-formed identifiers the
  comparison is reflexive, antisymmetric in its result and transitive, so it is
  a total preorder; it identifies two distinct identifiers only when one is a
  signed and the other an unsigned integer of the same value.
\<close>

theorem vid_cmp_total_preorder:
  assumes "wf_vid a" "wf_vid b" "wf_vid c"
  shows "vid_cmp b a = cmp_reverse (vid_cmp a b) \<and>
    (vid_cmp a b \<noteq> Greater \<and> vid_cmp b c \<noteq> Greater \<longrightarrow> vid_cmp a c \<noteq> Greater) \<and>
    (vid_cmp a b = Equal \<longleftrightarrow>
       a = b \<or> ({vid_kind a, vid_kind b} = {KInt, KUint} \<and> vid_number a = vid_number b))"
proof (intro conjI impI)
  show "vid_cmp b a = cmp_reverse (vid_cmp a b)"
    using assms by (simp add: vid_cmp_key vid_key_cmp_reverse [of b])
  show "vid_cmp a c \<noteq> Greater" if "vid_cmp a b \<noteq> Greater \<and> vid_cmp b c \<noteq> Greater"
    using that vid_key_cmp_trans assms vid_cmp_key by metis
  show "vid_cmp a b = Equal \<longleftrightarrow>
       a = b \<or> ({vid_kind a, vid_kind b} = {KInt, KUint} \<and> vid_number a = vid_number b)"
  proof (cases "vid_kind a = vid_kind b")
    case True
    then show ?thesis using same_kind_Equal [OF assms(1,2)] by auto
  next
    case False
    then show ?thesis
      using vid_cmp_key [OF assms(1,2)]
      by (cases "vid_kind a"; cases "vid_kind b")
         (auto simp: vid_key_cmp_Equal vid_class_def vid_payload_def doubleton_eq_iff)
  qed
qed

theorem vid_cmp_total_preorder_witness:
  "vid_cmp (from_u32 5) (from_u64 5) = Equal \<and> from_u32 5 \<noteq> from_u64 5 \<and>
   vid_cmp (from_u32 5) (from_u64 7) \<noteq> Greater"
proof -
  have wf: "wf_vid (from_u32 w)" "wf_vid (from_u64 x)" for w x
    using from_typed_bytes_fields(4) wf_from_u32 wf_from_u64 by blast+
  have k: "vid_kind (from_u32 w) = KInt" "vid_kind (from_u64 x) = KUint" for w x
    using from_typed_bytes_fields(1) wf_from_u32 wf_from_u64 by blast+
  have n: "vid_number (from_u32 5) = 5" "vid_number (from_u64 5) = 5"
    using from_typed_bytes_fields(2) [OF wf_from_u32] from_typed_bytes_fields(2) [OF wf_from_u64]
    by (simp_all add: vid_number_def k ucast_sint)
  have eq: "vid_cmp (from_u32 5) (from_u64 5) = Equal"
    using vid_cmp_total_preorder [OF wf(1) wf(2) wf(2), of 5 5 7] k n by simp
  have "vid_cmp (from_u64 5) (from_u64 7) \<noteq> Greater"
    by (simp add: vid_cmp_def k wf_int_bits [OF wf(2)] ord_cmp_def
        from_typed_bytes_fields(2) [OF wf_from_u64])
  then have "vid_cmp (from_u32 5) (from_u64 7) \<noteq> Greater"
    using vid_cmp_total_preorder [OF wf(1) wf(2) wf(2), of 5 5 7] eq by simp
  moreover have "from_u32 5 \<noteq> from_u64 5" using k(1) [of 5] k(2) [of 5] by auto
  ultimately show ?thesis using eq by blast
qed

text \<open>
  Codecs of identifiers.  Every well-formed identifier survives
  serialisation, and an edge-endpoint key decodes to the endpoint row and the
  rank it was built from, for every endpoint and rank.
\<close>

lemma vertex_id_roundtrips:
  assumes "wf_vid v"
  shows "deserialize_vertex_id (vid_data v) (vid_len v) (vid_kind_tag v) = Inr v \<and>
         try_decode_edge_endpoint (edge_endpoint_key e r) = Some (from_u32 e, r) \<and>
         wf_vid (edge_endpoint_key e r)"
  using assms deserialize_wf decode_edge_endpoint_key
    from_typed_bytes_fields(4) [OF wf_edge_endpoint_key] by blast

text \<open>
  Normalisation is idempotent on identifiers whose text, if they are
  text, is not empty: a normalised identifier normalises to itself.
\<close>

lemma normalize_idempotent:
  assumes "vid_kind v = KText \<longrightarrow> as_bytes v \<noteq> []" "normalize_for_vid_type t v = Inr w"
  shows "normalize_for_vid_type t w = Inr w"
proof -
  have tx: "vid_text w = Inr s" if "vid_text v = Inr s" "try_from_string s = Inr w" for s
    using vid_text_of_string that vid_text_valid [OF that(1) assms(1)] by blast
  show ?thesis
  proof (cases t)
    case DT_String
    then show ?thesis using assms(2) tx by (auto simp: normalize_for_vid_type_def)
  next
    case (DT_FixedString n)
    then obtain s where s: "vid_text v = Inr s" "\<not> n < length s" "try_from_string s = Inr w"
      using assms(2) by (auto simp: normalize_for_vid_type_def split: if_splits)
    with tx DT_FixedString show ?thesis by (simp add: normalize_for_vid_type_def)
  qed (use assms(2) normalize_to_int_idem in \<open>auto simp: normalize_for_vid_type_def\<close>)
qed

text \<open>
  Normalisation is not idempotent on the text identifier with no bytes,
  which \<open>from_typed_bytes\<close> and deserialisation accept: in a string space it
  normalises to the empty identifier, which the same normalisation rejects.
\<close>

lemma normalize_empty_text:
  "from_typed_bytes KText [] = Inr v \<Longrightarrow>
   normalize_for_vid_type DT_String v = Inr vertex_id_new \<and>
   normalize_for_vid_type DT_String vertex_id_new = Inl EmptyNotValid"
  by (auto simp: from_typed_bytes_Inr normalize_for_vid_type_def vid_text_def as_str_def
      try_from_string_def vertex_id_new_def vid_kind_def kind_from_u8_def as_bytes_def pad32_def)

end
