(* ===== verification/UndoLog.thy ===== *)
theory UndoLog
  imports StorageIds
begin

text \<open>
  The undo log (\<open>linkrs-transaction/src/undo_log.rs\<close> and
  \<open>undo_log/file_backed.rs\<close>, target trait of \<open>linkrs-core/src/types/undo.rs\<close>):
  entries accumulate in a buffer, full buffers are spilled as length-prefixed
  blocks to a file, and \<open>pop\<close> reads the last block back.  The file is its byte
  content; operating-system failures are not modelled, malformed content is.
  The entry codec (the \<open>postcard\<close> crate) and the storage target are arguments:
  \<open>enc\<close>/\<open>dec\<close> and a record of the target's operations on its state.  Property
  values are a type parameter.  The locale \<open>undo_stack\<close> is the contract of a
  stack of entries; it is interpreted on the file-backed log.
\<close>

subsection \<open>Entries and their targets\<close>

datatype undo_log_error =
    UndoFailed string
  | InvalidUndoState string
  | LabelNotFound label_id
  | UndoVertexNotFound vertex_id
  | UndoEdgeNotFound u64
  | PropertyNotFound string

datatype 'v undo_log_entry =
    CreateVertexType label_id
  | CreateEdgeType label_id label_id label_id
  | InsertEdge edge_identifier
  | RestoreEdge edge_identifier "(string \<times> 'v) list"
  | UpdateEdgeProp edge_identifier nat 'v
  | RemoveEdge edge_identifier

record staged_write_mark =
  staging_journal_len :: nat
  staging_index_len :: nat
  staged_wal_len :: nat

definition mark_is_empty :: "staged_write_mark \<Rightarrow> bool" where
  "mark_is_empty m \<longleftrightarrow>
     staging_journal_len m = 0 \<and> staging_index_len m = 0 \<and> staged_wal_len m = 0"

type_synonym 'g undo_effect = "'g \<Rightarrow> (undo_log_error, unit) result \<times> 'g"

record ('g, 'v) undo_target =
  ut_delete_vertex_type :: "label_id \<Rightarrow> 'g undo_effect"
  ut_delete_edge_type :: "edge_key \<Rightarrow> 'g undo_effect"
  ut_delete_edge :: "edge_identifier \<Rightarrow> timestamp \<Rightarrow> 'g undo_effect"
  ut_restore_edge :: "edge_identifier \<Rightarrow> (string \<times> 'v) list \<Rightarrow> timestamp \<Rightarrow> 'g undo_effect"
  ut_undo_update_edge_property :: "edge_identifier \<Rightarrow> nat \<Rightarrow> 'v \<Rightarrow> timestamp \<Rightarrow> 'g undo_effect"
  ut_revert_delete_edge :: "edge_identifier \<Rightarrow> timestamp \<Rightarrow> 'g undo_effect"
  ut_staged_write_mark :: "txn_id \<Rightarrow> 'g \<Rightarrow> staged_write_mark option"
  ut_rollback_staged_writes :: "txn_id \<Rightarrow> staged_write_mark \<Rightarrow> 'g undo_effect"

fun entry_undo :: "('g, 'v) undo_target \<Rightarrow> 'v undo_log_entry \<Rightarrow> timestamp \<Rightarrow> 'g undo_effect" where
  "entry_undo t (CreateVertexType l) ts = ut_delete_vertex_type t l"
| "entry_undo t (CreateEdgeType s d e) ts =
     ut_delete_edge_type t \<lparr> ek_src_label = s, ek_dst_label = d, ek_edge_label = e \<rparr>"
| "entry_undo t (InsertEdge e) ts = ut_delete_edge t e ts"
| "entry_undo t (RestoreEdge e props) ts = ut_restore_edge t e props ts"
| "entry_undo t (UpdateEdgeProp e c v) ts = ut_undo_update_edge_property t e c v ts"
| "entry_undo t (RemoveEdge e) ts = ut_revert_delete_edge t e ts"

subsection \<open>Blocks\<close>

type_synonym 'v enc = "'v undo_log_entry \<Rightarrow> byte list option"
type_synonym 'v dec = "byte list \<Rightarrow> 'v undo_log_entry option"

fun serialize_entries :: "'v enc \<Rightarrow> 'v undo_log_entry list \<Rightarrow> (undo_log_error, byte list) result" where
  "serialize_entries enc [] = Inr []"
| "serialize_entries enc (e # es) =
     (case enc e of
        None \<Rightarrow> Inl (UndoFailed ''serialize'')
      | Some bytes \<Rightarrow>
          bind_result (serialize_entries enc es) (\<lambda>rest.
            Inr (u64_to_le_bytes (of_nat (length bytes)) @ bytes @ rest)))"

definition serialize_block :: "'v enc \<Rightarrow> 'v undo_log_entry list \<Rightarrow> (undo_log_error, byte list) result" where
  "serialize_block enc es =
     bind_result (serialize_entries enc es) (\<lambda>body.
       Inr (u64_to_le_bytes (of_nat (length es)) @ body))"

fun read_entries ::
  "'v dec \<Rightarrow> nat \<Rightarrow> byte list \<Rightarrow> (undo_log_error, 'v undo_log_entry list \<times> byte list) result" where
  "read_entries dec 0 bs = Inr ([], bs)"
| "read_entries dec (Suc n) bs =
     (if length bs < 8 then Inl (UndoFailed ''entry length'')
      else let len = unat (u64_from_le_bytes (take 8 bs)); rest = drop 8 bs in
        if length rest < len then Inl (UndoFailed ''entry exceeds the file'')
        else case dec (take len rest) of
               None \<Rightarrow> Inl (UndoFailed ''deserialize'')
             | Some e \<Rightarrow>
                 bind_result (read_entries dec n (drop len rest)) (\<lambda>(es, tail). Inr (e # es, tail)))"

subsection \<open>The log\<close>

record 'v file_backed_undo_log =
  buffer :: "'v undo_log_entry list"
  spill_file :: "byte list option"
  block_offsets :: "nat list"
  total_entries :: nat
  threshold :: nat

definition undo_log_default_threshold :: nat where
  "undo_log_default_threshold = 10000"

definition undo_log_new :: "nat \<Rightarrow> 'v file_backed_undo_log" where
  "undo_log_new memory_overflow_threshold =
     \<lparr> buffer = [], spill_file = None, block_offsets = [], total_entries = 0,
       threshold = max memory_overflow_threshold 1 \<rparr>"

type_synonym ('v, 'a) log_op = "(undo_log_error, 'a) result \<times> 'v file_backed_undo_log"

definition spill_to_file :: "'v enc \<Rightarrow> 'v file_backed_undo_log \<Rightarrow> ('v, unit) log_op" where
  "spill_to_file enc log =
     (case serialize_block enc (buffer log) of
        Inl e \<Rightarrow> (Inl e, log)
      | Inr block_data \<Rightarrow>
          let content = (case spill_file log of None \<Rightarrow> [] | Some c \<Rightarrow> c);
              new_offset = length content
          in (Inr (), log\<lparr> spill_file := Some (content @ block_data),
                           block_offsets := block_offsets log @ [new_offset],
                           buffer := [] \<rparr>))"

definition undo_add :: "'v enc \<Rightarrow> 'v undo_log_entry \<Rightarrow> 'v file_backed_undo_log \<Rightarrow> ('v, unit) log_op" where
  "undo_add enc e log0 =
     (let log = log0\<lparr> buffer := buffer log0 @ [e], total_entries := total_entries log0 + 1 \<rparr>
      in if threshold log \<le> length (buffer log) then spill_to_file enc log else (Inr (), log))"

definition undo_is_empty :: "'v file_backed_undo_log \<Rightarrow> bool" where
  "undo_is_empty log = (total_entries log = 0)"

definition undo_len :: "'v file_backed_undo_log \<Rightarrow> nat" where
  "undo_len log = total_entries log"

definition undo_clear :: "'v file_backed_undo_log \<Rightarrow> ('v, unit) log_op" where
  "undo_clear log =
     (Inr (), log\<lparr> spill_file := map_option (\<lambda>_. []) (spill_file log), buffer := [], block_offsets := [],
                   total_entries := 0 \<rparr>)"

definition pop_from_file :: "'v dec \<Rightarrow> 'v file_backed_undo_log \<Rightarrow> ('v, 'v undo_log_entry option) log_op" where
  "pop_from_file dec log =
     (case spill_file log of
        None \<Rightarrow> (Inr None, log)
      | Some content \<Rightarrow>
          if block_offsets log = [] then (Inr None, log)
          else let last_offset = last (block_offsets log); block = drop last_offset content in
            if total_entries log = 0 then (Inl (UndoFailed ''block but no entries''), log)
            else if length block < 8 then (Inl (UndoFailed ''block header''), log)
            else let entry_count = unat (u64_from_le_bytes (take 8 block)); body = drop 8 block in
              if entry_count = 0 then (Inl (UndoFailed ''no entries''), log)
              else if length body div 8 < entry_count then (Inl (UndoFailed ''invalid entry count''), log)
              else case read_entries dec entry_count body of
                     Inl e \<Rightarrow> (Inl e, log)
                   | Inr (entries, tail) \<Rightarrow>
                       if tail \<noteq> [] then (Inl (UndoFailed ''trailing data''), log)
                       else (Inr (Some (last entries)),
                             log\<lparr> spill_file := Some (take last_offset content),
                                  block_offsets := butlast (block_offsets log),
                                  buffer := butlast entries,
                                  total_entries := total_entries log - 1 \<rparr>))"

definition undo_pop :: "'v dec \<Rightarrow> 'v file_backed_undo_log \<Rightarrow> ('v, 'v undo_log_entry option) log_op" where
  "undo_pop dec log =
     (if buffer log \<noteq> []
      then (Inr (Some (last (buffer log))),
            log\<lparr> buffer := butlast (buffer log), total_entries := total_entries log - 1 \<rparr>)
      else pop_from_file dec log)"

subsection \<open>Execution\<close>

type_synonym ('v, 'g, 'a) exec_op = "(undo_log_error, 'a) result \<times> 'v file_backed_undo_log \<times> 'g"

definition execute_next ::
  "'v dec \<Rightarrow> ('g, 'v) undo_target \<Rightarrow> timestamp \<Rightarrow> 'v file_backed_undo_log \<Rightarrow> 'g
   \<Rightarrow> ('v, 'g, bool) exec_op" where
  "execute_next dec t ts log g =
     (case undo_pop dec log of
        (Inl e, log1) \<Rightarrow> (Inl e, log1, g)
      | (Inr None, log1) \<Rightarrow> (Inr False, log1, g)
      | (Inr (Some entry), log1) \<Rightarrow>
          (case entry_undo t entry ts g of
             (Inr _, g1) \<Rightarrow> (Inr True, log1, g1)
           | (Inl e, g1) \<Rightarrow>
               (Inl e, log1\<lparr> buffer := buffer log1 @ [entry],
                             total_entries := total_entries log1 + 1 \<rparr>, g1)))"

fun execute_times ::
  "nat \<Rightarrow> 'v dec \<Rightarrow> ('g, 'v) undo_target \<Rightarrow> timestamp \<Rightarrow> 'v file_backed_undo_log \<Rightarrow> 'g
   \<Rightarrow> ('v, 'g, unit) exec_op" where
  "execute_times 0 dec t ts log g = (Inr (), log, g)"
| "execute_times (Suc n) dec t ts log g =
     (case execute_next dec t ts log g of
        (Inl e, log1, g1) \<Rightarrow> (Inl e, log1, g1)
      | (Inr False, log1, g1) \<Rightarrow> (Inl (UndoFailed ''not enough entries''), log1, g1)
      | (Inr True, log1, g1) \<Rightarrow> execute_times n dec t ts log1 g1)"

definition execute_undo_from_index ::
  "'v dec \<Rightarrow> ('g, 'v) undo_target \<Rightarrow> timestamp \<Rightarrow> nat \<Rightarrow> 'v file_backed_undo_log \<Rightarrow> 'g
   \<Rightarrow> ('v, 'g, unit) exec_op" where
  "execute_undo_from_index dec t ts start_index log g =
     (if total_entries log < start_index then (Inl (UndoFailed ''invalid rollback index''), log, g)
      else execute_times (total_entries log - start_index) dec t ts log g)"

fun execute_undo_fuel ::
  "nat \<Rightarrow> 'v dec \<Rightarrow> ('g, 'v) undo_target \<Rightarrow> timestamp \<Rightarrow> 'v file_backed_undo_log \<Rightarrow> 'g
   \<Rightarrow> ('v, 'g, unit) exec_op option" where
  "execute_undo_fuel 0 dec t ts log g = None"
| "execute_undo_fuel (Suc n) dec t ts log g =
     (case execute_next dec t ts log g of
        (Inl e, log1, g1) \<Rightarrow> Some (Inl e, log1, g1)
      | (Inr False, log1, g1) \<Rightarrow> Some (Inr (), log1, g1)
      | (Inr True, log1, g1) \<Rightarrow> execute_undo_fuel n dec t ts log1 g1)"

definition execute_undo ::
  "'v dec \<Rightarrow> ('g, 'v) undo_target \<Rightarrow> timestamp \<Rightarrow> 'v file_backed_undo_log \<Rightarrow> 'g
   \<Rightarrow> ('v, 'g, unit) exec_op option" where
  "execute_undo dec t ts log g = execute_undo_fuel (total_entries log + 1) dec t ts log g"

subsection \<open>The log as a stack\<close>

definition codes :: "'v enc \<Rightarrow> 'v dec \<Rightarrow> 'v undo_log_entry \<Rightarrow> bool" where
  "codes enc dec e \<longleftrightarrow> (\<exists>bs. enc e = Some bs \<and> dec bs = Some e \<and> length bs < 2 ^ 64)"

definition block_bytes :: "'v enc \<Rightarrow> 'v undo_log_entry list \<Rightarrow> byte list" where
  "block_bytes enc es = (case serialize_block enc es of Inr b \<Rightarrow> b | Inl _ \<Rightarrow> [])"

definition file_content :: "'v enc \<Rightarrow> 'v undo_log_entry list list \<Rightarrow> byte list" where
  "file_content enc blocks = concat (map (block_bytes enc) blocks)"

definition file_offsets :: "'v enc \<Rightarrow> 'v undo_log_entry list list \<Rightarrow> nat list" where
  "file_offsets enc blocks = map (\<lambda>i. length (file_content enc (take i blocks))) [0..<length blocks]"

definition undo_rep_blocks ::
  "'v enc \<Rightarrow> 'v dec \<Rightarrow> 'v undo_log_entry list list \<Rightarrow> 'v file_backed_undo_log
   \<Rightarrow> 'v undo_log_entry list \<Rightarrow> bool" where
  "undo_rep_blocks enc dec blocks log xs \<longleftrightarrow>
     xs = concat blocks @ buffer log \<and> [] \<notin> set blocks \<and>
     list_all (codes enc dec) xs \<and> length xs < 2 ^ 64 \<and> total_entries log = length xs \<and>
     block_offsets log = file_offsets enc blocks \<and>
     (case spill_file log of None \<Rightarrow> blocks = [] | Some c \<Rightarrow> c = file_content enc blocks)"

definition undo_rep ::
  "'v enc \<Rightarrow> 'v dec \<Rightarrow> 'v file_backed_undo_log \<Rightarrow> 'v undo_log_entry list \<Rightarrow> bool" where
  "undo_rep enc dec log xs \<longleftrightarrow> (\<exists>blocks. undo_rep_blocks enc dec blocks log xs)"

primrec pop_n ::
  "('l \<Rightarrow> (undo_log_error, 'e option) result \<times> 'l) \<Rightarrow> nat \<Rightarrow> 'l \<Rightarrow> 'e list \<times> 'l" where
  "pop_n pop 0 l = ([], l)"
| "pop_n pop (Suc n) l =
     (case pop l of
        (Inr (Some e), l') \<Rightarrow> (case pop_n pop n l' of (es, l'') \<Rightarrow> (e # es, l''))
      | (_, l') \<Rightarrow> ([], l'))"

fun push_all ::
  "('e \<Rightarrow> 'l \<Rightarrow> (undo_log_error, unit) result \<times> 'l) \<Rightarrow> 'e list \<Rightarrow> 'l
   \<Rightarrow> (undo_log_error, unit) result \<times> 'l" where
  "push_all push [] l = (Inr (), l)"
| "push_all push (e # es) l =
     (case push e l of (Inl err, l') \<Rightarrow> (Inl err, l') | (Inr _, l') \<Rightarrow> push_all push es l')"

locale undo_stack =
  fixes rep :: "'l \<Rightarrow> 'e list \<Rightarrow> bool"
    and storable :: "'e \<Rightarrow> bool"
    and push :: "'e \<Rightarrow> 'l \<Rightarrow> (undo_log_error, unit) result \<times> 'l"
    and pop :: "'l \<Rightarrow> (undo_log_error, 'e option) result \<times> 'l"
    and size_of :: "'l \<Rightarrow> nat"
  assumes push_law: "rep l xs \<Longrightarrow> storable e \<Longrightarrow> length xs + 1 < 2 ^ 64 \<Longrightarrow>
      \<exists>l'. push e l = (Inr (), l') \<and> rep l' (xs @ [e])"
    and pop_empty: "rep l [] \<Longrightarrow> pop l = (Inr None, l)"
    and pop_last: "rep l (xs @ [e]) \<Longrightarrow> \<exists>l'. pop l = (Inr (Some e), l') \<and> rep l' xs"
    and size_law: "rep l xs \<Longrightarrow> size_of l = length xs"
    and storable_law: "rep l xs \<Longrightarrow> e \<in> set xs \<Longrightarrow> storable e"
begin

lemma push_all_rep:
  "rep l xs \<Longrightarrow> list_all storable es \<Longrightarrow> length xs + length es < 2 ^ 64 \<Longrightarrow>
   \<exists>l'. push_all push es l = (Inr (), l') \<and> rep l' (xs @ es)"
proof (induction es arbitrary: l xs)
  case (Cons e es)
  from push_law [OF Cons.prems(1), of e] Cons.prems(2,3) obtain l1 where
    l1: "push e l = (Inr (), l1)" "rep l1 (xs @ [e])" by auto
  from Cons.IH [OF l1(2)] Cons.prems(2,3) obtain l2 where
    "push_all push es l1 = (Inr (), l2)" "rep l2 (xs @ e # es)" by auto
  with l1 show ?case by auto
qed simp

lemma pop_n_rep:
  "rep l (xs @ ys) \<Longrightarrow> \<exists>l'. pop_n pop (length ys) l = (rev ys, l') \<and> rep l' xs"
proof (induction ys arbitrary: l rule: rev_induct)
  case (snoc y ys)
  from pop_last [of l "xs @ ys" y] snoc.prems obtain l1 where
    l1: "pop l = (Inr (Some y), l1)" "rep l1 (xs @ ys)" by auto
  from snoc.IH [OF l1(2)] l1 show ?case by auto
qed simp

lemma lifo:
  assumes "rep l []" "list_all storable es" "length es < 2 ^ 64"
  shows "\<exists>l' l''. push_all push es l = (Inr (), l') \<and> size_of l' = length es \<and>
           pop_n pop (length es) l' = (rev es, l'') \<and> rep l'' []"
proof -
  obtain l' where l': "push_all push es l = (Inr (), l')" "rep l' es"
    using push_all_rep [OF assms(1,2)] assms(3) by auto
  with pop_n_rep [of l' "[]" es] size_law show ?thesis by auto
qed

end

subsection \<open>Blocks decode to what was spilled\<close>

lemma length_u64_le: "n < 2 ^ 64 \<Longrightarrow> unat (u64_from_le_bytes (u64_to_le_bytes (of_nat n))) = n"
  by (simp add: unat_of_nat)

lemma read_serialize:
  "list_all (codes enc dec) es \<Longrightarrow>
   \<exists>body. serialize_entries enc es = Inr body \<and> 8 * length es \<le> length body \<and>
          (\<forall>tail. read_entries dec (length es) (body @ tail) = Inr (es, tail))"
proof (induction es)
  case (Cons e es)
  then obtain body where b: "serialize_entries enc es = Inr body" "8 * length es \<le> length body"
    "\<And>tail. read_entries dec (length es) (body @ tail) = Inr (es, tail)" by auto
  obtain bs where bs: "enc e = Some bs" "dec bs = Some e" "length bs < 2 ^ 64"
    using Cons.prems by (auto simp: codes_def)
  let ?h = "u64_to_le_bytes (of_nat (length bs))"
  have "read_entries dec (length (e # es)) ((?h @ bs @ body) @ tail) = Inr (e # es, tail)" for tail
    using bs b(3) [of tail] length_u64_le [OF bs(3)] by (simp add: Let_def)
  then show ?case using b bs by auto
qed simp

lemma serialize_block_ok:
  assumes "list_all (codes enc dec) es"
  obtains body where "serialize_block enc es = Inr (u64_to_le_bytes (of_nat (length es)) @ body)"
    "block_bytes enc es = u64_to_le_bytes (of_nat (length es)) @ body"
    "8 * length es \<le> length body" "read_entries dec (length es) body = Inr (es, [])"
proof -
  obtain body where "serialize_entries enc es = Inr body" "8 * length es \<le> length body"
    "\<And>tail. read_entries dec (length es) (body @ tail) = Inr (es, tail)"
    using read_serialize [OF assms] by auto
  then show thesis
    using that [of body] by (force simp: serialize_block_def block_bytes_def dest: spec [of _ "[]"])
qed

lemma file_content_snoc: "file_content enc (bs @ [b]) = file_content enc bs @ block_bytes enc b"
  by (simp add: file_content_def)

lemma file_offsets_snoc:
  "file_offsets enc (bs @ [b]) = file_offsets enc bs @ [length (file_content enc bs)]"
  by (auto simp: file_offsets_def)

subsection \<open>Each operation implements the stack\<close>

lemma spill_rep:
  assumes rep: "undo_rep_blocks enc dec blocks log xs" and ne: "buffer log \<noteq> []"
  shows "\<exists>log'. spill_to_file enc log = (Inr (), log') \<and>
           undo_rep_blocks enc dec (blocks @ [buffer log]) log' xs"
proof -
  have "list_all (codes enc dec) (buffer log)" using rep by (auto simp: undo_rep_blocks_def)
  then obtain body where body:
    "serialize_block enc (buffer log) = Inr (u64_to_le_bytes (of_nat (length (buffer log))) @ body)"
    "block_bytes enc (buffer log) = u64_to_le_bytes (of_nat (length (buffer log))) @ body"
    by (rule serialize_block_ok)
  show ?thesis
    using rep ne body
    by (auto simp: spill_to_file_def undo_rep_blocks_def Let_def file_content_snoc
        file_offsets_snoc file_content_def split: option.splits)
qed

lemma undo_add_rep:
  assumes "undo_rep enc dec log xs" "codes enc dec e" "length xs + 1 < 2 ^ 64"
  shows "\<exists>log'. undo_add enc e log = (Inr (), log') \<and> undo_rep enc dec log' (xs @ [e])"
proof -
  let ?log = "log\<lparr> buffer := buffer log @ [e], total_entries := total_entries log + 1 \<rparr>"
  obtain blocks where "undo_rep_blocks enc dec blocks log xs"
    using assms(1) by (auto simp: undo_rep_def)
  then have rep: "undo_rep_blocks enc dec blocks ?log (xs @ [e])"
    using assms(2,3) by (auto simp: undo_rep_blocks_def split: option.splits)
  show ?thesis
  proof (cases "threshold ?log \<le> length (buffer ?log)")
    case True
    then have "undo_add enc e log = spill_to_file enc ?log" by (simp add: undo_add_def)
    with spill_rep [OF rep] show ?thesis by (auto simp: undo_rep_def)
  next
    case False
    then have "undo_add enc e log = (Inr (), ?log)" by (simp add: undo_add_def)
    with rep show ?thesis by (auto simp: undo_rep_def)
  qed
qed

lemma file_offsets_Nil [simp]: "file_offsets enc [] = []"
  by (simp add: file_offsets_def)

lemma file_offsets_eq_Nil [simp]: "file_offsets enc bs = [] \<longleftrightarrow> bs = []"
  by (simp add: file_offsets_def)

lemma pop_from_file_rep:
  assumes rep: "undo_rep_blocks enc dec (bs @ [b]) log xs" and empty: "buffer log = []"
  shows "\<exists>log'. pop_from_file dec log = (Inr (Some (last b)), log') \<and>
           undo_rep_blocks enc dec bs log' (concat bs @ butlast b)"
proof -
  have cs: "list_all (codes enc dec) b" "b \<noteq> []" "length b < 2 ^ 64" "total_entries log \<noteq> 0"
    using rep empty by (auto simp: undo_rep_blocks_def)
  obtain body where body: "block_bytes enc b = u64_to_le_bytes (of_nat (length b)) @ body"
    "8 * length b \<le> length body" "read_entries dec (length b) body = Inr (b, [])"
    using serialize_block_ok [OF cs(1)] by blast
  have sf: "spill_file log = Some (file_content enc bs @ block_bytes enc b)"
    using rep by (simp add: undo_rep_blocks_def file_content_snoc split: option.splits)
  have offs: "block_offsets log = file_offsets enc bs @ [length (file_content enc bs)]"
    using rep by (simp add: undo_rep_blocks_def file_offsets_snoc)
  have cnt: "unat (of_nat (length b) :: u64) = length b" using cs(3) by (simp add: unat_of_nat)
  have fits: "\<not> length body div 8 < length b" using body(2) by (simp add: div_less_iff_less_mult)
  let ?log = "log\<lparr> spill_file := Some (file_content enc bs), block_offsets := file_offsets enc bs,
      buffer := butlast b, total_entries := total_entries log - 1 \<rparr>"
  have "pop_from_file dec log = (Inr (Some (last b)), ?log)"
    using cs(2,4) body fits cnt by (simp add: pop_from_file_def sf offs Let_def)
  moreover have "undo_rep_blocks enc dec bs ?log (concat bs @ butlast b)"
  proof -
    have "list_all (codes enc dec) (butlast b)"
      using cs(1) by (auto simp: list_all_iff dest: in_set_butlastD)
    then show ?thesis
      using rep empty cs(2) by (cases b rule: rev_cases) (auto simp: undo_rep_blocks_def)
  qed
  ultimately show ?thesis by blast
qed

lemma undo_pop_empty:
  assumes "undo_rep enc dec log []"
  shows "undo_pop dec log = (Inr None, log)"
proof -
  obtain blocks where b: "undo_rep_blocks enc dec blocks log []"
    using assms by (auto simp: undo_rep_def)
  then have "blocks = []" by (cases blocks) (auto simp: undo_rep_blocks_def)
  with b show ?thesis
    by (auto simp: undo_rep_blocks_def undo_pop_def pop_from_file_def split: option.splits)
qed

lemma undo_pop_last:
  assumes "undo_rep enc dec log (xs @ [e])"
  shows "\<exists>log'. undo_pop dec log = (Inr (Some e), log') \<and> undo_rep enc dec log' xs"
proof -
  obtain blocks where rep: "undo_rep_blocks enc dec blocks log (xs @ [e])"
    using assms by (auto simp: undo_rep_def)
  show ?thesis
  proof (cases "buffer log = []")
    case False
    then have bl: "buffer log = butlast (buffer log) @ [e]" "xs = concat blocks @ butlast (buffer log)"
      using rep by (metis append_butlast_last_id append_assoc butlast_snoc last_appendR last_snoc
          undo_rep_blocks_def)+
    let ?log = "log\<lparr> buffer := butlast (buffer log), total_entries := total_entries log - 1 \<rparr>"
    have "undo_rep_blocks enc dec blocks ?log xs"
      using rep bl(2) by (auto simp: undo_rep_blocks_def split: option.splits)
    moreover have "undo_pop dec log = (Inr (Some e), ?log)"
      using False bl(1) by (simp add: undo_pop_def) (metis last_snoc)
    ultimately show ?thesis by (auto simp: undo_rep_def)
  next
    case True
    then have xs: "xs @ [e] = concat blocks" using rep by (simp add: undo_rep_blocks_def)
    then have "blocks \<noteq> []" by auto
    then obtain bs b where blocks: "blocks = bs @ [b]" by (cases blocks rule: rev_cases) auto
    have b: "b \<noteq> []" using rep blocks by (auto simp: undo_rep_blocks_def)
    have "xs @ [e] = (concat bs @ butlast b) @ [last b]" using xs blocks b by simp
    then have e: "e = last b" "xs = concat bs @ butlast b" by auto
    from pop_from_file_rep [OF rep [unfolded blocks] True] e True show ?thesis
      by (auto simp: undo_pop_def undo_rep_def)
  qed
qed

lemma undo_rep_len: "undo_rep enc dec log xs \<Longrightarrow> undo_len log = length xs"
  by (auto simp: undo_rep_def undo_rep_blocks_def undo_len_def)

lemma undo_rep_codes: "undo_rep enc dec log xs \<Longrightarrow> e \<in> set xs \<Longrightarrow> codes enc dec e"
  by (auto simp: undo_rep_def undo_rep_blocks_def list_all_iff)

lemma undo_rep_unspilled: "undo_rep enc dec log xs \<Longrightarrow> spill_file log = None \<Longrightarrow> xs = buffer log"
  by (auto simp: undo_rep_def undo_rep_blocks_def)

lemma undo_rep_new: "undo_rep enc dec (undo_log_new n) []"
  by (auto simp: undo_rep_def undo_rep_blocks_def undo_log_new_def intro!: exI [of _ "[]"])

interpretation us: undo_stack "undo_rep enc dec" "codes enc dec" "undo_add enc" "undo_pop dec" undo_len
  for enc :: "'v enc" and dec :: "'v dec"
  by unfold_locales
     (fact undo_add_rep undo_pop_empty undo_pop_last undo_rep_len undo_rep_codes)+

subsection \<open>Execution against a reference replay\<close>

fun replay ::
  "('g, 'v) undo_target \<Rightarrow> timestamp \<Rightarrow> 'v undo_log_entry list \<Rightarrow> 'g
   \<Rightarrow> (undo_log_error, unit) result \<times> 'v undo_log_entry list \<times> 'g" where
  "replay t ts [] g = (Inr (), [], g)"
| "replay t ts (e # es) g =
     (case entry_undo t e ts g of
        (Inr _, g1) \<Rightarrow> replay t ts es g1
      | (Inl err, g1) \<Rightarrow> (Inl err, e # es, g1))"

lemma replay_ok: "replay t ts xs g = (r, es, g') \<Longrightarrow> is_ok r \<Longrightarrow> es = []"
  by (induction xs arbitrary: g) (auto split: prod.splits sum.splits)

lemma push_back_rep:
  "undo_rep enc dec log xs \<Longrightarrow> codes enc dec e \<Longrightarrow> length xs + 1 < 2 ^ 64 \<Longrightarrow>
   undo_rep enc dec (log\<lparr> buffer := buffer log @ [e], total_entries := total_entries log + 1 \<rparr>)
     (xs @ [e])"
  by (auto simp: undo_rep_def undo_rep_blocks_def split: option.splits)

lemma undo_rep_bound: "undo_rep enc dec log xs \<Longrightarrow> length xs < 2 ^ 64"
  by (auto simp: undo_rep_def undo_rep_blocks_def)

lemma execute_next_snoc:
  assumes rep: "undo_rep enc dec log (xs @ [e])" and r: "entry_undo t e ts g = (r, g1)"
  obtains log' where
    "execute_next dec t ts log g =
       ((case r of Inl err \<Rightarrow> Inl err | Inr _ \<Rightarrow> Inr True), log', g1)"
    "undo_rep enc dec log' (if is_ok r then xs else xs @ [e])"
proof -
  obtain log1 where l: "undo_pop dec log = (Inr (Some e), log1)" "undo_rep enc dec log1 xs"
    using us.pop_last [OF rep] by blast
  let ?log = "log1\<lparr> buffer := buffer log1 @ [e], total_entries := total_entries log1 + 1 \<rparr>"
  have "undo_rep enc dec ?log (xs @ [e])"
    by (rule push_back_rep [OF l(2)])
       (use us.storable_law [OF rep] undo_rep_bound [OF rep] in auto)
  then show thesis
    using that [of log1] that [of ?log] r l by (cases r) (simp_all add: execute_next_def)
qed

lemma execute_times_replay:
  assumes "undo_rep enc dec log (xs @ ys)"
  shows "\<exists>log'. execute_times (length ys) dec t ts log g =
           (fst (replay t ts (rev ys) g), log', snd (snd (replay t ts (rev ys) g))) \<and>
         undo_rep enc dec log' (xs @ rev (fst (snd (replay t ts (rev ys) g))))"
  using assms
proof (induction ys arbitrary: log g rule: rev_induct)
  case (snoc y ys)
  have rep: "undo_rep enc dec log ((xs @ ys) @ [y])" using snoc.prems by simp
  obtain r g1 where r: "entry_undo t y ts g = (r, g1)" by force
  obtain log1 where l:
    "execute_next dec t ts log g = ((case r of Inl err \<Rightarrow> Inl err | Inr _ \<Rightarrow> Inr True), log1, g1)"
    "undo_rep enc dec log1 (if is_ok r then xs @ ys else (xs @ ys) @ [y])"
    by (rule execute_next_snoc [OF rep r])
  show ?case
  proof (cases r)
    case (Inl err)
    then show ?thesis using l r by simp
  next
    case (Inr u)
    with l have "undo_rep enc dec log1 (xs @ ys)" by simp
    from snoc.IH [OF this, of g1] Inr l r show ?thesis by simp
  qed
qed simp

lemma execute_undo_fuel_replay:
  assumes "undo_rep enc dec log ys"
  shows "\<exists>log'. execute_undo_fuel (length ys + 1) dec t ts log g =
           Some (fst (replay t ts (rev ys) g), log', snd (snd (replay t ts (rev ys) g))) \<and>
         undo_rep enc dec log' (rev (fst (snd (replay t ts (rev ys) g))))"
  using assms
proof (induction ys arbitrary: log g rule: rev_induct)
  case Nil
  then show ?case using us.pop_empty [OF Nil] by (simp add: execute_next_def)
next
  case (snoc y ys)
  obtain r g1 where r: "entry_undo t y ts g = (r, g1)" by force
  obtain log1 where l:
    "execute_next dec t ts log g = ((case r of Inl err \<Rightarrow> Inl err | Inr _ \<Rightarrow> Inr True), log1, g1)"
    "undo_rep enc dec log1 (if is_ok r then ys else ys @ [y])"
    by (rule execute_next_snoc [OF snoc.prems r])
  show ?case
  proof (cases r)
    case (Inl err)
    then show ?thesis using l r by simp
  next
    case (Inr u)
    with l have "undo_rep enc dec log1 ys" by simp
    from snoc.IH [OF this, of g1] Inr l r show ?thesis by simp
  qed
qed

lemma execute_from_index_replay:
  assumes "undo_rep enc dec log xs" "k \<le> length xs"
  shows "\<exists>log'. execute_undo_from_index dec t ts k log g =
            (fst (replay t ts (rev (drop k xs)) g), log',
             snd (snd (replay t ts (rev (drop k xs)) g))) \<and>
            undo_rep enc dec log' (take k xs @ rev (fst (snd (replay t ts (rev (drop k xs)) g))))"
proof -
  have "undo_rep enc dec log (take k xs @ drop k xs)" using assms(1) by simp
  from execute_times_replay [OF this, of t ts g] assms undo_rep_len [OF assms(1)] show ?thesis
    by (simp add: execute_undo_from_index_def undo_len_def)
qed

subsection \<open>A concrete codec and target\<close>

fun demo_enc :: "nat enc" where
  "demo_enc (CreateVertexType l) = Some [of_nat l]"
| "demo_enc _ = None"

fun demo_dec :: "nat dec" where
  "demo_dec [b] = Some (CreateVertexType (unat b))"
| "demo_dec _ = None"

definition demo_target :: "(nat list, nat) undo_target" where
  "demo_target =
     \<lparr> ut_delete_vertex_type = (\<lambda>l g. (Inr (), l # g)),
       ut_delete_edge_type = (\<lambda>_ g. (Inr (), g)),
       ut_delete_edge = (\<lambda>_ _ g. (Inr (), g)),
       ut_restore_edge = (\<lambda>_ _ _ g. (Inl (UndoFailed ''unsupported''), g)),
       ut_undo_update_edge_property = (\<lambda>_ _ _ _ g. (Inr (), g)),
       ut_revert_delete_edge = (\<lambda>_ _ g. (Inr (), g)),
       ut_staged_write_mark = (\<lambda>_ _. None),
       ut_rollback_staged_writes = (\<lambda>_ _ g. (Inr (), g)) \<rparr>"

lemma demo_codes: "l < 256 \<Longrightarrow> codes demo_enc demo_dec (CreateVertexType l)"
  by (auto simp: codes_def unat_byte_of_nat)

subsection \<open>Properties\<close>

text \<open>
  C19.  The spilling log is a stack.  After any sequence of additions to a new
  log, whatever the memory threshold, popping returns the entries newest first
  and ends with the empty log, for every entry codec that decodes what it
  encoded.
\<close>

theorem undo_log_lifo:
  assumes codec: "\<And>e. e \<in> set es \<Longrightarrow> \<exists>bs. enc e = Some bs \<and> dec bs = Some e \<and> length bs < 2 ^ 64"
    and "length es < 2 ^ 64"
  shows "\<exists>log log'. push_all (undo_add enc) es (undo_log_new n) = (Inr (), log) \<and>
           undo_len log = length es \<and>
           pop_n (undo_pop dec) (length es) log = (rev es, log') \<and> undo_pop dec log' = (Inr None, log')"
proof -
  have "list_all (codes enc dec) es" using codec by (auto simp: list_all_iff codes_def)
  from us.lifo [OF undo_rep_new this assms(2)] us.pop_empty show ?thesis by blast
qed

theorem undo_log_lifo_witness:
  "\<exists>log log'. push_all (undo_add demo_enc) (map CreateVertexType [1, 2, 3]) (undo_log_new 2) = (Inr (), log) \<and>
     undo_len log = 3 \<and>
     pop_n (undo_pop demo_dec) 3 log = (map CreateVertexType [3, 2, 1], log') \<and>
     undo_pop demo_dec log' = (Inr None, log')"
proof -
  let ?es = "map CreateVertexType [1, 2, 3] :: nat undo_log_entry list"
  have "\<And>e. e \<in> set ?es \<Longrightarrow> \<exists>bs. demo_enc e = Some bs \<and> demo_dec bs = Some e \<and> length bs < 2 ^ 64"
    using demo_codes by (auto simp: codes_def)
  from undo_log_lifo [of ?es, OF this, where n = 2] show ?thesis
    by (simp add: numeral_3_eq_3 del: push_all.simps pop_n.simps)
qed

text \<open>
  C18.  Rollback execution.  On a log holding the entries \<open>xs\<close>, full execution
  terminates and agrees with the reference replay of \<open>xs\<close> newest first, and
  execution from an index undoes exactly the entries from that index on.  When
  an entry fails, both stop with its error and the log still holds that entry
  and every older one.
\<close>

theorem execute_undo_replays:
  assumes "undo_rep enc dec log xs" "k \<le> length xs"
  shows "(\<exists>log'. execute_undo dec t ts log g =
            Some (fst (replay t ts (rev xs) g), log', snd (snd (replay t ts (rev xs) g))) \<and>
            undo_rep enc dec log' (rev (fst (snd (replay t ts (rev xs) g))))) \<and>
         (\<exists>log'. execute_undo_from_index dec t ts k log g =
            (fst (replay t ts (rev (drop k xs)) g), log',
             snd (snd (replay t ts (rev (drop k xs)) g))) \<and>
            undo_rep enc dec log' (take k xs @ rev (fst (snd (replay t ts (rev (drop k xs)) g)))))"
proof
  have len: "total_entries log = length xs"
    using undo_rep_len [OF assms(1)] by (simp add: undo_len_def)
  show "\<exists>log'. execute_undo dec t ts log g =
            Some (fst (replay t ts (rev xs) g), log', snd (snd (replay t ts (rev xs) g))) \<and>
            undo_rep enc dec log' (rev (fst (snd (replay t ts (rev xs) g))))"
    using execute_undo_fuel_replay [OF assms(1)] by (simp add: execute_undo_def len)
  show "\<exists>log'. execute_undo_from_index dec t ts k log g =
            (fst (replay t ts (rev (drop k xs)) g), log',
             snd (snd (replay t ts (rev (drop k xs)) g))) \<and>
            undo_rep enc dec log' (take k xs @ rev (fst (snd (replay t ts (rev (drop k xs)) g))))"
    by (rule execute_from_index_replay [OF assms])
qed

theorem execute_undo_replays_witness:
  "\<exists>log log' log''. undo_rep demo_enc demo_dec log (map CreateVertexType [1, 2]) \<and>
     execute_undo demo_dec demo_target 7 log [] = Some (Inr (), log', [1, 2]) \<and>
     execute_undo_from_index demo_dec demo_target 7 1 log [] = (Inr (), log'', [2]) \<and>
     undo_rep demo_enc demo_dec log'' [CreateVertexType 1]"
proof -
  obtain log where log: "undo_rep demo_enc demo_dec log (map CreateVertexType [1, 2])"
    using us.push_all_rep [OF undo_rep_new, of demo_enc demo_dec "map CreateVertexType [1, 2]"]
      demo_codes by auto
  from execute_undo_replays [OF log, of 1 demo_target 7 "[]"] log show ?thesis
    by (auto simp: demo_target_def)
qed

end
