(* ===== verification/WalTypes.thy ===== *)
theory WalTypes
  imports StorageIds
begin

text \<open>
  The vocabulary of the write-ahead log: operation codes
  (\<open>linkrs-core/src/wal/types.rs\<close>), the outbox intents and commit markers of
  \<open>linkrs-core/src/wal/sync.rs\<close>, and the redo entries of
  \<open>linkrs-transaction/src/wal/commit.rs\<close>.  The mutation journal and the log
  format are built on it.
\<close>

subsection \<open>Operation codes\<close>

datatype wal_op_type =
    OpInsertVertex | OpInsertEdge | OpCreateVertexType | OpCreateEdgeType | OpAddVertexProp
  | OpAddEdgeProp | OpUpdateVertexProp | OpUpdateEdgeProp | OpDeleteVertex | OpDeleteEdge
  | OpDeleteVertexType | OpDeleteEdgeType | OpDeleteVertexProp | OpDeleteEdgeProp
  | OpRenameVertexProp | OpRenameEdgeProp | OpRenameTag | OpRenameEdgeType | OpCompact
  | OpCreateSpace | OpDropSpace | OpClearSpace | OpOutboxIntent | OpTransactionCommit
  | OpTransactionAbort | OpCreateTagIndex | OpDropTagIndex | OpCreateEdgeIndex
  | OpDropEdgeIndex | OpUpdateSequence | OpCreateMacro | OpDropMacro | OpCreateTypeAlias
  | OpDropTypeAlias | OpDeleteVertexProps

fun op_as_u8 :: "wal_op_type \<Rightarrow> nat" where
  "op_as_u8 OpInsertVertex = 0"
| "op_as_u8 OpInsertEdge = 1"
| "op_as_u8 OpCreateVertexType = 2"
| "op_as_u8 OpCreateEdgeType = 3"
| "op_as_u8 OpAddVertexProp = 4"
| "op_as_u8 OpAddEdgeProp = 5"
| "op_as_u8 OpUpdateVertexProp = 6"
| "op_as_u8 OpUpdateEdgeProp = 7"
| "op_as_u8 OpDeleteVertex = 8"
| "op_as_u8 OpDeleteEdge = 9"
| "op_as_u8 OpDeleteVertexType = 10"
| "op_as_u8 OpDeleteEdgeType = 11"
| "op_as_u8 OpDeleteVertexProp = 12"
| "op_as_u8 OpDeleteEdgeProp = 13"
| "op_as_u8 OpRenameVertexProp = 14"
| "op_as_u8 OpRenameEdgeProp = 15"
| "op_as_u8 OpRenameTag = 16"
| "op_as_u8 OpRenameEdgeType = 17"
| "op_as_u8 OpCompact = 18"
| "op_as_u8 OpCreateSpace = 19"
| "op_as_u8 OpDropSpace = 20"
| "op_as_u8 OpClearSpace = 21"
| "op_as_u8 OpOutboxIntent = 23"
| "op_as_u8 OpTransactionCommit = 24"
| "op_as_u8 OpTransactionAbort = 25"
| "op_as_u8 OpCreateTagIndex = 26"
| "op_as_u8 OpDropTagIndex = 27"
| "op_as_u8 OpCreateEdgeIndex = 28"
| "op_as_u8 OpDropEdgeIndex = 29"
| "op_as_u8 OpUpdateSequence = 30"
| "op_as_u8 OpCreateMacro = 31"
| "op_as_u8 OpDropMacro = 32"
| "op_as_u8 OpCreateTypeAlias = 33"
| "op_as_u8 OpDropTypeAlias = 34"
| "op_as_u8 OpDeleteVertexProps = 35"

definition op_table :: "(nat \<times> wal_op_type) list" where
  "op_table =
    [(0, OpInsertVertex), (1, OpInsertEdge), (2, OpCreateVertexType), (3, OpCreateEdgeType),
     (4, OpAddVertexProp), (5, OpAddEdgeProp), (6, OpUpdateVertexProp),
     (7, OpUpdateEdgeProp), (8, OpDeleteVertex), (9, OpDeleteEdge),
     (10, OpDeleteVertexType), (11, OpDeleteEdgeType), (12, OpDeleteVertexProp),
     (13, OpDeleteEdgeProp), (14, OpRenameVertexProp), (15, OpRenameEdgeProp),
     (16, OpRenameTag), (17, OpRenameEdgeType), (18, OpCompact), (19, OpCreateSpace),
     (20, OpDropSpace), (21, OpClearSpace), (23, OpOutboxIntent),
     (24, OpTransactionCommit), (25, OpTransactionAbort), (26, OpCreateTagIndex),
     (27, OpDropTagIndex), (28, OpCreateEdgeIndex), (29, OpDropEdgeIndex),
     (30, OpUpdateSequence), (31, OpCreateMacro), (32, OpDropMacro),
     (33, OpCreateTypeAlias), (34, OpDropTypeAlias), (35, OpDeleteVertexProps)]"

datatype wal_error =
    WalIoError
  | InvalidOpType nat
  | InvalidHeader
  | InvalidFileHeader
  | WalChecksumMismatch nat nat
  | WalSerializationError
  | WalDeserializationError
  | WalFileNotFound
  | WalCorrupted
  | WalClosed
  | WalUnsupportedVersion nat
  | WalRecoveryAborted
  | InvalidOperation
  | WalPoisoned
  | GroupCommitTimeout

definition op_try_from :: "nat \<Rightarrow> (wal_error, wal_op_type) result" where
  "op_try_from b = (case map_of op_table b of None \<Rightarrow> Inl (InvalidOpType b) | Some op \<Rightarrow> Inr op)"

subsection \<open>Outbox intents and commit markers\<close>

datatype entity_ref =
    RefVertex vertex_id
  | RefEdge vertex_id vertex_id label_id i64

datatype index_operation = Upsert | DeleteIndexed

record index_mutation =
  im_wire_version :: nat
  im_target :: string
  im_index_id :: nat
  im_generation :: nat
  im_entity :: entity_ref
  im_operation :: index_operation
  document_or_vector :: "byte list"
  idempotency_key :: string
  ordering_key :: string

record outbox_intent =
  oi_wire_version :: nat
  oi_transaction_id :: txn_id
  intent_sequence :: nat
  mutation :: index_mutation

record transaction_commit =
  tc_wire_version :: nat
  tc_transaction_id :: txn_id
  intent_count :: nat
  tc_batch_checksum :: nat
  first_sequence :: nat
  entry_count :: nat

record transaction_abort =
  ta_wire_version :: nat
  ta_transaction_id :: txn_id

definition WAL_SYNC_WIRE_VERSION :: nat where
  "WAL_SYNC_WIRE_VERSION = 1"

definition validate_wire_version :: "nat \<Rightarrow> (wal_error, unit) result" where
  "validate_wire_version v = (if v = WAL_SYNC_WIRE_VERSION then Inr () else Inl InvalidOperation)"

definition intent_validate :: "outbox_intent \<Rightarrow> (wal_error, unit) result" where
  "intent_validate i = bind_result (validate_wire_version (oi_wire_version i))
     (\<lambda>_. validate_wire_version (im_wire_version (mutation i)))"

definition commit_validate :: "transaction_commit \<Rightarrow> (wal_error, unit) result" where
  "commit_validate c = validate_wire_version (tc_wire_version c)"

definition abort_validate :: "transaction_abort \<Rightarrow> (wal_error, unit) result" where
  "abort_validate a = validate_wire_version (ta_wire_version a)"

subsection \<open>Redo entries\<close>

record wal_entry =
  we_op :: wal_op_type
  we_timestamp :: timestamp
  we_payload :: "byte list"
  we_transaction_id :: "txn_id option"
  we_mutation_sequence :: "nat option"

definition wal_entry_new :: "wal_op_type \<Rightarrow> timestamp \<Rightarrow> byte list \<Rightarrow> wal_entry" where
  "wal_entry_new op ts p =
     \<lparr> we_op = op, we_timestamp = ts, we_payload = p,
       we_transaction_id = None, we_mutation_sequence = None \<rparr>"

definition with_transaction :: "txn_id \<Rightarrow> nat \<Rightarrow> wal_entry \<Rightarrow> wal_entry" where
  "with_transaction t s e = e\<lparr> we_transaction_id := Some t, we_mutation_sequence := Some s \<rparr>"

subsection \<open>The code tables agree\<close>

lemma op_try_from_as_u8 [simp]: "op_try_from (op_as_u8 op) = Inr op"
  by (cases op) (simp_all add: op_try_from_def op_table_def)

lemma op_as_u8_bound: "op_as_u8 op \<le> 35"
  by (cases op) simp_all

lemma op_as_u8_inject [simp]: "op_as_u8 a = op_as_u8 b \<longleftrightarrow> a = b"
  by (metis op_try_from_as_u8 sum.inject(2))

lemma op_try_from_Inr: "op_try_from b = Inr op \<longleftrightarrow> b = op_as_u8 op"
proof
  assume "op_try_from b = Inr op"
  then have "map_of op_table b = Some op" by (simp add: op_try_from_def split: option.splits)
  then have "(b, op) \<in> set op_table" by (rule map_of_SomeD)
  then show "b = op_as_u8 op" by (auto simp: op_table_def)
qed simp

lemma intent_validate_Inr:
  "intent_validate i = Inr () \<longleftrightarrow>
   oi_wire_version i = WAL_SYNC_WIRE_VERSION \<and> im_wire_version (mutation i) = WAL_SYNC_WIRE_VERSION"
  by (simp add: intent_validate_def validate_wire_version_def)

end
