(* ===== verification/Staging.thy ===== *)
theory Staging
  imports UndoLog WalTypes
begin

text \<open>
  The per-transaction staging buffer of online vertex writes
  (\<open>linkrs-storage/src/engine/graph_storage/context/txn_staging.rs\<close>) and the part
  of the storage undo target that marks and rewinds it
  (\<open>engine/transaction/undo.rs\<close>, \<open>context/wal_coordination.rs\<close>).  The buffer keeps
  four maps and a journal with the previous entry of every change; rolling back
  to a mark undoes the journal in reverse.  Hash maps are partial functions, so
  results the code collects in map order are sets here.  The vertex tables that
  reserve and resolve identifiers answer through arguments.  Installing a drained
  label in those tables at commit is not modelled.
\<close>

subsection \<open>State\<close>

datatype id_key = IdInt i64 | IdText string

type_synonym staged_key = "label_id \<times> id_key"
type_synonym 'v property_rows = "(string \<times> 'v) list"

datatype 'v staged_index_op =
    IndexInsert nat 'v string "'v property_rows"
  | IndexUpdate nat 'v string "'v property_rows"
  | IndexDelete nat 'v string

datatype 'v staging_undo =
    UndoInserts staged_key "(nat \<times> 'v property_rows) option"
  | UndoUpdates staged_key "'v property_rows option"
  | UndoDeletes staged_key bool
  | UndoPropertyDeletes staged_key "string list option"

record 'v txn_staging =
  stg_write_ts :: timestamp
  inserts :: "staged_key \<rightharpoonup> nat \<times> 'v property_rows"
  updates :: "staged_key \<rightharpoonup> 'v property_rows"
  deletes :: "staged_key set"
  property_deletes :: "staged_key \<rightharpoonup> string list"
  resolved :: "staged_key \<rightharpoonup> nat"
  stg_journal :: "'v staging_undo list"
  index_ops :: "'v staged_index_op list"

record staging_rollback =
  released :: "(label_id \<times> nat) set"
  reclaimed :: "(label_id \<times> id_key \<times> nat) set"

datatype staging_error = CapacityExceeded | InvalidWriteTs

definition MAX_TXN_STAGING_KEYS :: nat where
  "MAX_TXN_STAGING_KEYS = 2 ^ 20"

definition staging_new :: "timestamp \<Rightarrow> 'v txn_staging" where
  "staging_new ts = \<lparr> stg_write_ts = ts, inserts = Map.empty, updates = Map.empty, deletes = {},
     property_deletes = Map.empty, resolved = Map.empty, stg_journal = [], index_ops = [] \<rparr>"

definition ensure_same_write_ts :: "timestamp \<Rightarrow> 'v txn_staging \<Rightarrow> (staging_error, unit) result" where
  "ensure_same_write_ts ts s = (if stg_write_ts s \<noteq> ts then Inl InvalidWriteTs else Inr ())"

definition staging_len :: "'v txn_staging \<Rightarrow> nat" where
  "staging_len s = card (dom (inserts s)) + card (dom (updates s)) + card (deletes s) +
     card (dom (property_deletes s))"

definition staging_is_empty :: "'v txn_staging \<Rightarrow> bool" where
  "staging_is_empty s \<longleftrightarrow> inserts s = Map.empty \<and> updates s = Map.empty \<and> deletes s = {} \<and>
     property_deletes s = Map.empty"

definition cache_resolution :: "label_id \<Rightarrow> id_key \<Rightarrow> nat \<Rightarrow> 'v txn_staging \<Rightarrow> 'v txn_staging" where
  "cache_resolution l k i s = s\<lparr> resolved := (resolved s)((l, k) \<mapsto> i) \<rparr>"

definition resolve :: "label_id \<Rightarrow> id_key \<Rightarrow> 'v txn_staging \<Rightarrow> nat option" where
  "resolve l k s = resolved s (l, k)"

definition counts_as_new :: "staged_key \<Rightarrow> 'v txn_staging \<Rightarrow> bool" where
  "counts_as_new p s \<longleftrightarrow> inserts s p = None \<and> updates s p = None \<and> p \<notin> deletes s \<and>
     property_deletes s p = None"

definition ensure_capacity :: "'v txn_staging \<Rightarrow> (staging_error, unit) result" where
  "ensure_capacity s =
     (if staging_len s \<ge> MAX_TXN_STAGING_KEYS then Inl CapacityExceeded else Inr ())"

subsection \<open>Journalled changes\<close>

definition record_inserts :: "staged_key \<Rightarrow> 'v txn_staging \<Rightarrow> 'v txn_staging" where
  "record_inserts p s = s\<lparr> stg_journal := stg_journal s @ [UndoInserts p (inserts s p)] \<rparr>"

definition record_updates :: "staged_key \<Rightarrow> 'v txn_staging \<Rightarrow> 'v txn_staging" where
  "record_updates p s = s\<lparr> stg_journal := stg_journal s @ [UndoUpdates p (updates s p)] \<rparr>"

definition record_deletes :: "staged_key \<Rightarrow> 'v txn_staging \<Rightarrow> 'v txn_staging" where
  "record_deletes p s = s\<lparr> stg_journal := stg_journal s @ [UndoDeletes p (p \<in> deletes s)] \<rparr>"

definition record_property_deletes :: "staged_key \<Rightarrow> 'v txn_staging \<Rightarrow> 'v txn_staging" where
  "record_property_deletes p s =
     s\<lparr> stg_journal := stg_journal s @ [UndoPropertyDeletes p (property_deletes s p)] \<rparr>"

definition put_insert :: "staged_key \<Rightarrow> (nat \<times> 'v property_rows) option \<Rightarrow> 'v txn_staging \<Rightarrow> 'v txn_staging" where
  "put_insert p v s = (record_inserts p s)\<lparr> inserts := (inserts s)(p := v) \<rparr>"

definition put_update :: "staged_key \<Rightarrow> 'v property_rows option \<Rightarrow> 'v txn_staging \<Rightarrow> 'v txn_staging" where
  "put_update p v s = (record_updates p s)\<lparr> updates := (updates s)(p := v) \<rparr>"

definition put_delete :: "staged_key \<Rightarrow> bool \<Rightarrow> 'v txn_staging \<Rightarrow> 'v txn_staging" where
  "put_delete p b s = (record_deletes p s)
     \<lparr> deletes := (if b then insert p (deletes s) else deletes s - {p}) \<rparr>"

definition put_property_delete :: "staged_key \<Rightarrow> string list option \<Rightarrow> 'v txn_staging \<Rightarrow> 'v txn_staging" where
  "put_property_delete p v s =
     (record_property_deletes p s)\<lparr> property_deletes := (property_deletes s)(p := v) \<rparr>"

subsection \<open>Staging merges\<close>

fun set_column :: "string \<Rightarrow> 'v \<Rightarrow> 'v property_rows \<Rightarrow> 'v property_rows" where
  "set_column n v [] = [(n, v)]"
| "set_column n v ((m, w) # r) = (if m = n then (m, v) # r else (m, w) # set_column n v r)"

definition merge_columns :: "'v property_rows \<Rightarrow> 'v property_rows \<Rightarrow> 'v property_rows" where
  "merge_columns cols row = fold (\<lambda>(n, v). set_column n v) cols row"

definition or_remove :: "'a list \<Rightarrow> 'a list option" where
  "or_remove xs = (if xs = [] then None else Some xs)"

definition retain_property_deletes :: "staged_key \<Rightarrow> string list \<Rightarrow> 'v txn_staging \<Rightarrow> 'v txn_staging" where
  "retain_property_deletes p names s = (case property_deletes s p of
      None \<Rightarrow> s
    | Some ds \<Rightarrow> put_property_delete p (or_remove (filter (\<lambda>d. d \<notin> set names) ds)) s)"

type_synonym ('v, 'a) stage_op = "(staging_error, 'a) result \<times> 'v txn_staging"

definition stage_insert ::
  "label_id \<Rightarrow> id_key \<Rightarrow> nat \<Rightarrow> 'v property_rows \<Rightarrow> 'v txn_staging \<Rightarrow> ('v, nat option) stage_op" where
  "stage_insert l k reserved props s = (let p = (l, k) in
     case (if counts_as_new p s then ensure_capacity s else Inr ()) of
       Inl e \<Rightarrow> (Inl e, s)
     | Inr _ \<Rightarrow>
         if p \<in> deletes s then
           let s1 = put_delete p False s;
               s2 = (if property_deletes s1 p \<noteq> None then put_property_delete p None s1 else s1)
           in (Inr (Some reserved), put_update p (Some props) s2)
         else
           (Inr (case inserts s p of Some (held, _) \<Rightarrow> if held \<noteq> reserved then Some held else None
                 | None \<Rightarrow> None),
            put_insert p (Some (reserved, props)) s))"

definition stage_update ::
  "label_id \<Rightarrow> id_key \<Rightarrow> 'v property_rows \<Rightarrow> 'v txn_staging \<Rightarrow> ('v, unit) stage_op" where
  "stage_update l k cols s = (let p = (l, k) in
     case inserts s p of
       Some (reserved, row) \<Rightarrow>
         let row' = merge_columns cols row;
             s1 = put_insert p (Some (reserved, row')) s
         in (Inr (), retain_property_deletes p (map fst row') s1)
     | None \<Rightarrow>
         (case (if counts_as_new p s then ensure_capacity s else Inr ()) of
            Inl e \<Rightarrow> (Inl e, s)
          | Inr _ \<Rightarrow>
              let s1 = retain_property_deletes p (map fst cols) s
              in (Inr (), put_update p
                   (Some ((case updates s1 p of Some r \<Rightarrow> r | None \<Rightarrow> []) @ cols)) s1)))"

definition stage_property_delete ::
  "label_id \<Rightarrow> id_key \<Rightarrow> string list \<Rightarrow> 'v txn_staging \<Rightarrow> ('v, unit) stage_op" where
  "stage_property_delete l k cols s = (if cols = [] then (Inr (), s) else let p = (l, k) in
     case inserts s p of
       Some (reserved, row) \<Rightarrow>
         let s1 = put_insert p (Some (reserved, filter (\<lambda>(n, _). n \<notin> set cols) row)) s
         in (Inr (), retain_property_deletes p cols s1)
     | None \<Rightarrow>
         (case (if counts_as_new p s then ensure_capacity s else Inr ()) of
            Inl e \<Rightarrow> (Inl e, s)
          | Inr _ \<Rightarrow>
              let s1 = (case updates s p of
                          None \<Rightarrow> s
                        | Some r \<Rightarrow> put_update p (or_remove (filter (\<lambda>(n, _). n \<notin> set cols) r)) s);
                  entry = (case property_deletes s1 p of Some ds \<Rightarrow> ds | None \<Rightarrow> [])
              in (Inr (), put_property_delete p
                   (Some (fold (\<lambda>n ds. if n \<in> set ds then ds else ds @ [n]) cols entry)) s1)))"

definition drop_update :: "staged_key \<Rightarrow> 'v txn_staging \<Rightarrow> 'v txn_staging" where
  "drop_update p s = (if updates s p \<noteq> None then put_update p None s else s)"

definition drop_property_delete :: "staged_key \<Rightarrow> 'v txn_staging \<Rightarrow> 'v txn_staging" where
  "drop_property_delete p s = (if property_deletes s p \<noteq> None then put_property_delete p None s else s)"

definition stage_delete :: "label_id \<Rightarrow> id_key \<Rightarrow> 'v txn_staging \<Rightarrow> ('v, nat option) stage_op" where
  "stage_delete l k s = (let p = (l, k) in
     case inserts s p of
       Some (reserved, row) \<Rightarrow>
         (Inr (Some reserved), drop_property_delete p (drop_update p (put_insert p None s)))
     | None \<Rightarrow>
         let s1 = drop_property_delete p (drop_update p s) in
         case (if p \<notin> deletes s1 then ensure_capacity s1 else Inr ()) of
           Inl e \<Rightarrow> (Inl e, s1)
         | Inr _ \<Rightarrow> (Inr None, put_delete p True s1))"

definition replace_insert_id :: "label_id \<Rightarrow> id_key \<Rightarrow> nat \<Rightarrow> 'v txn_staging \<Rightarrow> nat option \<times> 'v txn_staging" where
  "replace_insert_id l k i s = (case inserts s (l, k) of
      None \<Rightarrow> (None, s)
    | Some (old, row) \<Rightarrow> (Some old, s\<lparr> inserts := (inserts s)((l, k) \<mapsto> (i, row)) \<rparr>))"

definition stage_index_op :: "'v staged_index_op \<Rightarrow> 'v txn_staging \<Rightarrow> 'v txn_staging" where
  "stage_index_op op s = s\<lparr> index_ops := index_ops s @ [op] \<rparr>"

subsection \<open>Marks and rollback\<close>

definition staging_mark :: "'v txn_staging \<Rightarrow> nat \<times> nat" where
  "staging_mark s = (length (stg_journal s), length (index_ops s))"

fun undo_staged :: "'v staging_undo \<Rightarrow> 'v txn_staging \<Rightarrow> 'v txn_staging" where
  "undo_staged (UndoInserts p prev) s = s\<lparr> inserts := (inserts s)(p := prev) \<rparr>"
| "undo_staged (UndoUpdates p prev) s = s\<lparr> updates := (updates s)(p := prev) \<rparr>"
| "undo_staged (UndoDeletes p present) s =
     s\<lparr> deletes := (if present then insert p (deletes s) else deletes s - {p}) \<rparr>"
| "undo_staged (UndoPropertyDeletes p prev) s =
     s\<lparr> property_deletes := (property_deletes s)(p := prev) \<rparr>"

definition held_ids :: "'v txn_staging \<Rightarrow> (label_id \<times> nat) set" where
  "held_ids s = {(l, i). \<exists>k row. inserts s (l, k) = Some (i, row)}"

definition rollback_to :: "nat \<times> nat \<Rightarrow> 'v txn_staging \<Rightarrow> (staging_rollback \<times> 'v txn_staging) option" where
  "rollback_to mark s = (case mark of (jl, il) \<Rightarrow>
     if jl > length (stg_journal s) then None
     else let before = held_ids s;
              s1 = (fold undo_staged (rev (drop jl (stg_journal s))) s)
                     \<lparr> stg_journal := take jl (stg_journal s), index_ops := take il (index_ops s) \<rparr>
          in Some (\<lparr> released = before - held_ids s1,
                     reclaimed = {(l, k, i). \<exists>row. inserts s1 (l, k) = Some (i, row) \<and> (l, i) \<notin> before} \<rparr>,
                   s1))"

definition staging_clear :: "'v txn_staging \<Rightarrow> (label_id \<times> nat) set \<times> 'v txn_staging" where
  "staging_clear s = (held_ids s, (staging_new (stg_write_ts s)))"

record 'v label_scope =
  sc_inserts :: "id_key \<rightharpoonup> nat \<times> 'v property_rows"
  sc_updates :: "(nat \<times> 'v property_rows) set"
  sc_property_deletes :: "(nat \<times> string list) set"
  sc_deletes :: "nat set"

definition all_resolved :: "label_id \<Rightarrow> staged_key set \<Rightarrow> 'v txn_staging \<Rightarrow> bool" where
  "all_resolved l ks s \<longleftrightarrow> (\<forall>(m, k) \<in> ks. m = l \<longrightarrow> resolve l k s \<noteq> None)"

definition resolved_id :: "label_id \<Rightarrow> id_key \<Rightarrow> 'v txn_staging \<Rightarrow> nat" where
  "resolved_id l k s = (case resolve l k s of Some i \<Rightarrow> i | None \<Rightarrow> 0)"

definition other_labels :: "label_id \<Rightarrow> (staged_key \<rightharpoonup> 'a) \<Rightarrow> (staged_key \<rightharpoonup> 'a)" where
  "other_labels l m = (\<lambda>p. if fst p = l then None else m p)"

definition take_label_scope ::
  "label_id \<Rightarrow> 'v txn_staging \<Rightarrow> 'v label_scope option \<times> 'v txn_staging" where
  "take_label_scope l s =
     (let s1 = s\<lparr> inserts := other_labels l (inserts s), updates := other_labels l (updates s) \<rparr>
      in if \<not> all_resolved l (dom (updates s)) s then (None, s1)
         else let s2 = s1\<lparr> property_deletes := other_labels l (property_deletes s) \<rparr>
         in if \<not> all_resolved l (dom (property_deletes s)) s then (None, s2)
         else let s3 = s2\<lparr> deletes := {p \<in> deletes s. fst p \<noteq> l} \<rparr>
         in if \<not> all_resolved l (deletes s) s then (None, s3)
         else (Some \<lparr> sc_inserts = (\<lambda>k. inserts s (l, k)),
                      sc_updates = {(resolved_id l k s, c) | k c. updates s (l, k) = Some c},
                      sc_property_deletes =
                        {(resolved_id l k s, c) | k c. property_deletes s (l, k) = Some c},
                      sc_deletes = {resolved_id l k s | k. (l, k) \<in> deletes s} \<rparr>,
               s3\<lparr> stg_journal := [] \<rparr>))"

subsection \<open>The buffers of the store\<close>

record 'v staging_store =
  txn_buffers :: "txn_id \<rightharpoonup> 'v txn_staging"
  staged_wal :: "txn_id \<rightharpoonup> wal_entry list"
  release_calls :: "(label_id \<times> nat) set list"

record 'v vertex_tables =
  vt_label_known :: "label_id \<Rightarrow> bool"
  vt_prepare_update :: "label_id \<Rightarrow> 'v property_rows \<Rightarrow> 'v property_rows option"
  vt_internal_id :: "label_id \<Rightarrow> id_key \<Rightarrow> timestamp \<Rightarrow> nat option"
  vt_replacement :: "label_id \<Rightarrow> id_key \<Rightarrow> nat \<Rightarrow> nat option"

datatype store_error = StagingFailed staging_error | LabelUnknown | VertexNotFound | InvalidColumns

definition release_staged_reservations ::
  "'v vertex_tables \<Rightarrow> (label_id \<times> nat) set \<Rightarrow> 'v staging_store \<Rightarrow> 'v staging_store" where
  "release_staged_reservations vt es st = (if es = {} then st
     else st\<lparr> release_calls := release_calls st @ [{(l, i) \<in> es. vt_label_known vt l}] \<rparr>)"

text \<open>
  Calls that release reserved identifiers are kept in order in \<open>release_calls\<close>.
  \<open>vt_replacement\<close> is the fresh identifier a table reserves when it can not
  reclaim the old one; it is \<open>None\<close> when the old one was reclaimed or nothing
  could be reserved.
\<close>

definition txn_staging_buffer ::
  "txn_id \<Rightarrow> timestamp \<Rightarrow> 'v staging_store \<Rightarrow> (store_error, 'v txn_staging) result \<times> 'v staging_store" where
  "txn_staging_buffer t ts st =
     (let b = (case txn_buffers st t of Some b \<Rightarrow> b | None \<Rightarrow> staging_new ts);
          st1 = st\<lparr> txn_buffers := (txn_buffers st)(t \<mapsto> b) \<rparr>
      in case ensure_same_write_ts ts b of Inl e \<Rightarrow> (Inl (StagingFailed e), st1) | Inr _ \<Rightarrow> (Inr b, st1))"

definition put_buffer :: "txn_id \<Rightarrow> (staging_error, 'a) result \<times> 'v txn_staging \<Rightarrow> 'v staging_store
    \<Rightarrow> (store_error, 'a) result \<times> 'v staging_store" where
  "put_buffer t r st = ((case fst r of Inl e \<Rightarrow> Inl (StagingFailed e) | Inr x \<Rightarrow> Inr x),
     st\<lparr> txn_buffers := (txn_buffers st)(t \<mapsto> snd r) \<rparr>)"

definition with_live_row ::
  "'v vertex_tables \<Rightarrow> txn_id \<Rightarrow> label_id \<Rightarrow> id_key \<Rightarrow> timestamp
   \<Rightarrow> ('v txn_staging \<Rightarrow> (staging_error, 'a) result \<times> 'v txn_staging)
   \<Rightarrow> 'v staging_store \<Rightarrow> (store_error, 'a) result \<times> 'v staging_store" where
  "with_live_row vt t l k ts f st =
     (case txn_staging_buffer t ts st of
        (Inl e, st1) \<Rightarrow> (Inl e, st1)
      | (Inr b, st1) \<Rightarrow>
          if inserts b (l, k) \<noteq> None then put_buffer t (f b) st1
          else if (l, k) \<in> deletes b then (Inl VertexNotFound, st1)
          else case vt_internal_id vt l k ts of
                 None \<Rightarrow> (Inl VertexNotFound, st1)
               | Some i \<Rightarrow> put_buffer t (f (cache_resolution l k i b)) st1)"

definition stage_vertex_update ::
  "'v vertex_tables \<Rightarrow> txn_id \<Rightarrow> label_id \<Rightarrow> id_key \<Rightarrow> 'v property_rows \<Rightarrow> timestamp
   \<Rightarrow> 'v staging_store \<Rightarrow> (store_error, unit) result \<times> 'v staging_store" where
  "stage_vertex_update vt t l k cols ts st =
     (if \<not> vt_label_known vt l then (Inl LabelUnknown, st)
      else case vt_prepare_update vt l cols of
        None \<Rightarrow> (Inl InvalidColumns, st)
      | Some cols' \<Rightarrow> with_live_row vt t l k ts (stage_update l k cols') st)"

definition stage_vertex_property_delete ::
  "'v vertex_tables \<Rightarrow> txn_id \<Rightarrow> label_id \<Rightarrow> id_key \<Rightarrow> string \<Rightarrow> timestamp
   \<Rightarrow> 'v staging_store \<Rightarrow> (store_error, unit) result \<times> 'v staging_store" where
  "stage_vertex_property_delete vt t l k col ts st =
     (if \<not> vt_label_known vt l then (Inl LabelUnknown, st)
      else with_live_row vt t l k ts (stage_property_delete l k [col]) st)"

definition stage_vertex_delete ::
  "'v vertex_tables \<Rightarrow> txn_id \<Rightarrow> label_id \<Rightarrow> id_key \<Rightarrow> timestamp
   \<Rightarrow> 'v staging_store \<Rightarrow> (store_error, unit) result \<times> 'v staging_store" where
  "stage_vertex_delete vt t l k ts st =
     (if \<not> vt_label_known vt l then (Inl LabelUnknown, st)
      else case with_live_row vt t l k ts (stage_delete l k) st of
        (Inl e, st1) \<Rightarrow> (Inl e, st1)
      | (Inr None, st1) \<Rightarrow> (Inr (), st1)
      | (Inr (Some i), st1) \<Rightarrow> (Inr (), release_staged_reservations vt {(l, i)} st1))"

definition stage_vertex_index_op ::
  "txn_id \<Rightarrow> timestamp \<Rightarrow> 'v staged_index_op \<Rightarrow> 'v staging_store
   \<Rightarrow> (store_error, unit) result \<times> 'v staging_store" where
  "stage_vertex_index_op t ts op st = (case txn_staging_buffer t ts st of
      (Inl e, st1) \<Rightarrow> (Inl e, st1)
    | (Inr b, st1) \<Rightarrow> (Inr (), st1\<lparr> txn_buffers := (txn_buffers st1)(t \<mapsto> stage_index_op op b) \<rparr>))"

definition settle_staging_rollback ::
  "'v vertex_tables \<Rightarrow> staging_rollback \<Rightarrow> 'v txn_staging \<Rightarrow> 'v txn_staging" where
  "settle_staging_rollback vt rb b = b\<lparr> inserts := (\<lambda>(l, k). case inserts b (l, k) of
      None \<Rightarrow> None
    | Some (i, row) \<Rightarrow> Some ((if (l, k, i) \<in> reclaimed rb \<and> vt_label_known vt l
        then (case vt_replacement vt l k i of Some fresh \<Rightarrow> fresh | None \<Rightarrow> i) else i), row)) \<rparr>"

definition peek_txn_staging_mark :: "txn_id \<Rightarrow> 'v staging_store \<Rightarrow> (nat \<times> nat) option" where
  "peek_txn_staging_mark t st = map_option staging_mark (txn_buffers st t)"

definition staged_wal_len_for :: "txn_id \<Rightarrow> 'v staging_store \<Rightarrow> nat" where
  "staged_wal_len_for t st = (case staged_wal st t of Some es \<Rightarrow> length es | None \<Rightarrow> 0)"

definition rewind_grouped_statement ::
  "'v vertex_tables \<Rightarrow> txn_id \<Rightarrow> nat \<times> nat \<Rightarrow> nat \<Rightarrow> 'v staging_store \<Rightarrow> 'v staging_store option" where
  "rewind_grouped_statement vt t start wal_start st =
     (case (case txn_buffers st t of
              None \<Rightarrow> Some st
            | Some b \<Rightarrow> (case rollback_to start b of
                None \<Rightarrow> None
              | Some (rb, b1) \<Rightarrow>
                  Some (release_staged_reservations vt (released rb)
                    (st\<lparr> txn_buffers := (txn_buffers st)(t \<mapsto> settle_staging_rollback vt rb b1) \<rparr>)))) of
        None \<Rightarrow> None
      | Some st1 \<Rightarrow> Some (case staged_wal st1 t of
            None \<Rightarrow> st1
          | Some es \<Rightarrow> st1\<lparr> staged_wal := (staged_wal st1)(t \<mapsto> take wal_start es) \<rparr>))"

definition store_staged_write_mark :: "txn_id \<Rightarrow> 'v staging_store \<Rightarrow> staged_write_mark option" where
  "store_staged_write_mark t st =
     (let n = staged_wal_len_for t st in
      case peek_txn_staging_mark t st of
        Some (jl, il) \<Rightarrow> Some \<lparr> staging_journal_len = jl, staging_index_len = il, staged_wal_len = n \<rparr>
      | None \<Rightarrow> if n > 0
                then Some \<lparr> staging_journal_len = 0, staging_index_len = 0, staged_wal_len = n \<rparr> else None)"

text \<open>
  The drain of the journal panics on a mark beyond its end; that panic is the
  error branch here.
\<close>

definition store_rollback_staged_writes ::
  "'v vertex_tables \<Rightarrow> txn_id \<Rightarrow> staged_write_mark \<Rightarrow> 'v staging_store
   \<Rightarrow> (undo_log_error, unit) result \<times> 'v staging_store" where
  "store_rollback_staged_writes vt t mark st =
     (case rewind_grouped_statement vt t (staging_journal_len mark, staging_index_len mark)
             (staged_wal_len mark) st of
        Some st1 \<Rightarrow> (Inr (), st1)
      | None \<Rightarrow> (Inl (UndoFailed ''panic''), st))"

definition discard_txn_staging_for ::
  "'v vertex_tables \<Rightarrow> txn_id \<Rightarrow> 'v staging_store \<Rightarrow> 'v staging_store" where
  "discard_txn_staging_for vt t st =
     (let st1 = (case txn_buffers st t of
                   None \<Rightarrow> st
                 | Some b \<Rightarrow> release_staged_reservations vt (fst (staging_clear b)) st)
      in st1\<lparr> txn_buffers := (txn_buffers st1)(t := None) \<rparr>)"

definition drop_staged_wal_for :: "txn_id \<Rightarrow> 'v staging_store \<Rightarrow> 'v staging_store" where
  "drop_staged_wal_for t st = st\<lparr> staged_wal := (staged_wal st)(t := None) \<rparr>"

definition abort_staged_writes ::
  "'v vertex_tables \<Rightarrow> txn_id \<Rightarrow> 'v staging_store \<Rightarrow> 'v staging_store" where
  "abort_staged_writes vt t st = discard_txn_staging_for vt t (drop_staged_wal_for t st)"

subsection \<open>Histories and invariants\<close>

datatype 'v staging_op =
    SgInsert label_id id_key nat "'v property_rows"
  | SgUpdate label_id id_key "'v property_rows"
  | SgPropertyDelete label_id id_key "string list"
  | SgDelete label_id id_key
  | SgIndex "'v staged_index_op"
  | SgResolve label_id id_key nat

fun run_staging :: "'v staging_op \<Rightarrow> 'v txn_staging \<Rightarrow> 'v txn_staging" where
  "run_staging (SgInsert l k r ps) s = snd (stage_insert l k r ps s)"
| "run_staging (SgUpdate l k cs) s = snd (stage_update l k cs s)"
| "run_staging (SgPropertyDelete l k cs) s = snd (stage_property_delete l k cs s)"
| "run_staging (SgDelete l k) s = snd (stage_delete l k s)"
| "run_staging (SgIndex op) s = stage_index_op op s"
| "run_staging (SgResolve l k i) s = cache_resolution l k i s"

definition same_rows :: "'v txn_staging \<Rightarrow> 'v txn_staging \<Rightarrow> bool" where
  "same_rows a b \<longleftrightarrow> inserts a = inserts b \<and> updates a = updates b \<and> deletes a = deletes b \<and>
     property_deletes a = property_deletes b"

definition reverts :: "'v txn_staging \<Rightarrow> 'v txn_staging \<Rightarrow> bool" where
  "reverts s s' \<longleftrightarrow> (\<exists>us. stg_journal s' = stg_journal s @ us \<and>
     same_rows (fold undo_staged (rev us) s') s) \<and>
     (\<exists>ops. index_ops s' = index_ops s @ ops) \<and> stg_write_ts s' = stg_write_ts s"

definition staged_keys :: "'v txn_staging \<Rightarrow> staged_key set" where
  "staged_keys s = dom (inserts s) \<union> dom (updates s) \<union> deletes s \<union> dom (property_deletes s)"

definition staging_inv :: "'v txn_staging \<Rightarrow> bool" where
  "staging_inv s \<longleftrightarrow> finite (staged_keys s) \<and> card (staged_keys s) \<le> MAX_TXN_STAGING_KEYS \<and>
     dom (inserts s) \<inter> deletes s = {}"

inductive staged_from :: "'v txn_staging \<Rightarrow> 'v txn_staging \<Rightarrow> bool" where
  sf_start: "staged_from s s"
| sf_op: "staged_from s s1 \<Longrightarrow> staged_from s (run_staging op s1)"
| sf_rollback: "staged_from s s1 \<Longrightarrow> staged_from s1 s2 \<Longrightarrow>
    rollback_to (staging_mark s1) s2 = Some (rb, s3) \<Longrightarrow> staged_from s s3"

subsection \<open>Rolling back undoes the journal\<close>

lemma same_rows_refl [simp]: "same_rows s s"
  by (simp add: same_rows_def)

lemma same_rows_trans: "same_rows a b \<Longrightarrow> same_rows b c \<Longrightarrow> same_rows a c"
  by (simp add: same_rows_def)

lemma undo_staged_same_rows: "same_rows a b \<Longrightarrow> same_rows (undo_staged u a) (undo_staged u b)"
  by (cases u) (simp_all add: same_rows_def)

lemma fold_undo_same_rows: "same_rows a b \<Longrightarrow> same_rows (fold undo_staged us a) (fold undo_staged us b)"
  by (induction us arbitrary: a b) (simp_all add: undo_staged_same_rows)

lemma undo_staged_frame [simp]:
  "stg_write_ts (undo_staged u s) = stg_write_ts s"
  "resolved (undo_staged u s) = resolved s"
  "stg_journal (undo_staged u s) = stg_journal s"
  "index_ops (undo_staged u s) = index_ops s"
  by (cases u; simp)+

lemma fold_undo_frame [simp]:
  "stg_write_ts (fold undo_staged us s) = stg_write_ts s"
  "resolved (fold undo_staged us s) = resolved s"
  "index_ops (fold undo_staged us s) = index_ops s"
  by (induction us arbitrary: s) simp_all

lemma reverts_refl: "reverts s s"
  by (auto simp: reverts_def intro: exI [of _ "[]"])

lemma reverts_trans:
  assumes "reverts a b" "reverts b c"
  shows "reverts a c"
proof -
  obtain us where us: "stg_journal b = stg_journal a @ us" "same_rows (fold undo_staged (rev us) b) a"
    using assms(1) by (auto simp: reverts_def)
  obtain vs where vs: "stg_journal c = stg_journal b @ vs" "same_rows (fold undo_staged (rev vs) c) b"
    using assms(2) by (auto simp: reverts_def)
  have "same_rows (fold undo_staged (rev (us @ vs)) c) a"
    using same_rows_trans [OF fold_undo_same_rows [OF vs(2)] us(2)] by simp
  with us(1) vs(1) have "\<exists>ws. stg_journal c = stg_journal a @ ws \<and>
      same_rows (fold undo_staged (rev ws) c) a"
    by (auto intro: exI [of _ "us @ vs"])
  with assms show ?thesis by (auto simp: reverts_def)
qed

lemma reverts_one:
  "\<lbrakk> stg_journal s' = stg_journal s @ [u]; same_rows (undo_staged u s') s;
     index_ops s' = index_ops s; stg_write_ts s' = stg_write_ts s \<rbrakk> \<Longrightarrow> reverts s s'"
  by (auto simp: reverts_def intro: exI [of _ "[u]"])

lemma put_reverts [intro]:
  "reverts s (put_insert p v s)"
  "reverts s (put_update p w s)"
  "reverts s (put_delete p b s)"
  "reverts s (put_property_delete p d s)"
  by (rule reverts_one, auto simp: put_insert_def record_inserts_def put_update_def record_updates_def
      put_delete_def record_deletes_def put_property_delete_def record_property_deletes_def
      same_rows_def split: if_splits)+

lemma optional_puts_reverts [intro]:
  "reverts s (retain_property_deletes p ns s)"
  "reverts s (drop_update p s)"
  "reverts s (drop_property_delete p s)"
  by (auto simp: retain_property_deletes_def drop_update_def drop_property_delete_def
      intro: reverts_refl split: option.splits)

lemma frame_reverts [intro]:
  "reverts s (stage_index_op op s)"
  "reverts s (cache_resolution l k i s)"
  by (auto simp: reverts_def stage_index_op_def cache_resolution_def same_rows_def
      intro: exI [of _ "[]"])

lemmas reverts_steps = put_reverts optional_puts_reverts
  put_reverts [THEN reverts_trans [rotated]] optional_puts_reverts [THEN reverts_trans [rotated]]

lemma stage_insert_reverts: "reverts s (snd (stage_insert l k r ps s))"
  by (auto simp: stage_insert_def Let_def split: sum.splits intro!: reverts_steps reverts_refl)

lemma stage_update_reverts: "reverts s (snd (stage_update l k cs s))"
  by (auto simp: stage_update_def Let_def split: sum.splits option.splits
      intro!: reverts_steps reverts_refl)

lemma stage_property_delete_reverts: "reverts s (snd (stage_property_delete l k cs s))"
  by (auto simp: stage_property_delete_def Let_def split: sum.splits option.splits
      intro!: reverts_steps reverts_refl)

lemma stage_delete_reverts: "reverts s (snd (stage_delete l k s))"
  by (auto simp: stage_delete_def Let_def split: sum.splits option.splits
      intro!: reverts_steps reverts_refl)

lemma run_staging_reverts: "reverts s (run_staging op s)"
  by (cases op) (auto simp: stage_insert_reverts stage_update_reverts
      stage_property_delete_reverts stage_delete_reverts)

lemma rollback_to_mark:
  assumes "reverts s s'"
  shows "rollback_to (staging_mark s) s' = Some
    (\<lparr> released = held_ids s' - held_ids s,
       reclaimed = {(l, k, i). \<exists>row. inserts s (l, k) = Some (i, row) \<and> (l, i) \<notin> held_ids s'} \<rparr>,
     s\<lparr> resolved := resolved s' \<rparr>)"
proof -
  obtain us where us: "stg_journal s' = stg_journal s @ us" "same_rows (fold undo_staged (rev us) s') s"
    using assms by (auto simp: reverts_def)
  obtain ops where ops: "index_ops s' = index_ops s @ ops" and ts: "stg_write_ts s' = stg_write_ts s"
    using assms by (auto simp: reverts_def)
  have "(fold undo_staged (rev us) s')\<lparr> stg_journal := stg_journal s, index_ops := index_ops s \<rparr>
      = s\<lparr> resolved := resolved s' \<rparr>"
    using us(2) ts by (simp add: same_rows_def txn_staging.equality)
  moreover have "held_ids (s\<lparr> resolved := resolved s' \<rparr>) = held_ids s"
    by (simp add: held_ids_def)
  ultimately show ?thesis
    using us ops by (simp add: rollback_to_def staging_mark_def Let_def same_rows_def)
qed

lemma reverts_resolved: "reverts s (t\<lparr> resolved := r \<rparr>) \<longleftrightarrow> reverts s t"
proof -
  have "same_rows (fold undo_staged us (t\<lparr> resolved := r \<rparr>)) (fold undo_staged us t)" for us
    by (rule fold_undo_same_rows) (simp add: same_rows_def)
  hence "same_rows (fold undo_staged us (t\<lparr> resolved := r \<rparr>)) s \<longleftrightarrow>
      same_rows (fold undo_staged us t) s" for us
    by (simp add: same_rows_def)
  thus ?thesis by (simp add: reverts_def)
qed

lemma staged_from_reverts: "staged_from s s' \<Longrightarrow> reverts s s'"
proof (induction rule: staged_from.induct)
  case (sf_op s s1 op)
  thus ?case using reverts_trans run_staging_reverts by blast
next
  case (sf_rollback s s1 s2 rb s3)
  thus ?case by (auto simp: reverts_resolved rollback_to_mark)
qed (rule reverts_refl)

text \<open>
  C16.  Whatever a transaction stages after a mark (inserts, updates, column
  deletions, deletes, index operations, nested rollbacks to later marks), rolling
  back to the mark does not panic, brings every map, the journal and the index
  operations back to what they were, and reports exactly the identifiers dropped
  and claimed again.  Only the cache of resolved identifiers keeps its growth.
\<close>

theorem staging_rollback_restores:
  assumes "staged_from s s'"
  shows "rollback_to (staging_mark s) s' = Some
    (\<lparr> released = held_ids s' - held_ids s,
       reclaimed = {(l, k, i). \<exists>row. inserts s (l, k) = Some (i, row) \<and> (l, i) \<notin> held_ids s'} \<rparr>,
     s\<lparr> resolved := resolved s' \<rparr>)"
  by (rule rollback_to_mark [OF staged_from_reverts [OF assms]])

theorem staging_rollback_restores_witness:
  "\<exists>rb s''. rollback_to (0, 0) (run_staging (SgDelete 1 (IdInt 7))
      (run_staging (SgInsert 1 (IdInt 7) 3 [(''a'', True)]) (staging_new 5))) = Some (rb, s'') \<and>
     released rb = {} \<and> s'' = staging_new 5"
proof -
  let ?s = "staging_new 5 :: bool txn_staging"
  let ?t = "run_staging (SgDelete 1 (IdInt 7)) (run_staging (SgInsert 1 (IdInt 7) 3 [(''a'', True)]) ?s)"
  have run: "staged_from ?s ?t" by (intro sf_op sf_start)
  have cap: "ensure_capacity ?s = Inr ()"
    by (simp add: ensure_capacity_def staging_len_def staging_new_def MAX_TXN_STAGING_KEYS_def)
  have new: "counts_as_new (1, IdInt 7) ?s" by (simp add: counts_as_new_def staging_new_def)
  have "resolved ?t = resolved ?s" "held_ids ?t = {}"
    using cap new by (simp_all add: stage_insert_def stage_delete_def put_insert_def record_inserts_def
        drop_update_def drop_property_delete_def staging_new_def held_ids_def Let_def)
  thus ?thesis
    using staging_rollback_restores [OF run] by (simp add: staging_mark_def staging_new_def)
qed

subsection \<open>Bounds and disjointness\<close>

lemma put_fields [simp]:
  "inserts (put_insert p v s) = (inserts s)(p := v)" "updates (put_insert p v s) = updates s"
  "deletes (put_insert p v s) = deletes s" "property_deletes (put_insert p v s) = property_deletes s"
  "inserts (put_update p w s) = inserts s" "updates (put_update p w s) = (updates s)(p := w)"
  "deletes (put_update p w s) = deletes s" "property_deletes (put_update p w s) = property_deletes s"
  "inserts (put_delete p b s) = inserts s" "updates (put_delete p b s) = updates s"
  "deletes (put_delete p b s) = (if b then insert p (deletes s) else deletes s - {p})"
  "property_deletes (put_delete p b s) = property_deletes s"
  "inserts (put_property_delete p d s) = inserts s" "updates (put_property_delete p d s) = updates s"
  "deletes (put_property_delete p d s) = deletes s"
  "property_deletes (put_property_delete p d s) = (property_deletes s)(p := d)"
  by (simp_all add: put_insert_def record_inserts_def put_update_def record_updates_def
      put_delete_def record_deletes_def put_property_delete_def record_property_deletes_def)

lemma staging_inv_new: "staging_inv (staging_new ts)"
  by (simp add: staging_inv_def staged_keys_def staging_new_def)

lemma staging_inv_rows: "same_rows a b \<Longrightarrow> staging_inv a = staging_inv b"
  by (simp add: same_rows_def staging_inv_def staged_keys_def)

lemma card_staged_keys_le: "card (staged_keys s) \<le> staging_len s"
proof -
  have "card (staged_keys s) \<le> card (dom (inserts s) \<union> dom (updates s) \<union> deletes s) +
      card (dom (property_deletes s))"
    unfolding staged_keys_def by (rule card_Un_le)
  also have "card (dom (inserts s) \<union> dom (updates s) \<union> deletes s) \<le>
      card (dom (inserts s) \<union> dom (updates s)) + card (deletes s)" by (rule card_Un_le)
  also have "card (dom (inserts s) \<union> dom (updates s)) \<le> card (dom (inserts s)) + card (dom (updates s))"
    by (rule card_Un_le)
  finally show ?thesis by (simp add: staging_len_def)
qed

lemma staging_inv_shrink:
  "\<lbrakk> staging_inv s; staged_keys s' \<subseteq> staged_keys s; dom (inserts s') \<inter> deletes s' = {} \<rbrakk>
   \<Longrightarrow> staging_inv s'"
  unfolding staging_inv_def by (meson card_mono finite_subset le_trans)

lemma staging_inv_grow:
  assumes "staging_inv s" "staged_keys s' \<subseteq> insert p (staged_keys s)"
    "dom (inserts s') \<inter> deletes s' = {}"
    "p \<in> staged_keys s \<or> ensure_capacity s = Inr ()"
  shows "staging_inv s'"
proof (cases "p \<in> staged_keys s")
  case True
  with assms show ?thesis by (auto intro: staging_inv_shrink [of s] simp: insert_absorb)
next
  case False
  with assms(4) have "card (staged_keys s) < MAX_TXN_STAGING_KEYS"
    using card_staged_keys_le [of s] by (auto simp: ensure_capacity_def split: if_splits)
  moreover have fin: "finite (insert p (staged_keys s))"
    using assms(1) by (simp add: staging_inv_def)
  moreover have "card (staged_keys s') \<le> card (insert p (staged_keys s))"
    by (rule card_mono [OF fin assms(2)])
  ultimately show ?thesis
    using assms False finite_subset [OF assms(2) fin] by (auto simp: staging_inv_def)
qed

lemma counts_as_new_iff: "counts_as_new p s \<longleftrightarrow> p \<notin> staged_keys s"
  by (auto simp: counts_as_new_def staged_keys_def)

lemma checked_capacity:
  "(if counts_as_new p s then ensure_capacity s else Inr ()) = Inr u \<Longrightarrow>
   p \<in> staged_keys s \<or> ensure_capacity s = Inr ()"
  by (auto simp: counts_as_new_iff split: if_splits)

lemma keys_disjoint: "staging_inv s \<Longrightarrow> inserts s p = Some x \<Longrightarrow> p \<notin> deletes s"
  by (auto simp: staging_inv_def)

lemma optional_put_fields [simp]:
  "inserts (retain_property_deletes p ns s) = inserts s"
  "updates (retain_property_deletes p ns s) = updates s"
  "deletes (retain_property_deletes p ns s) = deletes s"
  "inserts (drop_update p s) = inserts s" "updates (drop_update p s) = (updates s)(p := None)"
  "deletes (drop_update p s) = deletes s" "property_deletes (drop_update p s) = property_deletes s"
  "inserts (drop_property_delete p s) = inserts s" "updates (drop_property_delete p s) = updates s"
  "deletes (drop_property_delete p s) = deletes s"
  "property_deletes (drop_property_delete p s) = (property_deletes s)(p := None)"
  by (auto simp: retain_property_deletes_def drop_update_def drop_property_delete_def
      split: option.splits)

lemma retain_property_deletes_dom:
  "dom (property_deletes (retain_property_deletes p ns s)) \<subseteq> dom (property_deletes s)"
  by (auto simp: retain_property_deletes_def split: option.splits if_splits)

lemma stage_insert_inv:
  assumes "staging_inv s"
  shows "staging_inv (snd (stage_insert l k r ps s))"
proof (cases "if counts_as_new (l, k) s then ensure_capacity s else Inr ()")
  case (Inl e)
  thus ?thesis using assms by (simp add: stage_insert_def Let_def)
next
  case (Inr u)
  hence "staged_keys (snd (stage_insert l k r ps s)) \<subseteq> insert (l, k) (staged_keys s)"
    by (auto simp: stage_insert_def Let_def staged_keys_def split: if_splits)
  moreover have "dom (inserts (snd (stage_insert l k r ps s))) \<inter> deletes (snd (stage_insert l k r ps s)) = {}"
    using Inr assms by (auto simp: stage_insert_def Let_def staging_inv_def split: if_splits)
  ultimately show ?thesis using staging_inv_grow [OF assms] checked_capacity [OF Inr] by blast
qed

lemma stage_update_inv:
  assumes "staging_inv s"
  shows "staging_inv (snd (stage_update l k cs s))"
proof (cases "inserts s (l, k)")
  case (Some x)
  obtain i row where x: "x = (i, row)" by (cases x)
  have "staged_keys (snd (stage_update l k cs s)) \<subseteq> staged_keys s"
    using Some x retain_property_deletes_dom [of "(l, k)"]
    by (fastforce simp: stage_update_def Let_def staged_keys_def)
  moreover have "dom (inserts (snd (stage_update l k cs s))) \<inter> deletes (snd (stage_update l k cs s)) = {}"
    using Some x assms keys_disjoint [OF assms Some] by (auto simp: stage_update_def Let_def staging_inv_def)
  ultimately show ?thesis using assms by (blast intro: staging_inv_shrink)
next
  case None
  show ?thesis
  proof (cases "if counts_as_new (l, k) s then ensure_capacity s else Inr ()")
    case (Inl e)
    thus ?thesis using assms None by (simp add: stage_update_def Let_def)
  next
    case (Inr u)
    hence "staged_keys (snd (stage_update l k cs s)) \<subseteq> insert (l, k) (staged_keys s)"
      using None retain_property_deletes_dom [of "(l, k)" "map fst cs" s]
      by (auto simp: stage_update_def Let_def staged_keys_def split: if_splits)
    moreover have "dom (inserts (snd (stage_update l k cs s))) \<inter> deletes (snd (stage_update l k cs s)) = {}"
      using None Inr assms by (simp add: stage_update_def Let_def staging_inv_def)
    ultimately show ?thesis using staging_inv_grow [OF assms] checked_capacity [OF Inr] by blast
  qed
qed

lemma stage_property_delete_inv:
  assumes "staging_inv s"
  shows "staging_inv (snd (stage_property_delete l k cs s))"
proof (cases "cs = []")
  case True
  thus ?thesis using assms by (simp add: stage_property_delete_def)
next
  case cs: False
  let ?s' = "snd (stage_property_delete l k cs s)"
  show ?thesis
  proof (cases "inserts s (l, k)")
    case (Some x)
    obtain i row where x: "x = (i, row)" by (cases x)
    have "staged_keys ?s' \<subseteq> staged_keys s"
      using Some x retain_property_deletes_dom [of "(l, k)"] cs
      by (fastforce simp: stage_property_delete_def Let_def staged_keys_def)
    moreover have "dom (inserts ?s') \<inter> deletes ?s' = {}"
      using Some x assms keys_disjoint [OF assms Some] cs
      by (auto simp: stage_property_delete_def Let_def staging_inv_def)
    ultimately show ?thesis using assms by (blast intro: staging_inv_shrink)
  next
    case None
    show ?thesis
    proof (cases "if counts_as_new (l, k) s then ensure_capacity s else Inr ()")
      case (Inl e)
      thus ?thesis using assms None by (simp add: stage_property_delete_def Let_def)
    next
      case (Inr u)
      hence "staged_keys ?s' \<subseteq> insert (l, k) (staged_keys s)"
        using None cs by (auto simp: stage_property_delete_def Let_def staged_keys_def
            split: if_splits option.splits)
      moreover have "dom (inserts ?s') \<inter> deletes ?s' = {}"
        using None Inr assms cs
        by (auto simp: stage_property_delete_def Let_def staging_inv_def split: option.splits)
      ultimately show ?thesis using staging_inv_grow [OF assms] checked_capacity [OF Inr] by blast
    qed
  qed
qed

lemma stage_delete_inv:
  assumes "staging_inv s"
  shows "staging_inv (snd (stage_delete l k s))"
proof (cases "inserts s (l, k)")
  case (Some x)
  obtain i row where x: "x = (i, row)" by (cases x)
  have "staged_keys (snd (stage_delete l k s)) \<subseteq> staged_keys s"
    using Some x by (auto simp: stage_delete_def Let_def staged_keys_def split: if_splits)
  moreover have "dom (inserts (snd (stage_delete l k s))) \<inter> deletes (snd (stage_delete l k s)) = {}"
    using Some x assms by (auto simp: stage_delete_def Let_def staging_inv_def)
  ultimately show ?thesis using assms by (blast intro: staging_inv_shrink)
next
  case None
  let ?s1 = "drop_property_delete (l, k) (drop_update (l, k) s)"
  have inv1: "staging_inv ?s1"
    using assms by (rule staging_inv_shrink) (use assms in \<open>auto simp: staged_keys_def staging_inv_def\<close>)
  show ?thesis
  proof (cases "if (l, k) \<notin> deletes ?s1 then ensure_capacity ?s1 else Inr ()")
    case (Inl e)
    thus ?thesis using inv1 None by (simp add: stage_delete_def Let_def)
  next
    case (Inr u)
    hence "(l, k) \<in> staged_keys ?s1 \<or> ensure_capacity ?s1 = Inr ()"
      by (auto simp: staged_keys_def split: if_splits)
    moreover have "dom (inserts (put_delete (l, k) True ?s1)) \<inter> deletes (put_delete (l, k) True ?s1) = {}"
      using None assms by (auto simp: staging_inv_def)
    moreover have "staged_keys (put_delete (l, k) True ?s1) \<subseteq> insert (l, k) (staged_keys ?s1)"
      by (auto simp: staged_keys_def)
    ultimately have "staging_inv (put_delete (l, k) True ?s1)"
      using staging_inv_grow [OF inv1] by blast
    with Inr None show ?thesis by (simp add: stage_delete_def Let_def)
  qed
qed

lemma frame_ops_inv:
  "staging_inv (stage_index_op op s) = staging_inv s"
  "staging_inv (cache_resolution l k i s) = staging_inv s"
  by (simp_all add: stage_index_op_def cache_resolution_def staging_inv_def staged_keys_def)

lemma run_staging_inv: "staging_inv s \<Longrightarrow> staging_inv (run_staging op s)"
  by (cases op) (simp_all add: stage_insert_inv stage_update_inv stage_property_delete_inv
      stage_delete_inv frame_ops_inv)

text \<open>
  A buffer never stages more than the budget of distinct vertex keys, and a
  key is never both an insert and a pending delete, after any history of staging
  calls and rollbacks of an empty buffer.
\<close>

lemma staging_keys_bounded:
  assumes "staged_from (staging_new ts) s"
  shows "staging_inv s"
proof -
  have "staged_from s0 s \<Longrightarrow> staging_inv s0 \<Longrightarrow> staging_inv s" for s0 :: "'a txn_staging"
  proof (induction rule: staged_from.induct)
    case (sf_rollback s s1 s2 rb s3)
    hence "same_rows s3 s1"
      using rollback_to_mark [OF staged_from_reverts [OF sf_rollback.hyps(2)]]
      by (auto simp: same_rows_def)
    with sf_rollback show ?case by (simp add: staging_inv_rows)
  qed (simp_all add: run_staging_inv)
  with assms show ?thesis using staging_inv_new by blast
qed

end
