(* ===== verification/Journal.thy ===== *)
theory Journal
  imports UndoLog WalTypes
begin

text \<open>
  The mutation journal of a transaction
  (\<open>linkrs-transaction/src/mutation_journal.rs\<close>), the mutation results it is fed
  (\<open>types.rs\<close>) and the local write-ahead buffer derived from it
  (\<open>wal/buffer.rs\<close>).  The journal is the source of truth of a transaction:
  redo entries and outbox intents are views of it and a savepoint is a length
  of it.  The locale \<open>append_log\<close> is the contract of such a log (append and
  truncate, against a list); it is interpreted on the journal.  Log warnings,
  the memory estimates and the writer behind \<open>flush_to_writer\<close> are not modelled
  here.
\<close>

subsection \<open>Mutations\<close>

datatype mutation_entity_key = KeyVertex vertex_id | KeyEdge edge_identifier

datatype mutation_resource =
    ResVertex | ResEdge | ResVertexProperty | ResEdgeProperty | ResSchema | ResIndex
  | ResSequence | ResMacro | ResTypeAlias | ResSyncIntent | ResUnknown

definition from_wal_op :: "wal_op_type \<Rightarrow> mutation_resource" where
  "from_wal_op op = (case op of
      OpInsertVertex \<Rightarrow> ResVertex | OpDeleteVertex \<Rightarrow> ResVertex
    | OpInsertEdge \<Rightarrow> ResEdge | OpDeleteEdge \<Rightarrow> ResEdge
    | OpUpdateVertexProp \<Rightarrow> ResVertexProperty | OpAddVertexProp \<Rightarrow> ResVertexProperty
    | OpDeleteVertexProp \<Rightarrow> ResVertexProperty | OpRenameVertexProp \<Rightarrow> ResVertexProperty
    | OpUpdateEdgeProp \<Rightarrow> ResEdgeProperty | OpAddEdgeProp \<Rightarrow> ResEdgeProperty
    | OpDeleteEdgeProp \<Rightarrow> ResEdgeProperty | OpRenameEdgeProp \<Rightarrow> ResEdgeProperty
    | OpCreateVertexType \<Rightarrow> ResSchema | OpDeleteVertexType \<Rightarrow> ResSchema
    | OpCreateEdgeType \<Rightarrow> ResSchema | OpDeleteEdgeType \<Rightarrow> ResSchema
    | OpCreateSpace \<Rightarrow> ResSchema | OpDropSpace \<Rightarrow> ResSchema | OpClearSpace \<Rightarrow> ResSchema
    | OpCreateTagIndex \<Rightarrow> ResIndex | OpDropTagIndex \<Rightarrow> ResIndex
    | OpCreateEdgeIndex \<Rightarrow> ResIndex | OpDropEdgeIndex \<Rightarrow> ResIndex
    | OpUpdateSequence \<Rightarrow> ResSequence
    | OpCreateMacro \<Rightarrow> ResMacro | OpDropMacro \<Rightarrow> ResMacro
    | OpCreateTypeAlias \<Rightarrow> ResTypeAlias | OpDropTypeAlias \<Rightarrow> ResTypeAlias
    | OpOutboxIntent \<Rightarrow> ResSyncIntent
    | _ \<Rightarrow> ResUnknown)"

definition from_modified_table :: "string option \<Rightarrow> mutation_resource" where
  "from_modified_table t =
     (if t = Some ''vertex'' then ResVertex
      else if t = Some ''edge'' then ResEdge
      else if t = Some ''schema'' then ResSchema
      else if t = Some ''index'' then ResIndex
      else if t = Some ''sequence'' then ResSequence
      else if t = Some ''macro'' then ResMacro
      else if t = Some ''type_alias'' then ResTypeAlias
      else if t = Some ''sync'' then ResSyncIntent
      else ResUnknown)"

record 'v mutation_result =
  entity_keys :: "mutation_entity_key list"
  undo_entry :: "'v undo_log_entry option"
  redo_entry :: "wal_entry option"
  modified_table :: "string option"
  index_intents :: "outbox_intent list"
  resource :: mutation_resource

definition mutation_result_new :: "mutation_entity_key \<Rightarrow> 'v mutation_result" where
  "mutation_result_new k =
     \<lparr> entity_keys = [k], undo_entry = None, redo_entry = None, modified_table = None,
       index_intents = [], resource = ResUnknown \<rparr>"

definition with_undo :: "'v undo_log_entry \<Rightarrow> 'v mutation_result \<Rightarrow> 'v mutation_result" where
  "with_undo e m = m\<lparr> undo_entry := Some e \<rparr>"

definition with_redo :: "wal_entry \<Rightarrow> 'v mutation_result \<Rightarrow> 'v mutation_result" where
  "with_redo e m = (let m' = m\<lparr> redo_entry := Some e \<rparr> in
     if resource m' = ResUnknown then m'\<lparr> resource := from_wal_op (we_op e) \<rparr> else m')"

definition with_table :: "string \<Rightarrow> 'v mutation_result \<Rightarrow> 'v mutation_result" where
  "with_table t m = (let m' = m\<lparr> modified_table := Some t \<rparr> in
     if resource m' = ResUnknown then m'\<lparr> resource := from_modified_table (Some t) \<rparr> else m')"

definition with_resource :: "mutation_resource \<Rightarrow> 'v mutation_result \<Rightarrow> 'v mutation_result" where
  "with_resource r m = m\<lparr> resource := r \<rparr>"

definition with_index_intent :: "outbox_intent \<Rightarrow> 'v mutation_result \<Rightarrow> 'v mutation_result" where
  "with_index_intent i m = (let m' = m\<lparr> index_intents := index_intents m @ [i] \<rparr> in
     if resource m' = ResUnknown then m'\<lparr> resource := ResSyncIntent \<rparr> else m')"

subsection \<open>The journal\<close>

record 'v mutation_record =
  mr_sequence :: nat
  mr_transaction_id :: txn_id
  mr_entity_keys :: "mutation_entity_key list"
  mr_resource :: mutation_resource
  mr_undo :: "'v undo_log_entry option"
  mr_redo :: "wal_entry option"
  mr_index_intents :: "outbox_intent list"
  mr_modified_table :: "string option"
  mr_write_timestamp :: timestamp
  mr_commit_timestamp :: "timestamp option"

record 'v mutation_journal =
  records :: "'v mutation_record list"
  next_sequence :: nat

datatype journal_error =
    SequenceGap nat nat
  | InvalidWalOp nat
  | NextSequenceMismatch nat nat
  | TruncatedBeyondSavepoint nat nat
  | SavepointSequenceMismatch nat nat

definition journal_new :: "'v mutation_journal" where
  "journal_new = \<lparr> records = [], next_sequence = 0 \<rparr>"

definition journal_len :: "'v mutation_journal \<Rightarrow> nat" where
  "journal_len j = length (records j)"

definition journal_push :: "'v mutation_record \<Rightarrow> 'v mutation_journal \<Rightarrow> nat \<times> 'v mutation_journal" where
  "journal_push r j = (let seq = next_sequence j in
     (seq, \<lparr> records = records j @ [r\<lparr> mr_sequence := seq \<rparr>], next_sequence = seq + 1 \<rparr>))"

definition journal_truncate :: "nat \<Rightarrow> 'v mutation_journal \<Rightarrow> 'v mutation_journal" where
  "journal_truncate n j =
     (if n < length (records j)
      then (let rs = take n (records j) in \<lparr> records = rs, next_sequence = length rs \<rparr>)
      else j)"

definition journal_range :: "nat \<Rightarrow> nat \<Rightarrow> 'v mutation_journal \<Rightarrow> 'v mutation_record list" where
  "journal_range a b j = (let b' = min b (length (records j)); a' = min a b' in
     drop a' (take b' (records j)))"

fun check_records :: "nat \<Rightarrow> 'v mutation_record list \<Rightarrow> (journal_error, unit) result" where
  "check_records idx [] = Inr ()"
| "check_records idx (r # rs) =
     (if mr_sequence r \<noteq> idx then Inl (SequenceGap idx (mr_sequence r))
      else (case mr_redo r of
          None \<Rightarrow> check_records (idx + 1) rs
        | Some e \<Rightarrow> (case op_try_from (op_as_u8 (we_op e)) of
            Inl _ \<Rightarrow> Inl (InvalidWalOp (mr_sequence r))
          | Inr _ \<Rightarrow> check_records (idx + 1) rs)))"

definition check_invariants :: "'v mutation_journal \<Rightarrow> (journal_error, unit) result" where
  "check_invariants j = bind_result (check_records 0 (records j)) (\<lambda>_.
     if next_sequence j \<noteq> length (records j)
     then Inl (NextSequenceMismatch (next_sequence j) (length (records j))) else Inr ())"

definition total_redo_entries :: "'v mutation_journal \<Rightarrow> nat" where
  "total_redo_entries j = length (filter (\<lambda>r. mr_redo r \<noteq> None) (records j))"

definition total_intents :: "'v mutation_journal \<Rightarrow> nat" where
  "total_intents j = sum_list (map (\<lambda>r. length (mr_index_intents r)) (records j))"

definition redo_entries :: "'v mutation_journal \<Rightarrow> wal_entry list" where
  "redo_entries j = List.map_filter mr_redo (records j)"

definition wal_intents :: "'v mutation_journal \<Rightarrow> outbox_intent list" where
  "wal_intents j = concat (map mr_index_intents (records j))"

definition journal_publish_commit_timestamp ::
  "timestamp \<Rightarrow> 'v mutation_journal \<Rightarrow> 'v mutation_journal" where
  "journal_publish_commit_timestamp ts j = j\<lparr> records := map (\<lambda>r.
     if mr_commit_timestamp r = None then r\<lparr> mr_commit_timestamp := Some ts \<rparr> else r) (records j) \<rparr>"

definition validate_against :: "nat \<Rightarrow> nat \<Rightarrow> 'v mutation_journal \<Rightarrow> (journal_error, unit) result" where
  "validate_against len nxt j =
     (if len > journal_len j then Inl (TruncatedBeyondSavepoint len (journal_len j))
      else if nxt \<noteq> len then Inl (SavepointSequenceMismatch nxt len)
      else Inr ())"

subsection \<open>The local write-ahead buffer\<close>

record local_wal_buffer =
  buf_entries :: "wal_entry list"
  buf_intents :: "outbox_intent list"
  buffered_bytes :: nat

definition local_wal_new :: local_wal_buffer where
  "local_wal_new = \<lparr> buf_entries = [], buf_intents = [], buffered_bytes = 0 \<rparr>"

definition append_full_entry :: "wal_entry \<Rightarrow> local_wal_buffer \<Rightarrow> (wal_error, unit) result \<times> local_wal_buffer" where
  "append_full_entry e b =
     (Inr (), b\<lparr> buf_entries := buf_entries b @ [e],
                 buffered_bytes := buffered_bytes b + (length (we_payload e) + 1 + 8) \<rparr>)"

definition append_intent :: "outbox_intent \<Rightarrow> local_wal_buffer \<Rightarrow> (wal_error, unit) result \<times> local_wal_buffer" where
  "append_intent i b = (case intent_validate i of
      Inl e \<Rightarrow> (Inl e, b)
    | Inr _ \<Rightarrow> (Inr (), b\<lparr> buf_intents := buf_intents b @ [i],
                 buffered_bytes := buffered_bytes b + (4 + length (document_or_vector (mutation i)) + 64) \<rparr>))"

definition local_wal_is_empty :: "local_wal_buffer \<Rightarrow> bool" where
  "local_wal_is_empty b \<longleftrightarrow> buf_entries b = [] \<and> buf_intents b = []"

definition local_wal_clear :: "local_wal_buffer \<Rightarrow> local_wal_buffer" where
  "local_wal_clear b = b\<lparr> buf_entries := [], buf_intents := [], buffered_bytes := 0 \<rparr>"

definition rebuild_derived_logs :: "'v mutation_journal \<Rightarrow> local_wal_buffer \<Rightarrow> local_wal_buffer" where
  "rebuild_derived_logs j b =
     fold (\<lambda>i b. snd (append_intent i b)) (wal_intents j)
       (fold (\<lambda>e b. snd (append_full_entry e b)) (redo_entries j) (local_wal_clear b))"

subsection \<open>Invariants and histories\<close>

definition journal_inv :: "'v mutation_journal \<Rightarrow> bool" where
  "journal_inv j \<longleftrightarrow> map mr_sequence (records j) = [0..<length (records j)] \<and>
     next_sequence j = length (records j)"

datatype 'r history_op = LogPush 'r | LogTruncate nat

fun run_log :: "('r \<Rightarrow> 'j \<Rightarrow> 'j) \<Rightarrow> (nat \<Rightarrow> 'j \<Rightarrow> 'j) \<Rightarrow> 'r history_op list \<Rightarrow> 'j \<Rightarrow> 'j" where
  "run_log push trunc [] j = j"
| "run_log push trunc (LogPush r # ops) j = run_log push trunc ops (push r j)"
| "run_log push trunc (LogTruncate n # ops) j = run_log push trunc ops (trunc n j)"

fun log_op_above :: "nat \<Rightarrow> 'r history_op \<Rightarrow> bool" where
  "log_op_above n (LogPush r) = True"
| "log_op_above n (LogTruncate m) = (n \<le> m)"

definition push_journal :: "'v mutation_record \<Rightarrow> 'v mutation_journal \<Rightarrow> 'v mutation_journal" where
  "push_journal r j = snd (journal_push r j)"

definition demo_record :: "txn_id \<Rightarrow> nat mutation_record" where
  "demo_record t =
     \<lparr> mr_sequence = 7, mr_transaction_id = t, mr_entity_keys = [], mr_resource = ResVertex,
       mr_undo = None, mr_redo = Some (wal_entry_new OpInsertVertex 3 [1, 2]),
       mr_index_intents = [], mr_modified_table = Some ''vertex'', mr_write_timestamp = 3,
       mr_commit_timestamp = None \<rparr>"

subsection \<open>The contract of an append-only log with savepoints\<close>

locale append_log =
  fixes content :: "'j \<Rightarrow> 'r list"
    and push :: "'r \<Rightarrow> 'j \<Rightarrow> 'j"
    and trunc :: "nat \<Rightarrow> 'j \<Rightarrow> 'j"
    and stamp :: "nat \<Rightarrow> 'r \<Rightarrow> 'r"
    and valid :: "'j \<Rightarrow> bool"
  assumes push_content: "valid j \<Longrightarrow> content (push r j) = content j @ [stamp (length (content j)) r]"
    and push_valid: "valid j \<Longrightarrow> valid (push r j)"
    and trunc_content: "valid j \<Longrightarrow> content (trunc n j) = take n (content j)"
    and trunc_valid: "valid j \<Longrightarrow> valid (trunc n j)"
    and content_inject: "valid j \<Longrightarrow> valid k \<Longrightarrow> content j = content k \<Longrightarrow> j = k"
begin

lemma run_valid: "valid j \<Longrightarrow> valid (run_log push trunc ops j)"
proof (induction ops arbitrary: j)
  case (Cons a ops)
  then show ?case by (cases a) (simp_all add: push_valid trunc_valid)
qed simp

lemma run_keeps_prefix:
  assumes "valid j" "n \<le> length (content j)" "list_all (log_op_above n) ops"
  shows "n \<le> length (content (run_log push trunc ops j)) \<and>
    take n (content (run_log push trunc ops j)) = take n (content j)"
  using assms
proof (induction ops arbitrary: j)
  case (Cons a ops)
  then show ?case
    by (cases a) (simp_all add: push_content push_valid trunc_content trunc_valid min_def)
qed simp

lemma savepoint_restores:
  assumes "valid j" "list_all (log_op_above (length (content j))) ops"
  shows "trunc (length (content j)) (run_log push trunc ops j) = j"
proof (rule content_inject)
  show "valid (trunc (length (content j)) (run_log push trunc ops j))"
    using assms(1) by (intro trunc_valid run_valid)
  show "content (trunc (length (content j)) (run_log push trunc ops j)) = content j"
    using run_keeps_prefix [OF assms(1) order_refl assms(2)] run_valid [OF assms(1)]
    by (simp add: trunc_content)
qed (rule assms(1))

end

subsection \<open>The journal keeps the contract\<close>

lemma check_records_Inr:
  "check_records idx rs = Inr () \<longleftrightarrow> map mr_sequence rs = [idx..<idx + length rs]"
proof (induction rs arbitrary: idx)
  case (Cons r rs)
  have "[idx..<idx + length (r # rs)] = idx # [idx + 1..<(idx + 1) + length rs]"
    by (simp add: upt_conv_Cons del: upt_Suc)
  then show ?case using Cons.IH [of "idx + 1"] by (auto split: option.splits simp del: upt_Suc)
qed simp

lemma check_invariants_iff: "check_invariants j = Inr () \<longleftrightarrow> journal_inv j"
  by (auto simp: check_invariants_def journal_inv_def check_records_Inr)

lemma journal_inv_new [simp]: "journal_inv journal_new"
  by (simp add: journal_inv_def journal_new_def)

lemma journal_inv_push: "journal_inv j \<Longrightarrow> journal_inv (push_journal r j)"
  by (simp add: journal_inv_def push_journal_def journal_push_def Let_def)

lemma journal_inv_truncate: "journal_inv j \<Longrightarrow> journal_inv (journal_truncate n j)"
  by (auto simp: journal_inv_def journal_truncate_def Let_def take_map [symmetric])

lemma journal_inv_publish:
  "journal_inv j \<Longrightarrow> journal_inv (journal_publish_commit_timestamp ts j)"
  by (simp add: journal_inv_def journal_publish_commit_timestamp_def o_def if_distrib [of mr_sequence]
      cong: if_cong)

lemma records_push:
  "journal_inv j \<Longrightarrow>
   records (push_journal r j) = records j @ [r\<lparr> mr_sequence := length (records j) \<rparr>]"
  by (simp add: journal_inv_def push_journal_def journal_push_def Let_def)

lemma records_truncate: "records (journal_truncate n j) = take n (records j)"
  by (simp add: journal_truncate_def Let_def)

lemma journal_eqI:
  "journal_inv j \<Longrightarrow> journal_inv k \<Longrightarrow> records j = records k \<Longrightarrow> j = k"
  by (simp add: journal_inv_def)

interpretation mj: append_log records push_journal journal_truncate
  "\<lambda>n r. r\<lparr> mr_sequence := n \<rparr>" journal_inv
  by unfold_locales (auto intro: journal_inv_push journal_inv_truncate journal_eqI
      simp: records_push records_truncate)

lemma redo_entries_push:
  "redo_entries (push_journal r j) = redo_entries j @ (case mr_redo r of None \<Rightarrow> [] | Some e \<Rightarrow> [e])"
  by (simp add: redo_entries_def push_journal_def journal_push_def Let_def List.map_filter_def
      split: option.splits)

lemma wal_intents_push: "wal_intents (push_journal r j) = wal_intents j @ mr_index_intents r"
  by (simp add: wal_intents_def push_journal_def journal_push_def Let_def)

lemma total_views:
  "total_redo_entries j = length (redo_entries j)" "total_intents j = length (wal_intents j)"
  by (simp_all add: total_redo_entries_def redo_entries_def List.map_filter_def total_intents_def
      wal_intents_def length_concat o_def)

lemma fold_append_full_entry:
  "buf_entries (fold (\<lambda>e b. snd (append_full_entry e b)) es b) = buf_entries b @ es \<and>
   buf_intents (fold (\<lambda>e b. snd (append_full_entry e b)) es b) = buf_intents b"
  by (induction es arbitrary: b) (simp_all add: append_full_entry_def)

lemma fold_append_intent:
  "buf_entries (fold (\<lambda>i b. snd (append_intent i b)) is b) = buf_entries b \<and>
   buf_intents (fold (\<lambda>i b. snd (append_intent i b)) is b) =
     buf_intents b @ filter (\<lambda>i. intent_validate i = Inr ()) is"
  by (induction "is" arbitrary: b) (simp_all add: append_intent_def split: sum.splits)

subsection \<open>Properties\<close>

text \<open>
  A savepoint is a journal length: whatever a transaction appends
  afterwards, and whatever later savepoints it rolls back to, truncating to
  that length gives back the journal of the savepoint, records, sequence
  numbers and next sequence.
\<close>

lemma journal_savepoint_restores:
  assumes "check_invariants j = Inr ()" "list_all (log_op_above (journal_len j)) ops"
  shows "journal_truncate (journal_len j) (run_log push_journal journal_truncate ops j) = j \<and>
    check_invariants (run_log push_journal journal_truncate ops j) = Inr ()"
  using assms mj.savepoint_restores mj.run_valid
  by (auto simp: check_invariants_iff journal_len_def)

text \<open>
  Rebuilding the local write-ahead buffer makes it the redo view of the
  journal whatever it held before; of the outbox intents it keeps, in order,
  exactly those that validate and drops the others without an error.
\<close>

lemma rebuild_derived_mirrors:
  "buf_entries (rebuild_derived_logs j b) = redo_entries j \<and>
   buf_intents (rebuild_derived_logs j b) =
     filter (\<lambda>i. intent_validate i = Inr ()) (wal_intents j)"
  by (simp add: rebuild_derived_logs_def fold_append_full_entry fold_append_intent local_wal_clear_def)

end
