(* ===== verification/WriteSet.thy ===== *)
theory WriteSet
  imports StorageIds
begin

text \<open>
  Write sets, read ranges and the SSI resources of
  \<open>linkrs-transaction/src/types/writeset.rs\<close>, with the conflict tests of
  \<open>conflict.rs\<close>.  Hash sets are sets; a loop that returns at the first hit of
  a hash set is an existential over it.  The locale \<open>conflict_relation\<close> states
  what certification needs of the conflict test; it is interpreted on
  \<open>has_conflict_with\<close>.
\<close>

subsection \<open>Read ranges and resources\<close>

record read_range =
  range_label :: string
  range_column :: "string option"
  range_start :: "vertex_id option"
  range_end :: "vertex_id option"

definition read_range_new :: "string \<Rightarrow> read_range" where
  "read_range_new lbl =
     \<lparr> range_label = lbl, range_column = None, range_start = None, range_end = None \<rparr>"

definition with_column :: "string \<Rightarrow> read_range \<Rightarrow> read_range" where
  "with_column col r = r\<lparr> range_column := Some col \<rparr>"

definition with_start :: "vertex_id \<Rightarrow> read_range \<Rightarrow> read_range" where
  "with_start v r = r\<lparr> range_start := Some v \<rparr>"

definition with_end :: "vertex_id \<Rightarrow> read_range \<Rightarrow> read_range" where
  "with_end v r = r\<lparr> range_end := Some v \<rparr>"

definition range_contains :: "read_range \<Rightarrow> vertex_id \<Rightarrow> bool" where
  "range_contains r v =
     (if (case range_start r of
            Some s \<Rightarrow> slice_cmp (as_bytes v) (as_bytes s) = Less | None \<Rightarrow> False) then False
      else if (case range_end r of
            Some e \<Rightarrow> slice_cmp (as_bytes v) (as_bytes e) = Greater | None \<Rightarrow> False) then False
      else True)"

datatype resource_id =
    RVertex vertex_id
  | REdge edge_identifier
  | RSchema string
  | RIndex string

record ssi_state =
  read_resources :: "resource_id set"
  write_resources :: "resource_id set"

definition ssi_state_new :: ssi_state where
  "ssi_state_new = \<lparr> read_resources = {}, write_resources = {} \<rparr>"

definition ssi_record_read :: "resource_id \<Rightarrow> ssi_state \<Rightarrow> ssi_state" where
  "ssi_record_read r s = s\<lparr> read_resources := insert r (read_resources s) \<rparr>"

definition ssi_record_write :: "resource_id \<Rightarrow> ssi_state \<Rightarrow> ssi_state" where
  "ssi_record_write r s = s\<lparr> write_resources := insert r (write_resources s) \<rparr>"

definition ssi_is_empty :: "ssi_state \<Rightarrow> bool" where
  "ssi_is_empty s \<longleftrightarrow> read_resources s = {} \<and> write_resources s = {}"

subsection \<open>Write sets\<close>

record write_set =
  vertices :: "vertex_id set"
  edges :: "edge_identifier set"
  edge_endpoints :: "vertex_id set"
  deleted_vertices :: "vertex_id set"
  schema_resources :: "string set"
  index_resources :: "string set"
  read_ranges :: "read_range list"

definition write_set_new :: write_set where
  "write_set_new =
     \<lparr> vertices = {}, edges = {}, edge_endpoints = {}, deleted_vertices = {},
       schema_resources = {}, index_resources = {}, read_ranges = [] \<rparr>"

definition record_vertex :: "vertex_id \<Rightarrow> write_set \<Rightarrow> write_set" where
  "record_vertex v ws = ws\<lparr> vertices := insert v (vertices ws) \<rparr>"

definition record_vertex_delete :: "vertex_id \<Rightarrow> write_set \<Rightarrow> write_set" where
  "record_vertex_delete v ws =
     ws\<lparr> vertices := insert v (vertices ws), deleted_vertices := insert v (deleted_vertices ws) \<rparr>"

definition record_edge :: "edge_identifier \<Rightarrow> write_set \<Rightarrow> write_set" where
  "record_edge e ws =
     ws\<lparr> edge_endpoints := insert (dst_vid e) (insert (src_vid e) (edge_endpoints ws)),
         edges := insert e (edges ws) \<rparr>"

definition record_schema_resource :: "string \<Rightarrow> write_set \<Rightarrow> write_set" where
  "record_schema_resource r ws = ws\<lparr> schema_resources := insert r (schema_resources ws) \<rparr>"

definition record_index_resource :: "string \<Rightarrow> write_set \<Rightarrow> write_set" where
  "record_index_resource r ws = ws\<lparr> index_resources := insert r (index_resources ws) \<rparr>"

definition record_read_range :: "read_range \<Rightarrow> write_set \<Rightarrow> write_set" where
  "record_read_range r ws = ws\<lparr> read_ranges := read_ranges ws @ [r] \<rparr>"

definition covers_vertex :: "write_set \<Rightarrow> vertex_id \<Rightarrow> bool" where
  "covers_vertex ws v \<longleftrightarrow> v \<in> vertices ws"

definition covers_edge :: "write_set \<Rightarrow> edge_identifier \<Rightarrow> bool" where
  "covers_edge ws e \<longleftrightarrow> e \<in> edges ws"

definition has_read_range_conflict_with :: "write_set \<Rightarrow> write_set \<Rightarrow> bool" where
  "has_read_range_conflict_with ws committed \<longleftrightarrow>
     (\<exists>r \<in> set (read_ranges ws).
        (\<exists>v \<in> vertices committed. range_contains r v) \<or>
        (\<exists>e \<in> edges committed. range_contains r (src_vid e) \<or> range_contains r (dst_vid e)))"

definition has_read_conflict_with :: "write_set \<Rightarrow> write_set \<Rightarrow> bool" where
  "has_read_conflict_with ws committed =
     (if \<exists>v \<in> vertices committed. v \<in> vertices ws then True
      else if \<exists>e \<in> edges committed. e \<in> edges ws then True
      else if schema_resources ws \<inter> schema_resources committed \<noteq> {} \<or>
              index_resources ws \<inter> index_resources committed \<noteq> {} then True
      else has_read_range_conflict_with ws committed)"

definition ws_is_empty :: "write_set \<Rightarrow> bool" where
  "ws_is_empty ws \<longleftrightarrow>
     vertices ws = {} \<and> edges ws = {} \<and> schema_resources ws = {} \<and> index_resources ws = {} \<and>
     read_ranges ws = []"

definition is_empty_for_certification :: "write_set \<Rightarrow> bool" where
  "is_empty_for_certification ws = ws_is_empty ws"

definition ws_size :: "write_set \<Rightarrow> nat" where
  "ws_size ws = card (vertices ws) + card (edges ws)"

definition ssi_resources :: "write_set \<Rightarrow> resource_id set" where
  "ssi_resources ws =
     RVertex ` vertices ws \<union> REdge ` edges ws \<union>
     RSchema ` schema_resources ws \<union> RIndex ` index_resources ws"

definition has_conflict_with :: "write_set \<Rightarrow> write_set \<Rightarrow> bool" where
  "has_conflict_with ws other =
     (if vertices ws \<inter> vertices other \<noteq> {} then True
      else if edges ws \<inter> edges other \<noteq> {} then True
      else if deleted_vertices ws \<inter> edge_endpoints other \<noteq> {} \<or>
              deleted_vertices other \<inter> edge_endpoints ws \<noteq> {} then True
      else if schema_resources ws \<inter> schema_resources other \<noteq> {} \<or>
              index_resources ws \<inter> index_resources other \<noteq> {} then True
      else if (schema_resources ws \<noteq> {} \<and> (vertices other \<noteq> {} \<or> edges other \<noteq> {})) \<or>
              (schema_resources other \<noteq> {} \<and> (vertices ws \<noteq> {} \<or> edges ws \<noteq> {})) then True
      else False)"

subsection \<open>Conflict analysis\<close>

definition have_write_conflict :: "write_set \<Rightarrow> write_set \<Rightarrow> bool" where
  "have_write_conflict a b = has_conflict_with a b"

definition conflicts_on_vertex :: "write_set \<Rightarrow> write_set \<Rightarrow> bool" where
  "conflicts_on_vertex a b \<longleftrightarrow> vertices a \<inter> vertices b \<noteq> {}"

definition conflicts_on_edge :: "write_set \<Rightarrow> write_set \<Rightarrow> bool" where
  "conflicts_on_edge a b \<longleftrightarrow> edges a \<inter> edges b \<noteq> {}"

definition has_local_write :: "write_set \<Rightarrow> vertex_id \<Rightarrow> bool" where
  "has_local_write writer v = covers_vertex writer v"

definition has_local_edge_write :: "write_set \<Rightarrow> edge_identifier \<Rightarrow> bool" where
  "has_local_edge_write writer e = covers_edge writer e"

definition ws_wf :: "write_set \<Rightarrow> bool" where
  "ws_wf ws \<longleftrightarrow> deleted_vertices ws \<subseteq> vertices ws \<and>
     edge_endpoints ws = src_vid ` edges ws \<union> dst_vid ` edges ws"

subsection \<open>The contract of a conflict test\<close>

locale conflict_relation =
  fixes conflicts :: "'w \<Rightarrow> 'w \<Rightarrow> bool"
    and idle :: "'w \<Rightarrow> bool"
  assumes conflict_sym: "conflicts a b = conflicts b a"
    and idle_free: "idle a \<Longrightarrow> \<not> conflicts a b"
begin

definition fcw :: "(nat \<times> nat \<times> 'w) list \<Rightarrow> bool" where
  "fcw h \<longleftrightarrow> (\<forall>(s1, c1, w1) \<in> set h. \<forall>(s2, c2, w2) \<in> set h.
     s2 < c1 \<and> c1 < c2 \<longrightarrow> \<not> conflicts w1 w2)"

lemma fcw_Nil [simp]: "fcw []"
  by (simp add: fcw_def)

lemma fcw_add:
  assumes h: "fcw h"
    and new: "\<And>s1 c1 w1. (s1, c1, w1) \<in> set h \<Longrightarrow> s < c1 \<Longrightarrow> \<not> conflicts w w1"
    and life: "s < c"
  shows "fcw (h @ [(s, c, w)])"
proof -
  have "\<not> conflicts w1 w" if "(s1, c1, w1) \<in> set h" "s < c1" for s1 c1 w1
    using new [OF that] conflict_sym by blast
  moreover have "\<not> conflicts w w2" if "(s2, c2, w2) \<in> set h" "c < c2" for s2 c2 w2
    using new [OF that(1)] that(2) life by simp
  ultimately show ?thesis using h by (auto simp: fcw_def)
qed

end

lemma has_conflict_sym: "has_conflict_with a b = has_conflict_with b a"
  by (auto simp: has_conflict_with_def)

lemma ws_wf_new: "ws_wf write_set_new"
  by (simp add: ws_wf_def write_set_new_def)

lemma ws_wf_record:
  assumes "ws_wf ws"
  shows "ws_wf (record_vertex v ws)" "ws_wf (record_vertex_delete v ws)"
    "ws_wf (record_edge e ws)" "ws_wf (record_schema_resource r ws)"
    "ws_wf (record_index_resource r ws)" "ws_wf (record_read_range rr ws)"
  using assms
  by (auto simp: ws_wf_def record_vertex_def record_vertex_delete_def record_edge_def
      record_schema_resource_def record_index_resource_def record_read_range_def)

lemma empty_no_conflict: "ws_wf ws \<Longrightarrow> ws_is_empty ws \<Longrightarrow> \<not> has_conflict_with ws other"
  by (auto simp: ws_wf_def ws_is_empty_def has_conflict_with_def)

interpretation cr: conflict_relation has_conflict_with "\<lambda>ws. ws_wf ws \<and> ws_is_empty ws"
  by unfold_locales (simp_all add: has_conflict_sym empty_no_conflict)

subsection \<open>Properties\<close>

lemma int_id_bytes:
  assumes "try_from_int64 i = Inr v"
  shows "vid_kind v = KInt" "as_bytes v = u64_to_be_bytes i" "wf_vid v" "0 \<le> sint i"
  using assms from_typed_bytes_fields by (auto simp: try_from_int64_Inr)

lemma int_id_cmp:
  assumes "try_from_int64 i = Inr v" "try_from_int64 j = Inr w"
  shows "vid_cmp v w = slice_cmp (as_bytes v) (as_bytes w)"
proof -
  note I = int_id_bytes [OF assms(1)] and J = int_id_bytes [OF assms(2)]
  have "vid_cmp v w = ord_cmp (sint i) (sint j)"
    using I J wf_int_bits(1) [OF I(3)] wf_int_bits(1) [OF J(3)] by (simp add: vid_cmp_def)
  also have "\<dots> = ord_cmp i j"
    using sint_nonneg_uint I(4) J(4)
    by (simp add: ord_cmp_def word_less_iff_unsigned [where ?'a = int] word_uint_eq_iff)
  also have "\<dots> = slice_cmp (as_bytes v) (as_bytes w)" using I(2) J(2) by (simp add: slice_cmp_u64)
  finally show ?thesis .
qed

text \<open>
  Phantom ranges agree with the identifier ordering.  For integer
  identifiers, the byte-wise range test that guards serialisable reads accepts
  exactly the identifiers that lie between the bounds in the ordering of
  vertex identifiers.
\<close>

lemma range_contains_int:
  assumes "try_from_int64 s = Inr vs" "try_from_int64 e = Inr ve" "try_from_int64 i = Inr v"
    "range_start r = Some vs" "range_end r = Some ve"
  shows "range_contains r v \<longleftrightarrow> vid_cmp vs v \<noteq> Greater \<and> vid_cmp v ve \<noteq> Greater"
  using assms int_id_cmp [OF assms(1,3)] int_id_cmp [OF assms(3,2)]
    slice_cmp_reverse [of "as_bytes v" "as_bytes vs"]
  by (cases "slice_cmp (as_bytes vs) (as_bytes v)") (simp_all add: range_contains_def)

end
