(* ===== verification/TxnTypes.thy ===== *)
theory TxnTypes
  imports Prelude
begin

text \<open>
  The vocabulary of transactions: error kinds (\<open>linkrs-transaction/src/error.rs\<close>),
  states, categories and their predicates (\<open>types.rs\<close>), configuration
  (\<open>types/config.rs\<close>, \<open>linkrs-core/src/types/transaction_config.rs\<close>) and the state
  transition test of \<open>context/lifecycle.rs\<close>.  An error is its kind: messages and
  boxed sources are not modelled.  The floating-point warning fraction is kept
  as the comparison the code makes with it.
\<close>

datatype transaction_error_kind =
    BeginFailed | CommitFailed | AbortFailed | TransactionNotFound | TransactionNotOwner
  | SavepointFailed | SavepointNotFound | SavepointNotActive | NoSavepointsInTransaction
  | InvalidStateTransition | InvalidStateForCommit | InvalidStateForAbort
  | InvalidStateForExecution | TransactionTimeout | TransactionExpired | RollbackFailed
  | TooManyTransactions | ReadOnlyTransaction | WriteTransactionConflict | RecoveryFailed
  | PersistenceFailed | SerializationFailed | SyncFailed | CheckpointInProgress
  | CheckpointTimeout | TransactionBudgetExceeded | CommitVetoed | SnapshotExpired | Internal

type_synonym 'a txn_result = "(transaction_error_kind, 'a) result"

definition is_timeout :: "transaction_error_kind \<Rightarrow> bool" where
  "is_timeout k \<longleftrightarrow> k = TransactionTimeout \<or> k = TransactionExpired"

definition is_retryable :: "transaction_error_kind \<Rightarrow> bool" where
  "is_retryable k \<longleftrightarrow> k = WriteTransactionConflict \<or> k = SerializationFailed \<or> k = SnapshotExpired"

datatype transaction_outcome = OutcomeCommit | OutcomeAbort

datatype transaction_state = TxActive | TxCommitting | TxAborting | TxCommitted | TxAborted

datatype transaction_type = TyReadOnly | TyWrite | TyCheckpoint | TyRecovery | TyDummy

definition is_user_transaction :: "transaction_type \<Rightarrow> bool" where
  "is_user_transaction t \<longleftrightarrow> t = TyReadOnly \<or> t = TyWrite"

definition is_system :: "transaction_type \<Rightarrow> bool" where
  "is_system t \<longleftrightarrow> t = TyCheckpoint \<or> t = TyRecovery \<or> t = TyDummy"

definition requires_wal :: "transaction_type \<Rightarrow> bool" where
  "requires_wal t \<longleftrightarrow> t = TyWrite \<or> t = TyCheckpoint"

definition uses_mvcc :: "transaction_type \<Rightarrow> bool" where
  "uses_mvcc t \<longleftrightarrow> t = TyReadOnly \<or> t = TyWrite"

definition state_can_execute :: "transaction_state \<Rightarrow> bool" where
  "state_can_execute s \<longleftrightarrow> s = TxActive"

definition state_can_commit :: "transaction_state \<Rightarrow> bool" where
  "state_can_commit s \<longleftrightarrow> s = TxActive"

definition state_can_abort :: "transaction_state \<Rightarrow> bool" where
  "state_can_abort s \<longleftrightarrow> s = TxActive \<or> s = TxCommitting \<or> s = TxAborting"

definition state_is_terminal :: "transaction_state \<Rightarrow> bool" where
  "state_is_terminal s \<longleftrightarrow> s = TxCommitted \<or> s = TxAborted"

fun valid_transition :: "transaction_state \<Rightarrow> transaction_state \<Rightarrow> bool" where
  "valid_transition TxActive TxCommitting = True"
| "valid_transition TxActive TxAborting = True"
| "valid_transition TxCommitting TxCommitted = True"
| "valid_transition TxCommitting TxAborting = True"
| "valid_transition TxCommitting TxAborted = True"
| "valid_transition TxAborting TxAborted = True"
| "valid_transition _ _ = False"

datatype durability_level = DurNone | DurAsync | DurSync

datatype isolation_level = RepeatableRead | ReadCommitted | Serializable

datatype concurrency_mode = Optimistic | SingleWriter

record transaction_config =
  cfg_timeout :: duration
  cfg_durability :: durability_level
  cfg_isolation_level :: isolation_level
  cfg_query_timeout :: "duration option"
  cfg_statement_timeout :: "duration option"
  cfg_idle_timeout :: "duration option"
  cfg_auto_commit :: bool
  cfg_max_mutation_count :: nat
  cfg_max_undo_bytes :: nat
  cfg_warning_reached :: "nat \<Rightarrow> nat \<Rightarrow> bool"
  cfg_concurrency_mode :: concurrency_mode
  cfg_full_scan_threshold :: "nat option"

record transaction_options =
  opt_timeout :: "duration option"
  opt_read_only :: bool
  opt_long_read :: bool
  opt_durability :: durability_level
  opt_isolation_level :: isolation_level
  opt_query_timeout :: "duration option"
  opt_statement_timeout :: "duration option"
  opt_idle_timeout :: "duration option"

subsection \<open>The transition test\<close>

lemma valid_transition_progress:
  "valid_transition s t \<Longrightarrow> \<not> state_is_terminal s \<and> t \<noteq> TxActive"
  by (induction s t rule: valid_transition.induct) (simp_all add: state_is_terminal_def)

lemma valid_transition_can_abort: "valid_transition s TxAborting \<Longrightarrow> state_can_abort s"
  by (cases s) (simp_all add: state_can_abort_def)

lemma terminal_stuck [simp]:
  "\<not> valid_transition TxCommitted s" "\<not> valid_transition TxAborted s"
  by (cases s; simp)+

end
