(* ===== verification/TxnContext.thy ===== *)
theory TxnContext
  imports Journal WriteSet TxnTypes
begin

text \<open>
  One transaction's private state (\<open>linkrs-transaction/src/context.rs\<close> and
  \<open>context/*.rs\<close>): the state machine and its timeouts, the read and write sets,
  budgets, the recording of a mutation in all logs at once, and savepoints.
  The clock is an argument (\<open>now\<close>); every field the code keeps behind a lock or
  an atomic is a field of one record and each method one transition.  The
  undo-entry codec and the storage target are arguments as in \<open>UndoLog\<close>.
  Monitoring views (\<open>info\<close>) and log output are not modelled.
\<close>

subsection \<open>State\<close>

type_synonym savepoint_id = nat

record savepoint_info =
  sp_id :: savepoint_id
  sp_name :: "string option"
  sp_created_at :: instant
  sp_sequence :: nat
  sp_undo_log_index :: nat
  sp_sync_sequence :: nat
  sp_write_set :: write_set
  sp_read_set :: write_set
  sp_modified_tables :: "string list"
  sp_journal_len :: nat
  sp_journal_next_sequence :: nat
  sp_staged_write_mark :: "staged_write_mark option"

record savepoint_manager =
  savepoints :: "(savepoint_id, savepoint_info) bmap"
  sm_next_id :: savepoint_id
  sm_next_sequence :: nat

record budget_warning =
  bw_txn_id :: txn_id
  bw_resource :: string
  bw_current :: nat
  bw_limit :: nat

record 'v transaction_context =
  ctx_id :: txn_id
  txn_type :: transaction_type
  txn_state :: transaction_state
  start_timestamp :: timestamp
  commit_timestamp :: timestamp
  refreshed_read_ts :: "timestamp option"
  statement_snapshot_pin :: "timestamp option"
  start_time :: instant
  config :: transaction_config
  read_only :: bool
  last_activity :: instant
  statement_start :: instant
  query_count :: nat
  modified_tables :: "string list"
  savepoint_mgr :: savepoint_manager
  undo_logs :: "'v file_backed_undo_log"
  txn_write_set :: write_set
  txn_read_set :: write_set
  local_wal :: local_wal_buffer
  write_validated :: bool
  rollback_only :: bool
  resources_released :: bool
  staged_bytes :: nat
  commit_published :: bool
  commit_lsn :: nat
  owner :: "string option"
  mutation_count :: nat
  undo_bytes :: nat
  mutation_warning_emitted :: bool
  undo_warning_emitted :: bool
  budget_warnings :: "budget_warning list"
  pessimistic_lock_held :: bool
  schema_catalog_version :: nat
  ctx_ssi_state :: ssi_state
  journal :: "'v mutation_journal"

definition savepoint_manager_new :: savepoint_manager where
  "savepoint_manager_new = \<lparr> savepoints = [], sm_next_id = 1, sm_next_sequence = 1 \<rparr>"

definition context_new :: "instant \<Rightarrow> txn_id \<Rightarrow> timestamp \<Rightarrow> transaction_config \<Rightarrow> 'v transaction_context" where
  "context_new now t ts cfg =
     \<lparr> ctx_id = t, txn_type = TyWrite, txn_state = TxActive, start_timestamp = ts,
       commit_timestamp = 0, refreshed_read_ts = None, statement_snapshot_pin = None,
       start_time = now, config = cfg, read_only = False, last_activity = now,
       statement_start = now, query_count = 0, modified_tables = [],
       savepoint_mgr = savepoint_manager_new, undo_logs = undo_log_new undo_log_default_threshold,
       txn_write_set = write_set_new, txn_read_set = write_set_new, local_wal = local_wal_new,
       write_validated = False, rollback_only = False, resources_released = False,
       staged_bytes = 0, commit_published = False, commit_lsn = 0, owner = None,
       mutation_count = 0, undo_bytes = 0, mutation_warning_emitted = False,
       undo_warning_emitted = False, budget_warnings = [], pessimistic_lock_held = False,
       schema_catalog_version = 0, ctx_ssi_state = ssi_state_new, journal = journal_new \<rparr>"

definition context_new_readonly ::
  "instant \<Rightarrow> txn_id \<Rightarrow> timestamp \<Rightarrow> transaction_config \<Rightarrow> 'v transaction_context" where
  "context_new_readonly now t ts cfg =
     (context_new now t ts cfg)\<lparr> txn_type := TyReadOnly, read_only := True \<rparr>"

definition context_new_checkpoint ::
  "instant \<Rightarrow> txn_id \<Rightarrow> timestamp \<Rightarrow> transaction_config \<Rightarrow> 'v transaction_context" where
  "context_new_checkpoint now t ts cfg = (context_new now t ts cfg)\<lparr> txn_type := TyCheckpoint \<rparr>"

definition context_new_recovery ::
  "instant \<Rightarrow> txn_id \<Rightarrow> timestamp \<Rightarrow> transaction_config \<Rightarrow> 'v transaction_context" where
  "context_new_recovery now t ts cfg = (context_new now t ts cfg)\<lparr> txn_type := TyRecovery \<rparr>"

definition context_new_dummy ::
  "instant \<Rightarrow> txn_id \<Rightarrow> timestamp \<Rightarrow> transaction_config \<Rightarrow> 'v transaction_context" where
  "context_new_dummy now t ts cfg = (context_new now t ts cfg)\<lparr> txn_type := TyDummy \<rparr>"

type_synonym ('v, 'a) ctx_op = "'a txn_result \<times> 'v transaction_context"

subsection \<open>Lifecycle\<close>

definition set_commit_timestamp :: "timestamp \<Rightarrow> 'v transaction_context \<Rightarrow> 'v transaction_context" where
  "set_commit_timestamp ts c = c\<lparr> commit_timestamp := ts \<rparr>"

definition is_expired :: "instant \<Rightarrow> 'v transaction_context \<Rightarrow> bool" where
  "is_expired now c \<longleftrightarrow> now - start_time c > cfg_timeout (config c)"

definition is_query_timeout :: "instant \<Rightarrow> 'v transaction_context \<Rightarrow> bool" where
  "is_query_timeout now c = (case cfg_query_timeout (config c) of
      Some d \<Rightarrow> now - statement_start c > d | None \<Rightarrow> False)"

definition is_statement_timeout :: "instant \<Rightarrow> instant \<Rightarrow> 'v transaction_context \<Rightarrow> bool" where
  "is_statement_timeout now start c = (case cfg_statement_timeout (config c) of
      Some d \<Rightarrow> now - start > d | None \<Rightarrow> False)"

definition is_idle_timeout :: "instant \<Rightarrow> 'v transaction_context \<Rightarrow> bool" where
  "is_idle_timeout now c = (case cfg_idle_timeout (config c) of
      Some d \<Rightarrow> now - last_activity c > d | None \<Rightarrow> False)"

definition check_timeouts :: "instant \<Rightarrow> 'v transaction_context \<Rightarrow> unit txn_result" where
  "check_timeouts now c =
     (if is_expired now c then Inl TransactionTimeout
      else if is_idle_timeout now c then Inl TransactionTimeout
      else Inr ())"

definition update_activity :: "instant \<Rightarrow> 'v transaction_context \<Rightarrow> 'v transaction_context" where
  "update_activity now c = c\<lparr> last_activity := now \<rparr>"

definition validate_write_allowed :: "'v transaction_context \<Rightarrow> unit txn_result" where
  "validate_write_allowed c = (if read_only c then Inl ReadOnlyTransaction else Inr ())"

definition can_execute :: "instant \<Rightarrow> 'v transaction_context \<Rightarrow> unit txn_result" where
  "can_execute now c =
     (if \<not> state_can_execute (txn_state c) then Inl InvalidStateForExecution
      else if rollback_only c then Inl InvalidStateForExecution
      else if is_expired now c then Inl TransactionExpired
      else Inr ())"

definition increment_query_count :: "'v transaction_context \<Rightarrow> 'v transaction_context" where
  "increment_query_count c = c\<lparr> query_count := query_count c + 1 \<rparr>"

definition begin_statement :: "instant \<Rightarrow> 'v transaction_context \<Rightarrow> ('v, instant) ctx_op" where
  "begin_statement now c =
     (case can_execute now c of
        Inl e \<Rightarrow> (Inl e, c)
      | Inr _ \<Rightarrow> (case check_timeouts now c of
          Inl e \<Rightarrow> (Inl e, c)
        | Inr _ \<Rightarrow> (Inr now, increment_query_count (c\<lparr> statement_start := now \<rparr>))))"

definition mark_rollback_only :: "'v transaction_context \<Rightarrow> 'v transaction_context" where
  "mark_rollback_only c = c\<lparr> rollback_only := True \<rparr>"

definition finish_statement :: "instant \<Rightarrow> instant \<Rightarrow> 'v transaction_context \<Rightarrow> ('v, unit) ctx_op" where
  "finish_statement now start c =
     (let query_timed_out = (case cfg_query_timeout (config c) of
            Some d \<Rightarrow> now - start > d | None \<Rightarrow> False);
          statement_timed_out = is_statement_timeout now start c;
          c1 = update_activity now (c\<lparr> statement_start := now \<rparr>)
      in if query_timed_out \<or> statement_timed_out
         then (Inl TransactionTimeout, mark_rollback_only c1) else (Inr (), c1))"

definition set_owner :: "string \<Rightarrow> 'v transaction_context \<Rightarrow> 'v transaction_context" where
  "set_owner w c = c\<lparr> owner := Some w \<rparr>"

definition owner_matches :: "string option \<Rightarrow> 'v transaction_context \<Rightarrow> bool" where
  "owner_matches w c = (case (owner c, w) of
      (None, _) \<Rightarrow> True | (Some expected, Some actual) \<Rightarrow> expected = actual | (Some _, None) \<Rightarrow> False)"

definition mark_resources_released :: "'v transaction_context \<Rightarrow> bool \<times> 'v transaction_context" where
  "mark_resources_released c =
     (if resources_released c then (False, c) else (True, c\<lparr> resources_released := True \<rparr>))"

definition remaining_time :: "instant \<Rightarrow> 'v transaction_context \<Rightarrow> duration" where
  "remaining_time now c = (let elapsed = now - start_time c in
     if elapsed \<ge> cfg_timeout (config c) then 0 else cfg_timeout (config c) - elapsed)"

definition transition_to :: "transaction_state \<Rightarrow> 'v transaction_context \<Rightarrow> ('v, unit) ctx_op" where
  "transition_to s c =
     (if \<not> valid_transition (txn_state c) s then (Inl InvalidStateTransition, c)
      else (Inr (), c\<lparr> txn_state := s \<rparr>))"

subsection \<open>Read and write sets\<close>

definition mark_write_validated :: "'v transaction_context \<Rightarrow> 'v transaction_context" where
  "mark_write_validated c = c\<lparr> write_validated := True \<rparr>"

definition ctx_record_vertex_read :: "vertex_id \<Rightarrow> 'v transaction_context \<Rightarrow> 'v transaction_context" where
  "ctx_record_vertex_read v c = c\<lparr> txn_read_set := record_vertex v (txn_read_set c) \<rparr>"

definition ctx_record_edge_read :: "edge_identifier \<Rightarrow> 'v transaction_context \<Rightarrow> 'v transaction_context" where
  "ctx_record_edge_read e c = c\<lparr> txn_read_set := record_edge e (txn_read_set c) \<rparr>"

definition ctx_record_schema_read :: "string \<Rightarrow> 'v transaction_context \<Rightarrow> 'v transaction_context" where
  "ctx_record_schema_read r c = c\<lparr> txn_read_set := record_schema_resource r (txn_read_set c) \<rparr>"

definition ctx_record_index_read :: "string \<Rightarrow> 'v transaction_context \<Rightarrow> 'v transaction_context" where
  "ctx_record_index_read r c = c\<lparr> txn_read_set := record_index_resource r (txn_read_set c) \<rparr>"

definition ctx_record_read_range :: "read_range \<Rightarrow> 'v transaction_context \<Rightarrow> 'v transaction_context" where
  "ctx_record_read_range r c = c\<lparr> txn_read_set := record_read_range r (txn_read_set c) \<rparr>"

definition ctx_record_vertex_write :: "vertex_id \<Rightarrow> 'v transaction_context \<Rightarrow> 'v transaction_context" where
  "ctx_record_vertex_write v c = c\<lparr> txn_write_set := record_vertex v (txn_write_set c) \<rparr>"

definition ctx_record_vertex_delete :: "vertex_id \<Rightarrow> 'v transaction_context \<Rightarrow> 'v transaction_context" where
  "ctx_record_vertex_delete v c = c\<lparr> txn_write_set := record_vertex_delete v (txn_write_set c) \<rparr>"

definition ctx_record_edge_write :: "edge_identifier \<Rightarrow> 'v transaction_context \<Rightarrow> 'v transaction_context" where
  "ctx_record_edge_write e c = c\<lparr> txn_write_set := record_edge e (txn_write_set c) \<rparr>"

definition ctx_record_schema_write :: "string \<Rightarrow> 'v transaction_context \<Rightarrow> 'v transaction_context" where
  "ctx_record_schema_write r c = c\<lparr> txn_write_set := record_schema_resource r (txn_write_set c) \<rparr>"

definition ctx_record_index_write :: "string \<Rightarrow> 'v transaction_context \<Rightarrow> 'v transaction_context" where
  "ctx_record_index_write r c = c\<lparr> txn_write_set := record_index_resource r (txn_write_set c) \<rparr>"

definition restore_write_set :: "write_set \<Rightarrow> 'v transaction_context \<Rightarrow> 'v transaction_context" where
  "restore_write_set ws c = c\<lparr> txn_write_set := ws, write_validated := False \<rparr>"

definition restore_read_set :: "write_set \<Rightarrow> 'v transaction_context \<Rightarrow> 'v transaction_context" where
  "restore_read_set rs c = c\<lparr> txn_read_set := rs \<rparr>"

definition clear_write_validation :: "'v transaction_context \<Rightarrow> 'v transaction_context" where
  "clear_write_validation c = c\<lparr> write_validated := False \<rparr>"

subsection \<open>Snapshots\<close>

definition effective_read_timestamp :: "'v transaction_context \<Rightarrow> timestamp" where
  "effective_read_timestamp c = (case refreshed_read_ts c of
      Some r \<Rightarrow> max r (start_timestamp c) | None \<Rightarrow> start_timestamp c)"

definition set_refreshed_read_ts :: "timestamp \<Rightarrow> 'v transaction_context \<Rightarrow> 'v transaction_context" where
  "set_refreshed_read_ts ts c = c\<lparr> refreshed_read_ts := Some ts \<rparr>"

definition set_statement_snapshot_pin ::
  "timestamp \<Rightarrow> 'v transaction_context \<Rightarrow> timestamp option \<times> 'v transaction_context" where
  "set_statement_snapshot_pin ts c =
     (statement_snapshot_pin c, c\<lparr> statement_snapshot_pin := Some ts \<rparr>)"

definition take_statement_snapshot_pin ::
  "'v transaction_context \<Rightarrow> timestamp option \<times> 'v transaction_context" where
  "take_statement_snapshot_pin c = (statement_snapshot_pin c, c\<lparr> statement_snapshot_pin := None \<rparr>)"

definition record_ssi_read :: "resource_id \<Rightarrow> 'v transaction_context \<Rightarrow> 'v transaction_context" where
  "record_ssi_read r c = c\<lparr> ctx_ssi_state := ssi_record_read r (ctx_ssi_state c) \<rparr>"

definition record_ssi_write :: "resource_id \<Rightarrow> 'v transaction_context \<Rightarrow> 'v transaction_context" where
  "record_ssi_write r c = c\<lparr> ctx_ssi_state := ssi_record_write r (ctx_ssi_state c) \<rparr>"

definition clear_ssi_state :: "'v transaction_context \<Rightarrow> 'v transaction_context" where
  "clear_ssi_state c = c\<lparr> ctx_ssi_state := ssi_state_new \<rparr>"

subsection \<open>Budgets and commit metadata\<close>

definition drain_budget_warnings ::
  "'v transaction_context \<Rightarrow> budget_warning list \<times> 'v transaction_context" where
  "drain_budget_warnings c = (budget_warnings c, c\<lparr> budget_warnings := [] \<rparr>)"

definition mark_commit_published :: "nat \<Rightarrow> 'v transaction_context \<Rightarrow> 'v transaction_context" where
  "mark_commit_published lsn c = c\<lparr> commit_lsn := lsn, commit_published := True \<rparr>"

definition add_staged_bytes :: "nat \<Rightarrow> 'v transaction_context \<Rightarrow> 'v transaction_context" where
  "add_staged_bytes n c = c\<lparr> staged_bytes := staged_bytes c + n \<rparr>"

definition bump_schema_catalog_version :: "'v transaction_context \<Rightarrow> nat \<times> 'v transaction_context" where
  "bump_schema_catalog_version c = (schema_catalog_version c + 1,
     c\<lparr> schema_catalog_version := schema_catalog_version c + 1 \<rparr>)"

definition set_pessimistic_lock :: "'v transaction_context \<Rightarrow> 'v transaction_context" where
  "set_pessimistic_lock c = c\<lparr> pessimistic_lock_held := True \<rparr>"

definition clear_pessimistic_lock :: "'v transaction_context \<Rightarrow> 'v transaction_context" where
  "clear_pessimistic_lock c = c\<lparr> pessimistic_lock_held := False \<rparr>"

subsection \<open>Undo logs and modified tables\<close>

definition record_table_modification :: "string \<Rightarrow> 'v transaction_context \<Rightarrow> 'v transaction_context" where
  "record_table_modification t c =
     (if t \<in> set (modified_tables c) then c else c\<lparr> modified_tables := modified_tables c @ [t] \<rparr>)"

definition add_undo_log :: "'v enc \<Rightarrow> 'v undo_log_entry \<Rightarrow> 'v transaction_context \<Rightarrow> ('v, unit) ctx_op" where
  "add_undo_log enc e c = (case undo_add enc e (undo_logs c) of
      (Inl _, l) \<Rightarrow> (Inl Internal, c\<lparr> undo_logs := l \<rparr>)
    | (Inr _, l) \<Rightarrow> (Inr (), c\<lparr> undo_logs := l \<rparr>))"

definition undo_log_len :: "'v transaction_context \<Rightarrow> nat" where
  "undo_log_len c = undo_len (undo_logs c)"

definition clear_undo_logs :: "'v transaction_context \<Rightarrow> ('v, unit) ctx_op" where
  "clear_undo_logs c = (case undo_clear (undo_logs c) of
      (Inl _, l) \<Rightarrow> (Inl Internal, c\<lparr> undo_logs := l \<rparr>)
    | (Inr _, l) \<Rightarrow> (Inr (), c\<lparr> undo_logs := l \<rparr>))"

definition execute_undo_logs ::
  "'v dec \<Rightarrow> ('g, 'v) undo_target \<Rightarrow> 'v transaction_context \<Rightarrow> 'g
   \<Rightarrow> (unit txn_result \<times> 'v transaction_context \<times> 'g) option" where
  "execute_undo_logs dec t c g = (case execute_undo dec t (start_timestamp c) (undo_logs c) g of
      None \<Rightarrow> None
    | Some (Inl _, l, g1) \<Rightarrow> Some (Inl RollbackFailed, c\<lparr> undo_logs := l \<rparr>, g1)
    | Some (Inr _, l, g1) \<Rightarrow> Some (Inr (), c\<lparr> undo_logs := l \<rparr>, g1))"

definition execute_undo_logs_from_index ::
  "'v dec \<Rightarrow> ('g, 'v) undo_target \<Rightarrow> nat \<Rightarrow> 'v transaction_context \<Rightarrow> 'g
   \<Rightarrow> unit txn_result \<times> 'v transaction_context \<times> 'g" where
  "execute_undo_logs_from_index dec t k c g =
     (case execute_undo_from_index dec t (start_timestamp c) k (undo_logs c) g of
        (Inl _, l, g1) \<Rightarrow> (Inl RollbackFailed, c\<lparr> undo_logs := l \<rparr>, g1)
      | (Inr _, l, g1) \<Rightarrow> (Inr (), c\<lparr> undo_logs := l \<rparr>, g1))"

subsection \<open>Recording a mutation\<close>

definition charge_mutation_count :: "'v transaction_context \<Rightarrow> ('v, unit) ctx_op" where
  "charge_mutation_count c0 =
     (let n = mutation_count c0 + 1; lim = cfg_max_mutation_count (config c0);
          c = c0\<lparr> mutation_count := n \<rparr>
      in if lim > 0 \<and> n > lim then (Inl TransactionBudgetExceeded, c)
         else if lim > 0 \<and> \<not> mutation_warning_emitted c \<and> cfg_warning_reached (config c) n lim
         then (Inr (), c\<lparr> mutation_warning_emitted := True,
                budget_warnings := budget_warnings c @
                  [\<lparr> bw_txn_id = ctx_id c, bw_resource = ''mutation count'', bw_current = n, bw_limit = lim \<rparr>] \<rparr>)
         else (Inr (), c))"

definition charge_undo_bytes :: "'v transaction_context \<Rightarrow> ('v, unit) ctx_op" where
  "charge_undo_bytes c0 =
     (let n = undo_bytes c0 + 64; lim = cfg_max_undo_bytes (config c0);
          c = c0\<lparr> undo_bytes := n \<rparr>
      in if lim > 0 \<and> n > lim then (Inl TransactionBudgetExceeded, c)
         else if lim > 0 \<and> \<not> undo_warning_emitted c \<and> cfg_warning_reached (config c) n lim
         then (Inr (), c\<lparr> undo_warning_emitted := True,
                budget_warnings := budget_warnings c @
                  [\<lparr> bw_txn_id = ctx_id c, bw_resource = ''undo bytes'', bw_current = n, bw_limit = lim \<rparr>] \<rparr>)
         else (Inr (), c))"

definition resolve_resource :: "'v mutation_result \<Rightarrow> mutation_resource" where
  "resolve_resource m =
     (if resource m \<noteq> ResUnknown then resource m
      else if modified_table m \<noteq> None then from_modified_table (modified_table m)
      else case redo_entry m of
          Some e \<Rightarrow> from_wal_op (we_op e)
        | None \<Rightarrow> if index_intents m \<noteq> [] then ResSyncIntent else ResUnknown)"

definition journal_record :: "'v mutation_result \<Rightarrow> 'v transaction_context \<Rightarrow> 'v mutation_record" where
  "journal_record m c =
     \<lparr> mr_sequence = journal_len (journal c), mr_transaction_id = ctx_id c,
       mr_entity_keys = entity_keys m, mr_resource = resolve_resource m, mr_undo = undo_entry m,
       mr_redo = map_option (with_transaction (ctx_id c) (next_sequence (journal c))) (redo_entry m),
       mr_index_intents = index_intents m, mr_modified_table = modified_table m,
       mr_write_timestamp = start_timestamp c, mr_commit_timestamp = None \<rparr>"

fun record_entity :: "mutation_entity_key \<Rightarrow> 'v transaction_context \<Rightarrow> 'v transaction_context" where
  "record_entity (KeyVertex v) c = ctx_record_vertex_write v c"
| "record_entity (KeyEdge e) c = ctx_record_edge_write e c"

definition record_resource_writes ::
  "'v mutation_result \<Rightarrow> 'v transaction_context \<Rightarrow> 'v transaction_context" where
  "record_resource_writes m c0 =
     (let res = resolve_resource m;
          c1 = fold record_entity (entity_keys m) c0;
          c2 = (if res = ResSchema
                then ctx_record_schema_write
                       (case modified_table m of Some t \<Rightarrow> t | None \<Rightarrow> ''schema'') c1
                else c1)
      in if res = ResIndex \<or> res = ResSyncIntent
         then fold (\<lambda>i. ctx_record_index_write (ordering_key (mutation i))) (index_intents m) c2
         else c2)"

definition record_mutation ::
  "'v enc \<Rightarrow> instant \<Rightarrow> 'v mutation_result \<Rightarrow> 'v transaction_context \<Rightarrow> ('v, unit) ctx_op" where
  "record_mutation enc now m c =
     (case can_execute now c of Inl e \<Rightarrow> (Inl e, c) | Inr _ \<Rightarrow>
      case validate_write_allowed c of Inl e \<Rightarrow> (Inl e, c) | Inr _ \<Rightarrow>
      case charge_mutation_count c of (Inl e, c1) \<Rightarrow> (Inl e, c1) | (Inr _, c1) \<Rightarrow>
      case charge_undo_bytes c1 of (Inl e, c2) \<Rightarrow> (Inl e, c2) | (Inr _, c2) \<Rightarrow>
      let c3 = c2\<lparr> journal := snd (journal_push (journal_record m c2) (journal c2)) \<rparr>;
          c4 = record_resource_writes m c3
      in case (case undo_entry m of Some e \<Rightarrow> add_undo_log enc e c4 | None \<Rightarrow> (Inr (), c4)) of
           (Inl e, c5) \<Rightarrow> (Inl e, c5)
         | (Inr _, c5) \<Rightarrow>
             (Inr (), (case modified_table m of Some t \<Rightarrow> record_table_modification t c5 | None \<Rightarrow> c5)
                \<lparr> write_validated := False \<rparr>))"

definition ctx_rebuild_derived_logs :: "'v transaction_context \<Rightarrow> 'v transaction_context" where
  "ctx_rebuild_derived_logs c = c\<lparr> local_wal := rebuild_derived_logs (journal c) (local_wal c) \<rparr>"

definition clear_derived_wal :: "'v transaction_context \<Rightarrow> 'v transaction_context" where
  "clear_derived_wal c = c\<lparr> local_wal := local_wal_clear (local_wal c) \<rparr>"

definition ctx_publish_commit_timestamp :: "timestamp \<Rightarrow> 'v transaction_context \<Rightarrow> 'v transaction_context" where
  "ctx_publish_commit_timestamp ts c =
     c\<lparr> journal := journal_publish_commit_timestamp ts (journal c) \<rparr>"

subsection \<open>Savepoints\<close>

definition create_savepoint ::
  "instant \<Rightarrow> string option \<Rightarrow> nat \<Rightarrow> 'v transaction_context \<Rightarrow> savepoint_id \<times> 'v transaction_context" where
  "create_savepoint now nm sync c =
     (let m = savepoint_mgr c; i = sm_next_id m;
          info = \<lparr> sp_id = i, sp_name = nm, sp_created_at = now, sp_sequence = sm_next_sequence m,
                   sp_undo_log_index = undo_log_len c, sp_sync_sequence = sync,
                   sp_write_set = txn_write_set c, sp_read_set = txn_read_set c,
                   sp_modified_tables = modified_tables c, sp_journal_len = journal_len (journal c),
                   sp_journal_next_sequence = next_sequence (journal c),
                   sp_staged_write_mark = None \<rparr>
      in (i, c\<lparr> savepoint_mgr := \<lparr> savepoints = bm_insert i info (savepoints m),
                 sm_next_id = i + 1, sm_next_sequence = sm_next_sequence m + 1 \<rparr> \<rparr>))"

definition get_savepoint :: "savepoint_id \<Rightarrow> 'v transaction_context \<Rightarrow> savepoint_info option" where
  "get_savepoint i c = bm_get (savepoints (savepoint_mgr c)) i"

definition set_savepoint_staging_mark ::
  "savepoint_id \<Rightarrow> staged_write_mark option \<Rightarrow> 'v transaction_context \<Rightarrow> ('v, unit) ctx_op" where
  "set_savepoint_staging_mark i mark c = (case get_savepoint i c of
      None \<Rightarrow> (Inl SavepointNotFound, c)
    | Some sp \<Rightarrow> (Inr (), c\<lparr> savepoint_mgr := (savepoint_mgr c)\<lparr> savepoints :=
        bm_insert i (sp\<lparr> sp_staged_write_mark := mark \<rparr>) (savepoints (savepoint_mgr c)) \<rparr> \<rparr>))"

fun latest_savepoint :: "savepoint_info list \<Rightarrow> savepoint_info option" where
  "latest_savepoint [] = None"
| "latest_savepoint (sp # sps) = (case latest_savepoint sps of
      None \<Rightarrow> Some sp
    | Some best \<Rightarrow> Some (if sp_sequence best < sp_sequence sp then sp else best))"

definition find_savepoint_by_name :: "string \<Rightarrow> 'v transaction_context \<Rightarrow> savepoint_info option" where
  "find_savepoint_by_name nm c =
     latest_savepoint (filter (\<lambda>sp. sp_name sp = Some nm) (map snd (savepoints (savepoint_mgr c))))"

definition release_savepoint :: "savepoint_id \<Rightarrow> 'v transaction_context \<Rightarrow> ('v, unit) ctx_op" where
  "release_savepoint i c = (case get_savepoint i c of
      None \<Rightarrow> (Inl SavepointNotFound, c)
    | Some _ \<Rightarrow> (Inr (), c\<lparr> savepoint_mgr := (savepoint_mgr c)\<lparr> savepoints :=
        bm_remove i (savepoints (savepoint_mgr c)) \<rparr> \<rparr>))"

definition drop_later_savepoints :: "nat \<Rightarrow> 'v transaction_context \<Rightarrow> 'v transaction_context" where
  "drop_later_savepoints sequence c = c\<lparr> savepoint_mgr := (savepoint_mgr c)\<lparr> savepoints :=
     bm_retain (\<lambda>_ sp. \<not> sp_sequence sp > sequence) (savepoints (savepoint_mgr c)) \<rparr> \<rparr>"

definition restore_savepoint_state :: "savepoint_info \<Rightarrow> 'v transaction_context \<Rightarrow> ('v, unit) ctx_op" where
  "restore_savepoint_state sp c0 =
     (let c = (restore_read_set (sp_read_set sp) (restore_write_set (sp_write_set sp) c0))
                \<lparr> modified_tables := sp_modified_tables sp \<rparr>
      in if sp_journal_len sp > journal_len (journal c) then (Inl RollbackFailed, c)
         else let c1 = ctx_rebuild_derived_logs
                         (c\<lparr> journal := journal_truncate (sp_journal_len sp) (journal c) \<rparr>)
              in (Inr (), c1\<lparr> mutation_count := journal_len (journal c1),
                             undo_bytes := journal_len (journal c1) * 64 \<rparr>))"

definition rollback_to_savepoint ::
  "'v dec \<Rightarrow> ('g, 'v) undo_target \<Rightarrow> instant \<Rightarrow> savepoint_id \<Rightarrow> 'v transaction_context \<Rightarrow> 'g
   \<Rightarrow> unit txn_result \<times> 'v transaction_context \<times> 'g" where
  "rollback_to_savepoint dec t now i c g =
     (if \<not> state_can_execute (txn_state c) then (Inl InvalidStateForAbort, c, g)
      else if is_expired now c then (Inl TransactionExpired, c, g)
      else case get_savepoint i c of None \<Rightarrow> (Inl SavepointNotFound, c, g) | Some sp \<Rightarrow>
        case validate_against (sp_journal_len sp) (sp_journal_next_sequence sp) (journal c) of
          Inl _ \<Rightarrow> (Inl RollbackFailed, c, g)
        | Inr _ \<Rightarrow>
        let c1 = drop_later_savepoints (sp_sequence sp) c in
        case execute_undo_logs_from_index dec t (sp_undo_log_index sp) c1 g of
          (Inl _, c2, g2) \<Rightarrow> (Inl RollbackFailed, c2, g2)
        | (Inr _, c2, g2) \<Rightarrow>
        case (case sp_staged_write_mark sp of
                Some mark \<Rightarrow> ut_rollback_staged_writes t (ctx_id c2) mark g2
              | None \<Rightarrow> (Inr (), g2)) of
          (Inl _, g3) \<Rightarrow> (Inl RollbackFailed, c2, g3)
        | (Inr _, g3) \<Rightarrow> (case restore_savepoint_state sp c2 of (r, c3) \<Rightarrow> (r, c3, g3)))"

definition context_clear :: "'v transaction_context \<Rightarrow> ('v, unit) ctx_op" where
  "context_clear c = (case clear_undo_logs c of
      (Inl e, c1) \<Rightarrow> (Inl e, c1)
    | (Inr _, c1) \<Rightarrow> (Inr (), (restore_read_set write_set_new c1)
        \<lparr> txn_write_set := write_set_new, write_validated := False, rollback_only := False,
          resources_released := False, staged_bytes := 0, modified_tables := [],
          savepoint_mgr := (savepoint_mgr c1)\<lparr> savepoints := [] \<rparr>,
          journal := journal_truncate 0 (journal c1), local_wal := local_wal_clear (local_wal c1),
          mutation_count := 0, undo_bytes := 0 \<rparr>))"

subsection \<open>The commit descriptor\<close>

record transaction_commit_descriptor =
  cd_transaction_id :: txn_id
  cd_write_timestamp :: timestamp
  cd_commit_timestamp :: timestamp
  cd_durability :: durability_level
  cd_write_set :: write_set
  cd_read_set :: write_set
  cd_first_sequence :: nat
  cd_entry_count :: nat
  cd_intent_count :: nat
  cd_journal_range :: "nat \<times> nat"

definition build_commit_descriptor :: "'v transaction_context \<Rightarrow> transaction_commit_descriptor" where
  "build_commit_descriptor c =
     \<lparr> cd_transaction_id = ctx_id c, cd_write_timestamp = start_timestamp c,
       cd_commit_timestamp = 0, cd_durability = cfg_durability (config c),
       cd_write_set = txn_write_set c, cd_read_set = txn_read_set c,
       cd_first_sequence = (case records (journal c) of [] \<Rightarrow> 0 | r # _ \<Rightarrow> mr_sequence r),
       cd_entry_count = total_redo_entries (journal c),
       cd_intent_count = total_intents (journal c),
       cd_journal_range = (0, journal_len (journal c)) \<rparr>"

subsection \<open>Well-formed contexts and the life of a savepoint\<close>

definition savepoints_wf :: "'v transaction_context \<Rightarrow> bool" where
  "savepoints_wf c \<longleftrightarrow> bm_ok (savepoints (savepoint_mgr c)) \<and>
     (\<forall>i sp. get_savepoint i c = Some sp \<longrightarrow> i < sm_next_id (savepoint_mgr c) \<and>
        sp_sequence sp < sm_next_sequence (savepoint_mgr c))"

definition ctx_rep :: "'v enc \<Rightarrow> 'v dec \<Rightarrow> 'v transaction_context \<Rightarrow> 'v undo_log_entry list \<Rightarrow> bool" where
  "ctx_rep enc dec c xs \<longleftrightarrow> journal_inv (journal c) \<and> savepoints_wf c \<and>
     undo_rep enc dec (undo_logs c) xs"

inductive ctx_step ::
  "'v enc \<Rightarrow> 'v dec \<Rightarrow> ('g, 'v) undo_target \<Rightarrow> savepoint_id \<Rightarrow>
   'v transaction_context \<times> 'g \<Rightarrow> 'v transaction_context \<times> 'g \<Rightarrow> bool"
  for enc dec t i where
  frame: "journal c' = journal c \<Longrightarrow> undo_logs c' = undo_logs c \<Longrightarrow>
    savepoint_mgr c' = savepoint_mgr c \<Longrightarrow> ctx_step enc dec t i (c, g) (c', g')"
| mutate: "(\<And>e. undo_entry m = Some e \<Longrightarrow> codes enc dec e \<and> undo_log_len c + 1 < 2 ^ 64) \<Longrightarrow>
    ctx_step enc dec t i (c, g) (snd (record_mutation enc now m c), g')"
| log_undo: "codes enc dec e \<Longrightarrow> undo_log_len c + 1 < 2 ^ 64 \<Longrightarrow>
    ctx_step enc dec t i (c, g) (snd (add_undo_log enc e c), g')"
| savepoint: "ctx_step enc dec t i (c, g) (snd (create_savepoint now nm sync c), g)"
| mark: "j \<noteq> i \<Longrightarrow> ctx_step enc dec t i (c, g) (snd (set_savepoint_staging_mark j mk c), g)"
| release: "j \<noteq> i \<Longrightarrow> ctx_step enc dec t i (c, g) (snd (release_savepoint j c), g)"
| rollback: "get_savepoint i c = Some sp \<Longrightarrow>
    (\<And>sp'. get_savepoint j c = Some sp' \<Longrightarrow> sp_sequence sp \<le> sp_sequence sp') \<Longrightarrow>
    ctx_step enc dec t i (c, g) (snd (rollback_to_savepoint dec t now j c g))"

abbreviation ctx_steps where
  "ctx_steps enc dec t i \<equiv> (ctx_step enc dec t i)\<^sup>*\<^sup>*"

definition savepoints_above :: "nat \<Rightarrow> nat \<Rightarrow> nat \<Rightarrow> 'v transaction_context \<Rightarrow> bool" where
  "savepoints_above s n k c \<longleftrightarrow> (\<forall>l sp. get_savepoint l c = Some sp \<and> s \<le> sp_sequence sp \<longrightarrow>
     n \<le> sp_journal_len sp \<and> k \<le> sp_undo_log_index sp)"

definition undo_above :: "'v enc \<Rightarrow> 'v dec \<Rightarrow> 'v undo_log_entry list \<Rightarrow> 'v file_backed_undo_log \<Rightarrow> bool" where
  "undo_above enc dec xs0 l \<longleftrightarrow> (\<exists>ys. undo_rep enc dec l (xs0 @ ys))"

definition above_savepoint ::
  "'v enc \<Rightarrow> 'v dec \<Rightarrow> savepoint_id \<Rightarrow> savepoint_info \<Rightarrow> 'v mutation_journal \<Rightarrow>
   'v undo_log_entry list \<Rightarrow> 'v transaction_context \<Rightarrow> bool" where
  "above_savepoint enc dec i sp j0 xs0 c \<longleftrightarrow>
     journal_inv (journal c) \<and> journal_len j0 \<le> journal_len (journal c) \<and>
     take (journal_len j0) (records (journal c)) = records j0 \<and>
     undo_above enc dec xs0 (undo_logs c) \<and> savepoints_wf c \<and> get_savepoint i c = Some sp \<and>
     savepoints_above (sp_sequence sp) (journal_len j0) (length xs0) c"

definition demo_config :: transaction_config where
  "demo_config = \<lparr> cfg_timeout = 30, cfg_durability = DurSync, cfg_isolation_level = RepeatableRead,
     cfg_query_timeout = None, cfg_statement_timeout = None, cfg_idle_timeout = None,
     cfg_auto_commit = False, cfg_max_mutation_count = 100, cfg_max_undo_bytes = 0,
     cfg_warning_reached = (\<lambda>n lim. 5 * n \<ge> 4 * lim), cfg_concurrency_mode = Optimistic,
     cfg_full_scan_threshold = None \<rparr>"

definition demo_mutation :: "nat mutation_result" where
  "demo_mutation = with_undo (CreateVertexType 1) (with_table ''vertex''
     (with_redo (wal_entry_new OpInsertVertex 5 [1]) (mutation_result_new (KeyVertex vertex_id_new))))"

subsection \<open>What the operations leave alone\<close>

lemma record_entity_keep [keep_simps]:
  "journal (record_entity k c) = journal c" "undo_logs (record_entity k c) = undo_logs c"
  "savepoint_mgr (record_entity k c) = savepoint_mgr c"
  by (cases k; simp add: ctx_record_vertex_write_def ctx_record_edge_write_def)+

lemma fold_record_entity_keep [keep_simps]:
  "journal (fold record_entity ks c) = journal c" "undo_logs (fold record_entity ks c) = undo_logs c"
  "savepoint_mgr (fold record_entity ks c) = savepoint_mgr c"
  by (induction ks arbitrary: c) (simp_all add: keep_simps)

lemma fold_index_write_keep [keep_simps]:
  "journal (fold (\<lambda>i. ctx_record_index_write (f i)) is c) = journal c"
  "undo_logs (fold (\<lambda>i. ctx_record_index_write (f i)) is c) = undo_logs c"
  "savepoint_mgr (fold (\<lambda>i. ctx_record_index_write (f i)) is c) = savepoint_mgr c"
  by (induction "is" arbitrary: c) (simp_all add: ctx_record_index_write_def)

lemma record_resource_writes_keep [keep_simps]:
  "journal (record_resource_writes m c) = journal c"
  "undo_logs (record_resource_writes m c) = undo_logs c"
  "savepoint_mgr (record_resource_writes m c) = savepoint_mgr c"
  by (simp_all add: record_resource_writes_def Let_def keep_simps ctx_record_schema_write_def)

lemma record_table_modification_keep [keep_simps]:
  "journal (record_table_modification x c) = journal c"
  "undo_logs (record_table_modification x c) = undo_logs c"
  "savepoint_mgr (record_table_modification x c) = savepoint_mgr c"
  by (simp_all add: record_table_modification_def)

lemma charge_mutation_count_keep:
  assumes "charge_mutation_count c = (r, c')"
  shows "journal c' = journal c \<and> undo_logs c' = undo_logs c \<and> savepoint_mgr c' = savepoint_mgr c \<and>
    journal_record m c' = journal_record m c"
  using assms by (auto simp: charge_mutation_count_def journal_record_def Let_def split: if_splits)

lemma charge_undo_bytes_keep:
  assumes "charge_undo_bytes c = (r, c')"
  shows "journal c' = journal c \<and> undo_logs c' = undo_logs c \<and> savepoint_mgr c' = savepoint_mgr c \<and>
    journal_record m c' = journal_record m c"
  using assms by (auto simp: charge_undo_bytes_def journal_record_def Let_def split: if_splits)

lemma add_undo_log_eq:
  "add_undo_log enc e c =
     ((case fst (undo_add enc e (undo_logs c)) of Inl _ \<Rightarrow> Inl Internal | Inr _ \<Rightarrow> Inr ()),
      c\<lparr> undo_logs := snd (undo_add enc e (undo_logs c)) \<rparr>)"
  by (cases "undo_add enc e (undo_logs c)") (auto simp: add_undo_log_def split: sum.splits)

lemma record_mutation_effect:
  assumes "record_mutation enc now m c = (r, c')"
  shows "savepoint_mgr c' = savepoint_mgr c \<and>
    (journal c' = journal c \<and> undo_logs c' = undo_logs c \<or>
     journal c' = push_journal (journal_record m c) (journal c) \<and>
       (case undo_entry m of None \<Rightarrow> undo_logs c' = undo_logs c
        | Some e \<Rightarrow> undo_logs c' = snd (undo_add enc e (undo_logs c))))"
proof (cases "\<exists>c1 c2. charge_mutation_count c = (Inr (), c1) \<and> charge_undo_bytes c1 = (Inr (), c2) \<and>
    can_execute now c = Inr () \<and> validate_write_allowed c = Inr ()")
  case True
  then obtain c1 c2 where c: "charge_mutation_count c = (Inr (), c1)" "charge_undo_bytes c1 = (Inr (), c2)"
    "can_execute now c = Inr ()" "validate_write_allowed c = Inr ()" by blast
  define c4 where "c4 = record_resource_writes m
    (c2\<lparr> journal := snd (journal_push (journal_record m c2) (journal c2)) \<rparr>)"
  have k: "journal c4 = push_journal (journal_record m c) (journal c)" "undo_logs c4 = undo_logs c"
    "savepoint_mgr c4 = savepoint_mgr c"
    using charge_mutation_count_keep [OF c(1), of m] charge_undo_bytes_keep [OF c(2), of m]
    by (simp_all add: c4_def keep_simps push_journal_def)
  from assms c have "(case (case undo_entry m of Some e \<Rightarrow> add_undo_log enc e c4 | None \<Rightarrow> (Inr (), c4)) of
           (Inl e, c5) \<Rightarrow> (Inl e, c5)
         | (Inr _, c5) \<Rightarrow>
             (Inr (), (case modified_table m of Some t \<Rightarrow> record_table_modification t c5 | None \<Rightarrow> c5)
                \<lparr> write_validated := False \<rparr>)) = (r, c')"
    unfolding c4_def by (simp add: record_mutation_def Let_def)
  then show ?thesis
    by (cases "undo_entry m") (auto simp: add_undo_log_eq k keep_simps split: sum.splits option.splits)
next
  case False
  obtain r1 c1 where c1: "charge_mutation_count c = (r1, c1)" by force
  obtain r2 c2 where c2: "charge_undo_bytes c1 = (r2, c2)" by force
  from assms False c1 c2 charge_mutation_count_keep [OF c1] charge_undo_bytes_keep [OF c2]
  show ?thesis by (auto simp: record_mutation_def split: sum.splits)
qed

lemma create_savepoint_effect:
  assumes "create_savepoint now nm sync c = (i, c')"
  shows "journal c' = journal c" "undo_logs c' = undo_logs c" "i = sm_next_id (savepoint_mgr c)"
    "\<exists>sp. get_savepoint i c' = Some sp \<and> sp_sequence sp = sm_next_sequence (savepoint_mgr c) \<and>
       sp_journal_len sp = journal_len (journal c) \<and> sp_journal_next_sequence sp = next_sequence (journal c) \<and>
       sp_undo_log_index sp = undo_log_len c \<and> sp_write_set sp = txn_write_set c \<and>
       sp_read_set sp = txn_read_set c \<and> sp_modified_tables sp = modified_tables c \<and>
       sp_staged_write_mark sp = None"
    "k \<noteq> i \<Longrightarrow> get_savepoint k c' = get_savepoint k c"
  using assms
  by (auto simp: create_savepoint_def Let_def get_savepoint_def)

lemma create_savepoint_wf:
  assumes "create_savepoint now nm sync c = (i, c')" "savepoints_wf c"
  shows "savepoints_wf c'"
proof -
  have n: "sm_next_id (savepoint_mgr c') = sm_next_id (savepoint_mgr c) + 1"
    "sm_next_sequence (savepoint_mgr c') = sm_next_sequence (savepoint_mgr c) + 1"
    "bm_ok (savepoints (savepoint_mgr c'))"
    using assms by (auto simp: create_savepoint_def Let_def savepoints_wf_def)
  moreover have "k < sm_next_id (savepoint_mgr c') \<and> sp_sequence sp < sm_next_sequence (savepoint_mgr c')"
    if "get_savepoint k c' = Some sp" for k sp
    using that create_savepoint_effect(3,4,5) [OF assms(1)] n assms(2)
    by (cases "k = i") (auto simp: savepoints_wf_def less_Suc_eq)
  ultimately show ?thesis by (simp add: savepoints_wf_def)
qed

lemma drop_later_keep [keep_simps]:
  "journal (drop_later_savepoints s c) = journal c" "undo_logs (drop_later_savepoints s c) = undo_logs c"
  "start_timestamp (drop_later_savepoints s c) = start_timestamp c"
  "ctx_id (drop_later_savepoints s c) = ctx_id c"
  by (simp_all add: drop_later_savepoints_def)

lemma get_savepoint_drop_later:
  assumes "savepoints_wf c"
  shows "get_savepoint k (drop_later_savepoints s c) =
    (case get_savepoint k c of None \<Rightarrow> None | Some sp \<Rightarrow> if sp_sequence sp \<le> s then Some sp else None)"
  using assms by (auto simp: get_savepoint_def drop_later_savepoints_def bm_get_retain savepoints_wf_def
      split: option.splits)

lemma savepoints_wf_drop_later: "savepoints_wf c \<Longrightarrow> savepoints_wf (drop_later_savepoints s c)"
  using get_savepoint_drop_later [of c _ s]
  by (auto simp: savepoints_wf_def drop_later_savepoints_def split: option.splits if_splits)

lemma savepoints_wfD:
  "savepoints_wf c \<Longrightarrow> get_savepoint i c = Some sp \<Longrightarrow>
   i < sm_next_id (savepoint_mgr c) \<and> sp_sequence sp < sm_next_sequence (savepoint_mgr c)"
  by (simp add: savepoints_wf_def)

lemma savepoints_wf_cong:
  "savepoint_mgr c' = savepoint_mgr c \<Longrightarrow> savepoints_wf c' = savepoints_wf c"
  by (simp add: savepoints_wf_def get_savepoint_def)

lemma get_savepoint_cong:
  "savepoint_mgr c' = savepoint_mgr c \<Longrightarrow> get_savepoint k c' = get_savepoint k c"
  by (simp add: get_savepoint_def)

lemma savepoints_above_cong:
  "savepoint_mgr c' = savepoint_mgr c \<Longrightarrow> savepoints_above s n k c' = savepoints_above s n k c"
  by (simp add: savepoints_above_def get_savepoint_def)

subsection \<open>Everything after a savepoint stays above it\<close>

lemma above_frame:
  assumes "above_savepoint enc dec i sp j0 xs0 c" "journal c' = journal c"
    "undo_above enc dec xs0 (undo_logs c')" "savepoint_mgr c' = savepoint_mgr c"
  shows "above_savepoint enc dec i sp j0 xs0 c'"
  using assms(1-3) savepoints_wf_cong [OF assms(4)] get_savepoint_cong [OF assms(4)]
    savepoints_above_cong [OF assms(4)]
  by (simp add: above_savepoint_def)

lemma above_push:
  assumes "above_savepoint enc dec i sp j0 xs0 c" "journal c' = push_journal r (journal c)"
    "undo_above enc dec xs0 (undo_logs c')" "savepoint_mgr c' = savepoint_mgr c"
  shows "above_savepoint enc dec i sp j0 xs0 c'"
  using assms(1-3) savepoints_wf_cong [OF assms(4)] get_savepoint_cong [OF assms(4)]
    savepoints_above_cong [OF assms(4)]
  by (simp add: above_savepoint_def journal_len_def records_push journal_inv_push)

lemma undo_above_add:
  assumes "undo_above enc dec xs0 l" "codes enc dec e" "undo_len l + 1 < 2 ^ 64"
  shows "undo_above enc dec xs0 (snd (undo_add enc e l))"
proof -
  obtain ys where ys: "undo_rep enc dec l (xs0 @ ys)" using assms(1) by (auto simp: undo_above_def)
  have "length (xs0 @ ys) + 1 < 2 ^ 64" using assms(3) us.size_law [OF ys] by simp
  from us.push_law [OF ys assms(2) this] show ?thesis by (auto simp: undo_above_def)
qed

lemma above_undo_logs: "above_savepoint enc dec i sp j0 xs0 c \<Longrightarrow> undo_above enc dec xs0 (undo_logs c)"
  by (simp add: above_savepoint_def)

lemma above_mutate:
  assumes "above_savepoint enc dec i sp j0 xs0 c"
    "\<And>e. undo_entry m = Some e \<Longrightarrow> codes enc dec e \<and> undo_log_len c + 1 < 2 ^ 64"
  shows "above_savepoint enc dec i sp j0 xs0 (snd (record_mutation enc now m c))"
proof -
  obtain r c' where c': "record_mutation enc now m c = (r, c')" by force
  note eff = record_mutation_effect [OF c']
  have u: "undo_above enc dec xs0 (undo_logs c')"
    using eff above_undo_logs [OF assms(1)] assms(2) undo_above_add [of enc dec xs0 "undo_logs c"]
    by (auto simp: undo_log_len_def split: option.splits)
  from eff show ?thesis
    using above_frame [OF assms(1) _ u] above_push [OF assms(1) _ u] by (auto simp: c')
qed

lemma above_create:
  assumes "above_savepoint enc dec i sp j0 xs0 c" "create_savepoint now nm sync c = (k, c')"
  shows "above_savepoint enc dec i sp j0 xs0 c'"
proof -
  note eff = create_savepoint_effect [OF assms(2)]
  have a: "savepoints_wf c" "get_savepoint i c = Some sp" "journal_len j0 \<le> journal_len (journal c)"
    "savepoints_above (sp_sequence sp) (journal_len j0) (length xs0) c"
    using assms(1) by (simp_all add: above_savepoint_def)
  obtain ys where ys: "undo_rep enc dec (undo_logs c) (xs0 @ ys)"
    using above_undo_logs [OF assms(1)] by (auto simp: undo_above_def)
  have "i \<noteq> k" using a(1,2) eff(3) by (auto simp: savepoints_wf_def)
  moreover have "savepoints_above (sp_sequence sp) (journal_len j0) (length xs0) c'"
    unfolding savepoints_above_def
  proof (intro allI impI)
    fix l sp' assume l: "get_savepoint l c' = Some sp' \<and> sp_sequence sp \<le> sp_sequence sp'"
    show "journal_len j0 \<le> sp_journal_len sp' \<and> length xs0 \<le> sp_undo_log_index sp'"
    proof (cases "l = k")
      case True
      then show ?thesis using l eff(4) a(3) us.size_law [OF ys] by (auto simp: undo_log_len_def)
    next
      case False
      then have "get_savepoint l c = Some sp'" using l eff(5) by simp
      then show ?thesis using l a(4) unfolding savepoints_above_def by blast
    qed
  qed
  ultimately show ?thesis
    using assms(1) eff(1,2,5) create_savepoint_wf [OF assms(2) a(1)] by (simp add: above_savepoint_def)
qed

lemma savepoints_update_wf:
  assumes "savepoints_wf c" "savepoint_mgr c' = (savepoint_mgr c)\<lparr> savepoints := m \<rparr>" "bm_ok m"
    "\<And>k sp. bm_get m k = Some sp \<Longrightarrow> \<exists>sp0. get_savepoint k c = Some sp0 \<and> sp_sequence sp0 = sp_sequence sp"
  shows "savepoints_wf c'"
proof -
  have "k < sm_next_id (savepoint_mgr c') \<and> sp_sequence sp < sm_next_sequence (savepoint_mgr c')"
    if "get_savepoint k c' = Some sp" for k sp
  proof -
    have "bm_get m k = Some sp" using that assms(2) by (simp add: get_savepoint_def)
    then obtain sp0 where "get_savepoint k c = Some sp0" "sp_sequence sp0 = sp_sequence sp"
      using assms(4) by blast
    with savepoints_wfD [OF assms(1) this(1)] assms(2) show ?thesis by simp
  qed
  then show ?thesis using assms(2,3) by (simp add: savepoints_wf_def)
qed

lemma above_update_savepoints:
  assumes a: "above_savepoint enc dec i sp j0 xs0 c"
    and u: "savepoint_mgr c' = (savepoint_mgr c)\<lparr> savepoints := m \<rparr>" "bm_ok m"
    and frame: "journal c' = journal c" "undo_logs c' = undo_logs c"
    and get: "bm_get m i = Some sp2" "sp_sequence sp2 = sp_sequence sp"
      "\<And>k sp1. bm_get m k = Some sp1 \<Longrightarrow> \<exists>sp0. get_savepoint k c = Some sp0 \<and>
         sp_sequence sp0 = sp_sequence sp1 \<and> sp_journal_len sp0 = sp_journal_len sp1 \<and>
         sp_undo_log_index sp0 = sp_undo_log_index sp1"
  shows "above_savepoint enc dec i sp2 j0 xs0 c'"
proof -
  have sa: "savepoints_wf c" "savepoints_above (sp_sequence sp) (journal_len j0) (length xs0) c"
    using a by (simp_all add: above_savepoint_def)
  have wf: "savepoints_wf c'"
    by (rule savepoints_update_wf [OF sa(1) u]) (use get(3) in blast)
  have g: "get_savepoint k c' = bm_get m k" for k using u by (simp add: get_savepoint_def)
  have "savepoints_above (sp_sequence sp) (journal_len j0) (length xs0) c'"
    unfolding savepoints_above_def
  proof (intro allI impI)
    fix l sp' assume l: "get_savepoint l c' = Some sp' \<and> sp_sequence sp \<le> sp_sequence sp'"
    then obtain sp0 where "get_savepoint l c = Some sp0" "sp_sequence sp0 = sp_sequence sp'"
      "sp_journal_len sp0 = sp_journal_len sp'" "sp_undo_log_index sp0 = sp_undo_log_index sp'"
      using get(3) [of l sp'] by (auto simp: g)
    then show "journal_len j0 \<le> sp_journal_len sp' \<and> length xs0 \<le> sp_undo_log_index sp'"
      using sa(2) l unfolding savepoints_above_def by metis
  qed
  then show ?thesis using a wf g frame get(1,2) by (simp add: above_savepoint_def)
qed

lemma above_drop_later:
  assumes a: "above_savepoint enc dec i sp j0 xs0 c" and s: "sp_sequence sp \<le> s"
  shows "above_savepoint enc dec i sp j0 xs0 (drop_later_savepoints s c)"
proof (rule above_update_savepoints [OF a])
  let ?m = "bm_retain (\<lambda>_ sp. \<not> sp_sequence sp > s) (savepoints (savepoint_mgr c))"
  have ok: "bm_ok (savepoints (savepoint_mgr c))" and g: "bm_get (savepoints (savepoint_mgr c)) i = Some sp"
    using a by (simp_all add: above_savepoint_def savepoints_wf_def get_savepoint_def)
  show "savepoint_mgr (drop_later_savepoints s c) = (savepoint_mgr c)\<lparr> savepoints := ?m \<rparr>"
    by (simp add: drop_later_savepoints_def)
  show "bm_ok ?m" using ok by simp
  show "bm_get ?m i = Some sp" using g s by (simp add: bm_get_retain [OF ok])
  show "\<exists>sp0. get_savepoint k c = Some sp0 \<and> sp_sequence sp0 = sp_sequence sp1 \<and>
      sp_journal_len sp0 = sp_journal_len sp1 \<and> sp_undo_log_index sp0 = sp_undo_log_index sp1"
    if "bm_get ?m k = Some sp1" for k sp1
    using that by (auto simp: bm_get_retain [OF ok] get_savepoint_def split: option.splits if_splits)
qed (simp_all add: keep_simps)

lemma execute_from_index_above:
  assumes "undo_above enc dec xs0 l" "length xs0 \<le> k"
  shows "undo_above enc dec xs0 (fst (snd (execute_undo_from_index dec t ts k l g)))"
proof -
  obtain ys where ys: "undo_rep enc dec l (xs0 @ ys)" using assms(1) by (auto simp: undo_above_def)
  show ?thesis
  proof (cases "k \<le> length (xs0 @ ys)")
    case True
    from execute_from_index_replay [OF ys this, of t ts g] assms(2) show ?thesis
      by (auto simp: undo_above_def)
  next
    case False
    then show ?thesis
      using us.size_law [OF ys] assms(1) by (simp add: execute_undo_from_index_def undo_len_def)
  qed
qed

lemma execute_undo_logs_from_index_eq:
  "execute_undo_logs_from_index dec t k c g =
     (let x = execute_undo_from_index dec t (start_timestamp c) k (undo_logs c) g in
      ((case fst x of Inl _ \<Rightarrow> Inl RollbackFailed | Inr _ \<Rightarrow> Inr ()),
       c\<lparr> undo_logs := fst (snd x) \<rparr>, snd (snd x)))"
  by (auto simp: execute_undo_logs_from_index_def Let_def split: sum.splits prod.splits)

lemma above_execute:
  assumes "above_savepoint enc dec i sp j0 xs0 c" "length xs0 \<le> k"
  shows "above_savepoint enc dec i sp j0 xs0 (fst (snd (execute_undo_logs_from_index dec t k c g)))"
  using execute_from_index_above [OF above_undo_logs [OF assms(1)] assms(2)]
  by (intro above_frame [OF assms(1)]) (simp_all add: execute_undo_logs_from_index_eq Let_def)

lemma above_restore:
  assumes "above_savepoint enc dec i sp j0 xs0 c" "journal_len j0 \<le> sp_journal_len sp'"
  shows "above_savepoint enc dec i sp j0 xs0 (snd (restore_savepoint_state sp' c))"
proof -
  let ?c = "snd (restore_savepoint_state sp' c)"
  have k: "savepoint_mgr ?c = savepoint_mgr c" "undo_logs ?c = undo_logs c"
    "journal ?c = journal c \<or> journal ?c = journal_truncate (sp_journal_len sp') (journal c)"
    by (auto simp: restore_savepoint_state_def Let_def restore_write_set_def restore_read_set_def
        ctx_rebuild_derived_logs_def)
  have j: "journal_inv (journal ?c)" "take (journal_len j0) (records (journal ?c)) = records j0"
    "journal_len j0 \<le> journal_len (journal ?c)"
    using assms k(3) by (auto simp: above_savepoint_def journal_inv_truncate records_truncate
        journal_len_def)
  then show ?thesis
    using assms(1) k(2) savepoints_wf_cong [OF k(1)] get_savepoint_cong [OF k(1)]
      savepoints_above_cong [OF k(1)]
    by (simp add: above_savepoint_def)
qed

lemma above_rollback:
  assumes a: "above_savepoint enc dec i sp j0 xs0 c"
    and s: "\<And>sp'. get_savepoint j c = Some sp' \<Longrightarrow> sp_sequence sp \<le> sp_sequence sp'"
  shows "above_savepoint enc dec i sp j0 xs0 (fst (snd (rollback_to_savepoint dec t now j c g)))"
proof (cases "get_savepoint j c")
  case None
  then show ?thesis using a by (simp add: rollback_to_savepoint_def)
next
  case (Some sp')
  have b: "journal_len j0 \<le> sp_journal_len sp'" "length xs0 \<le> sp_undo_log_index sp'"
    using a Some s [OF Some] unfolding above_savepoint_def savepoints_above_def by blast+
  obtain r c2 g2 where e: "execute_undo_logs_from_index dec t (sp_undo_log_index sp')
      (drop_later_savepoints (sp_sequence sp') c) g = (r, c2, g2)" by (metis prod.exhaust)
  have c2: "above_savepoint enc dec i sp j0 xs0 c2"
    using above_execute [OF above_drop_later [OF a s [OF Some]] b(2), of t g] e by simp
  obtain r3 c3 where c3: "restore_savepoint_state sp' c2 = (r3, c3)" by force
  have "above_savepoint enc dec i sp j0 xs0 c3" using above_restore [OF c2 b(1)] c3 by simp
  then show ?thesis
    using a c2 Some by (simp add: rollback_to_savepoint_def Let_def e c3 split: sum.split prod.split)
qed

lemma above_mark:
  assumes a: "above_savepoint enc dec i sp j0 xs0 c" and "j \<noteq> i"
  shows "above_savepoint enc dec i sp j0 xs0 (snd (set_savepoint_staging_mark j mk c))"
proof (cases "get_savepoint j c")
  case None
  then show ?thesis using a by (simp add: set_savepoint_staging_mark_def)
next
  case (Some sp')
  let ?m = "bm_insert j (sp'\<lparr> sp_staged_write_mark := mk \<rparr>) (savepoints (savepoint_mgr c))"
  show ?thesis
  proof (rule above_update_savepoints [OF a, where m = ?m])
    show "bm_ok ?m" "bm_get ?m i = Some sp"
      using a assms(2) by (simp_all add: above_savepoint_def savepoints_wf_def get_savepoint_def)
    show "\<exists>sp0. get_savepoint k c = Some sp0 \<and> sp_sequence sp0 = sp_sequence sp1 \<and>
        sp_journal_len sp0 = sp_journal_len sp1 \<and> sp_undo_log_index sp0 = sp_undo_log_index sp1"
      if "bm_get ?m k = Some sp1" for k sp1
      using that Some by (auto simp: get_savepoint_def split: if_splits)
  qed (simp_all add: set_savepoint_staging_mark_def Some)
qed

lemma above_release:
  assumes a: "above_savepoint enc dec i sp j0 xs0 c" and "j \<noteq> i"
  shows "above_savepoint enc dec i sp j0 xs0 (snd (release_savepoint j c))"
proof (cases "get_savepoint j c")
  case None
  then show ?thesis using a by (simp add: release_savepoint_def)
next
  case (Some sp')
  let ?m = "bm_remove j (savepoints (savepoint_mgr c))"
  show ?thesis
  proof (rule above_update_savepoints [OF a, where m = ?m])
    show "bm_ok ?m" "bm_get ?m i = Some sp"
      using a assms(2) by (simp_all add: above_savepoint_def savepoints_wf_def get_savepoint_def)
    show "\<exists>sp0. get_savepoint k c = Some sp0 \<and> sp_sequence sp0 = sp_sequence sp1 \<and>
        sp_journal_len sp0 = sp_journal_len sp1 \<and> sp_undo_log_index sp0 = sp_undo_log_index sp1"
      if "bm_get ?m k = Some sp1" for k sp1
      using that by (auto simp: get_savepoint_def split: if_splits)
  qed (simp_all add: release_savepoint_def Some)
qed

lemma above_add_undo:
  assumes "above_savepoint enc dec i sp j0 xs0 c" "codes enc dec e" "undo_log_len c + 1 < 2 ^ 64"
  shows "above_savepoint enc dec i sp j0 xs0 (snd (add_undo_log enc e c))"
  using undo_above_add [OF above_undo_logs [OF assms(1)] assms(2)] assms(3)
  by (intro above_frame [OF assms(1)]) (simp_all add: add_undo_log_eq undo_log_len_def)

lemma above_step:
  assumes "ctx_step enc dec t i x y" "above_savepoint enc dec i sp j0 xs0 (fst x)"
  shows "above_savepoint enc dec i sp j0 xs0 (fst y)"
  using assms
proof (induction rule: ctx_step.induct)
  case (frame c' c g g')
  then show ?case
    using above_undo_logs [of enc dec i sp j0 xs0 c] above_frame [of enc dec i sp j0 xs0 c c'] by simp
next
  case (mutate m c g now g')
  then show ?case using above_mutate [of enc dec i sp j0 xs0 c m now] by simp
next
  case (log_undo e c g g')
  then show ?case by (simp add: above_add_undo)
next
  case (savepoint c g now nm sync)
  then show ?case
    using above_create [of enc dec i sp j0 xs0 c now nm sync] by (cases "create_savepoint now nm sync c") simp
next
  case (mark j c g mk)
  then show ?case by (simp add: above_mark)
next
  case (release j c g)
  then show ?case by (simp add: above_release)
next
  case (rollback c sp' j g now)
  have "get_savepoint i c = Some sp" using rollback.prems by (simp add: above_savepoint_def)
  then have "sp' = sp" using rollback.hyps(1) by simp
  then show ?case using above_rollback [of enc dec i sp j0 xs0 c j] rollback by simp
qed

lemma above_steps:
  "ctx_steps enc dec t i x y \<Longrightarrow> above_savepoint enc dec i sp j0 xs0 (fst x) \<Longrightarrow>
   above_savepoint enc dec i sp j0 xs0 (fst y)"
  by (induction rule: rtranclp_induct) (auto intro: above_step)

lemma above_fresh:
  assumes "ctx_rep enc dec c xs" "create_savepoint now nm sync c = (i, c')" "get_savepoint i c' = Some sp"
  shows "above_savepoint enc dec i sp (journal c) xs c'"
proof -
  note eff = create_savepoint_effect [OF assms(2)]
  have wf: "savepoints_wf c" "undo_rep enc dec (undo_logs c) xs" "journal_inv (journal c)"
    using assms(1) by (simp_all add: ctx_rep_def)
  have s: "sp_sequence sp = sm_next_sequence (savepoint_mgr c)" "sp_journal_len sp = journal_len (journal c)"
    "sp_undo_log_index sp = length xs"
    using eff(4) assms(3) us.size_law [OF wf(2)] by (auto simp: undo_log_len_def)
  have "savepoints_above (sp_sequence sp) (journal_len (journal c)) (length xs) c'"
    unfolding savepoints_above_def
  proof (intro allI impI)
    fix l sp' assume l: "get_savepoint l c' = Some sp' \<and> sp_sequence sp \<le> sp_sequence sp'"
    show "journal_len (journal c) \<le> sp_journal_len sp' \<and> length xs \<le> sp_undo_log_index sp'"
    proof (cases "l = i")
      case True
      then show ?thesis using l assms(3) s by simp
    next
      case False
      then have "get_savepoint l c = Some sp'" using l eff(5) by simp
      from savepoints_wfD [OF wf(1) this] l s show ?thesis by simp
    qed
  qed
  moreover have "undo_above enc dec xs (undo_logs c')"
    using wf(2) eff(2) by (auto simp: undo_above_def intro: exI [of _ "[]"])
  ultimately show ?thesis
    using wf eff(1) assms(3) create_savepoint_wf [OF assms(2) wf(1)]
    by (simp add: above_savepoint_def journal_len_def)
qed

lemma above_mark_own:
  assumes a: "above_savepoint enc dec i sp j0 xs0 c" and c': "set_savepoint_staging_mark i mk c = (r, c')"
  shows "above_savepoint enc dec i (sp\<lparr> sp_staged_write_mark := mk \<rparr>) j0 xs0 c'"
proof -
  have g: "get_savepoint i c = Some sp" using a by (simp add: above_savepoint_def)
  let ?m = "bm_insert i (sp\<lparr> sp_staged_write_mark := mk \<rparr>) (savepoints (savepoint_mgr c))"
  show ?thesis
  proof (rule above_update_savepoints [OF a, where m = ?m])
    show "bm_ok ?m" using a by (simp add: above_savepoint_def savepoints_wf_def)
    show "\<exists>sp0. get_savepoint k c = Some sp0 \<and> sp_sequence sp0 = sp_sequence sp1 \<and>
        sp_journal_len sp0 = sp_journal_len sp1 \<and> sp_undo_log_index sp0 = sp_undo_log_index sp1"
      if "bm_get ?m k = Some sp1" for k sp1
      using that g by (auto simp: get_savepoint_def split: if_splits)
  qed (use c' in \<open>auto simp: set_savepoint_staging_mark_def g\<close>)
qed

subsection \<open>Rolling back\<close>

definition restored :: "'v enc \<Rightarrow> 'v dec \<Rightarrow> 'v transaction_context \<Rightarrow> 'v undo_log_entry list \<Rightarrow>
    'v transaction_context \<Rightarrow> bool" where
  "restored enc dec c0 xs0 c' \<longleftrightarrow>
     journal c' = journal c0 \<and> txn_write_set c' = txn_write_set c0 \<and>
     txn_read_set c' = txn_read_set c0 \<and> modified_tables c' = modified_tables c0 \<and>
     undo_rep enc dec (undo_logs c') xs0 \<and> buf_entries (local_wal c') = redo_entries (journal c0) \<and>
     mutation_count c' = journal_len (journal c0) \<and> \<not> write_validated c'"

lemma restore_savepoint_state_eq:
  assumes "sp_journal_len sp \<le> journal_len (journal c)"
  shows "\<exists>c'. restore_savepoint_state sp c = (Inr (), c') \<and>
    journal c' = journal_truncate (sp_journal_len sp) (journal c) \<and>
    txn_write_set c' = sp_write_set sp \<and> txn_read_set c' = sp_read_set sp \<and>
    modified_tables c' = sp_modified_tables sp \<and> undo_logs c' = undo_logs c \<and>
    savepoint_mgr c' = savepoint_mgr c \<and> \<not> write_validated c' \<and>
    mutation_count c' = journal_len (journal c') \<and>
    buf_entries (local_wal c') = redo_entries (journal c')"
  using assms
  by (simp add: restore_savepoint_state_def Let_def restore_write_set_def restore_read_set_def
      ctx_rebuild_derived_logs_def rebuild_derived_logs_def fold_append_full_entry fold_append_intent
      local_wal_clear_def)

lemma rollback_above:
  assumes a: "above_savepoint enc dec i sp (journal c0) xs0 c"
    and sp: "sp_journal_len sp = journal_len (journal c0)" "sp_journal_next_sequence sp = journal_len (journal c0)"
      "sp_undo_log_index sp = length xs0" "sp_write_set sp = txn_write_set c0"
      "sp_read_set sp = txn_read_set c0" "sp_modified_tables sp = modified_tables c0"
    and c0: "journal_inv (journal c0)"
    and act: "txn_state c = TxActive" "\<not> is_expired now c"
    and ys: "undo_rep enc dec (undo_logs c) (xs0 @ ys)"
    and rep: "replay t (start_timestamp c) (rev ys) g = (r, es, g2)"
    and rew: "(case sp_staged_write_mark sp of Some m \<Rightarrow> ut_rollback_staged_writes t (ctx_id c) m g2
               | None \<Rightarrow> (Inr (), g2)) = (r3, g3)"
  shows "\<exists>c'. rollback_to_savepoint dec t now i c g =
      (if is_ok r \<and> is_ok r3 then (Inr (), c', g3)
       else (Inl RollbackFailed, c', if is_ok r then g3 else g2)) \<and>
    (is_ok r \<and> is_ok r3 \<longrightarrow> restored enc dec c0 xs0 c' \<and> get_savepoint i c' = Some sp)"
proof -
  define c1 where "c1 = drop_later_savepoints (sp_sequence sp) c"
  have g: "get_savepoint i c = Some sp" "journal_len (journal c0) \<le> journal_len (journal c)"
    "savepoints_wf c" using a by (simp_all add: above_savepoint_def)
  have v: "validate_against (sp_journal_len sp) (sp_journal_next_sequence sp) (journal c) = Inr ()"
    using sp g(2) by (simp add: validate_against_def)
  obtain log where log: "execute_undo_from_index dec t (start_timestamp c) (length xs0) (undo_logs c) g =
      (r, log, g2)" "undo_rep enc dec log (xs0 @ rev es)"
    using execute_from_index_replay [OF ys, of "length xs0" t "start_timestamp c" g] rep by auto
  define c2 where "c2 = c1\<lparr> undo_logs := log \<rparr>"
  have x: "execute_undo_logs_from_index dec t (sp_undo_log_index sp) c1 g =
      ((case r of Inl _ \<Rightarrow> Inl RollbackFailed | Inr _ \<Rightarrow> Inr ()), c2, g2)"
    using log(1) sp(3) by (simp add: execute_undo_logs_from_index_eq c1_def c2_def keep_simps Let_def)
  have k: "journal c2 = journal c" "ctx_id c2 = ctx_id c" by (simp_all add: c2_def c1_def keep_simps)
  obtain c3 where c3: "restore_savepoint_state sp c2 = (Inr (), c3)"
    "journal c3 = journal_truncate (journal_len (journal c0)) (journal c)"
    "txn_write_set c3 = txn_write_set c0" "txn_read_set c3 = txn_read_set c0"
    "modified_tables c3 = modified_tables c0" "undo_logs c3 = log" "savepoint_mgr c3 = savepoint_mgr c1"
    "\<not> write_validated c3" "mutation_count c3 = journal_len (journal c3)"
    "buf_entries (local_wal c3) = redo_entries (journal c3)"
    using restore_savepoint_state_eq [of sp c2] sp g(2) k(1) by (auto simp: c2_def)
  have "journal c3 = journal c0"
    using a c0 unfolding c3(2)
    by (intro journal_eqI) (simp_all add: above_savepoint_def journal_inv_truncate records_truncate)
  moreover have "es = []" if "is_ok r"
    by (rule replay_ok [OF rep that])
  moreover have "get_savepoint i c3 = Some sp"
    using get_savepoint_drop_later [OF g(3), of i "sp_sequence sp"] g(1) get_savepoint_cong [OF c3(7), of i]
    by (simp add: c1_def)
  ultimately have "is_ok r \<Longrightarrow> restored enc dec c0 xs0 c3 \<and> get_savepoint i c3 = Some sp"
    using c3 log(2) by (simp add: restored_def)
  then show ?thesis
    using g(1) v act x c3(1) rew [folded k(2)]
    by (cases r; cases r3) (auto simp: rollback_to_savepoint_def state_can_execute_def
        c1_def [symmetric] Let_def)
qed

lemma record_entity_sets:
  "txn_write_set (fold record_entity ks c) = fold (\<lambda>k ws. case k of
      KeyVertex v \<Rightarrow> record_vertex v ws | KeyEdge e \<Rightarrow> record_edge e ws) ks (txn_write_set c)"
proof (induction ks arbitrary: c)
  case (Cons k ks)
  then show ?case by (cases k) (simp_all add: ctx_record_vertex_write_def ctx_record_edge_write_def)
qed simp

definition key_recorded :: "mutation_entity_key \<Rightarrow> write_set \<Rightarrow> bool" where
  "key_recorded k ws = (case k of KeyVertex v \<Rightarrow> v \<in> vertices ws | KeyEdge e \<Rightarrow> e \<in> edges ws)"

lemma key_recorded_mono:
  "key_recorded k ws \<Longrightarrow> key_recorded k (record_vertex v ws)"
  "key_recorded k ws \<Longrightarrow> key_recorded k (record_edge e ws)"
  "key_recorded k ws \<Longrightarrow> key_recorded k (record_schema_resource r ws)"
  "key_recorded k ws \<Longrightarrow> key_recorded k (record_index_resource r ws)"
  by (auto simp: key_recorded_def record_vertex_def record_edge_def record_schema_resource_def
      record_index_resource_def split: mutation_entity_key.splits)

lemma fold_entities_recorded:
  "key_recorded k ws \<or> k \<in> set ks \<Longrightarrow> key_recorded k (fold (\<lambda>k ws. case k of
      KeyVertex v \<Rightarrow> record_vertex v ws | KeyEdge e \<Rightarrow> record_edge e ws) ks ws)"
proof (induction ks arbitrary: ws)
  case (Cons a ks)
  have "key_recorded k (case a of KeyVertex v \<Rightarrow> record_vertex v ws | KeyEdge e \<Rightarrow> record_edge e ws)"
    if "key_recorded k ws \<or> k = a"
    using that by (cases a) (auto simp: key_recorded_def record_vertex_def record_edge_def
        split: mutation_entity_key.splits)
  then show ?case using Cons by auto
qed simp

lemma fold_index_writes_recorded:
  "key_recorded k (txn_write_set c) \<Longrightarrow>
   key_recorded k (txn_write_set (fold (\<lambda>i. ctx_record_index_write (f i)) is c))"
  by (induction "is" arbitrary: c) (simp_all add: ctx_record_index_write_def key_recorded_mono)

lemma record_resource_writes_recorded:
  assumes "k \<in> set (entity_keys m)"
  shows "key_recorded k (txn_write_set (record_resource_writes m c))"
proof -
  have "key_recorded k (txn_write_set (fold record_entity (entity_keys m) c))"
    using assms by (simp add: record_entity_sets fold_entities_recorded)
  then show ?thesis
    by (simp add: record_resource_writes_def Let_def fold_index_writes_recorded
        ctx_record_schema_write_def key_recorded_mono)
qed

lemma record_table_modification_in: "x \<in> set (modified_tables (record_table_modification x c))"
  by (simp add: record_table_modification_def)

lemma record_table_modification_write_set [simp]:
  "txn_write_set (record_table_modification x c) = txn_write_set c"
  by (simp add: record_table_modification_def)

lemma record_mutation_ok:
  assumes "record_mutation enc now m c = (Inr (), c')"
  obtains c1 c2 where "can_execute now c = Inr ()" "\<not> read_only c"
    "charge_mutation_count c = (Inr (), c1)" "charge_undo_bytes c1 = (Inr (), c2)"
    "txn_write_set c' = txn_write_set (record_resource_writes m
       (c2\<lparr> journal := push_journal (journal_record m c) (journal c) \<rparr>))"
    "journal c' = push_journal (journal_record m c) (journal c)"
    "\<And>x. modified_table m = Some x \<Longrightarrow> x \<in> set (modified_tables c')" "\<not> write_validated c'"
proof -
  obtain r1 c1 r2 c2 where c1: "charge_mutation_count c = (r1, c1)" and c2: "charge_undo_bytes c1 = (r2, c2)"
    by (metis prod.exhaust)
  have ok: "can_execute now c = Inr ()" "\<not> read_only c" "r1 = Inr ()" "r2 = Inr ()"
    using assms c1 c2
    by (auto simp: record_mutation_def validate_write_allowed_def split: sum.splits if_splits)
  define c4 where "c4 = record_resource_writes m
    (c2\<lparr> journal := push_journal (journal_record m c) (journal c) \<rparr>)"
  have k: "snd (journal_push (journal_record m c2) (journal c2)) = push_journal (journal_record m c) (journal c)"
    using charge_mutation_count_keep [OF c1, of m] charge_undo_bytes_keep [OF c2, of m]
    by (simp add: push_journal_def)
  have "journal c4 = push_journal (journal_record m c) (journal c)" by (simp add: c4_def keep_simps)
  moreover from assms c1 c2 ok have
    "(case (case undo_entry m of Some e \<Rightarrow> add_undo_log enc e c4 | None \<Rightarrow> (Inr (), c4)) of
        (Inl e, c5) \<Rightarrow> (Inl e, c5)
      | (Inr _, c5) \<Rightarrow> (Inr (), (case modified_table m of Some t \<Rightarrow> record_table_modification t c5 | None \<Rightarrow> c5)
           \<lparr> write_validated := False \<rparr>)) = (Inr (), c')"
    unfolding c4_def k [symmetric] by (simp add: record_mutation_def Let_def validate_write_allowed_def)
  ultimately have "txn_write_set c' = txn_write_set c4"
    "journal c' = push_journal (journal_record m c) (journal c)" "\<not> write_validated c'"
    "\<And>x. modified_table m = Some x \<Longrightarrow> x \<in> set (modified_tables c')"
    by (auto simp: add_undo_log_eq keep_simps record_table_modification_in
        split: sum.splits option.splits prod.splits)
  then show thesis using that c1 c2 ok by (simp add: c4_def)
qed

lemma can_execute_Inr:
  "can_execute now c = Inr () \<longleftrightarrow> txn_state c = TxActive \<and> \<not> rollback_only c \<and> \<not> is_expired now c"
  by (simp add: can_execute_def state_can_execute_def)

lemma record_mutation_rejected_unchanged:
  assumes "can_execute now c \<noteq> Inr () \<or> read_only c"
  shows "\<exists>e. record_mutation enc now m c = (Inl e, c)"
  using assms
  by (cases "can_execute now c")
    (auto simp: record_mutation_def validate_write_allowed_def)

subsection \<open>Properties\<close>

text \<open>
  C9.  Rolling back to a savepoint.  Whatever a transaction does after creating
  a savepoint with a staging mark (mutations that succeed or fail, reads and
  writes, further savepoints, releases and rollbacks of later savepoints,
  changes of its state or of the storage), rolling back to it undoes on the
  storage target exactly the entries logged since, newest first, rewinds the
  staged writes to the mark, and gives back the journal, write set, read set,
  modified tables, undo log, redo buffer and mutation count of the savepoint,
  which stays usable.  It reports a failure exactly when an undo entry or the
  rewind fails.
\<close>

theorem savepoint_rollback_restores:
  assumes c0: "ctx_rep enc dec c0 xs0" and sp: "create_savepoint now0 nm sync c0 = (i, ca)"
    and mk: "set_savepoint_staging_mark i mk ca = (Inr (), c1)"
    and run: "ctx_steps enc dec t i (c1, g1) (c, g)"
    and act: "txn_state c = TxActive" "\<not> is_expired now c"
  shows "\<exists>ys. undo_rep enc dec (undo_logs c) (xs0 @ ys) \<and>
    (case replay t (start_timestamp c) (rev ys) g of (r, es, g2) \<Rightarrow>
     case (case mk of Some m \<Rightarrow> ut_rollback_staged_writes t (ctx_id c) m g2 | None \<Rightarrow> (Inr (), g2)) of (r3, g3) \<Rightarrow>
       \<exists>c'. rollback_to_savepoint dec t now i c g =
          (if is_ok r \<and> is_ok r3 then (Inr (), c', g3)
           else (Inl RollbackFailed, c', if is_ok r then g3 else g2)) \<and>
        (is_ok r \<and> is_ok r3 \<longrightarrow> restored enc dec c0 xs0 c' \<and> get_savepoint i c' \<noteq> None))"
proof -
  obtain sp where g: "get_savepoint i ca = Some sp" and s:
    "sp_journal_len sp = journal_len (journal c0)" "sp_journal_next_sequence sp = next_sequence (journal c0)"
    "sp_undo_log_index sp = undo_log_len c0" "sp_write_set sp = txn_write_set c0"
    "sp_read_set sp = txn_read_set c0" "sp_modified_tables sp = modified_tables c0"
    using create_savepoint_effect(4) [OF sp] by auto
  let ?sp = "sp\<lparr> sp_staged_write_mark := mk \<rparr>"
  have inv: "journal_inv (journal c0)" "undo_rep enc dec (undo_logs c0) xs0"
    using c0 by (simp_all add: ctx_rep_def)
  have "above_savepoint enc dec i ?sp (journal c0) xs0 c1"
    by (rule above_mark_own [OF above_fresh [OF c0 sp g] mk])
  then have a: "above_savepoint enc dec i ?sp (journal c0) xs0 c"
    using above_steps [OF run] by simp
  obtain ys where ys: "undo_rep enc dec (undo_logs c) (xs0 @ ys)"
    using above_undo_logs [OF a] by (auto simp: undo_above_def)
  obtain r es g2 where rep: "replay t (start_timestamp c) (rev ys) g = (r, es, g2)" by (metis prod.exhaust)
  obtain r3 g3 where rew: "(case sp_staged_write_mark ?sp of
      Some m \<Rightarrow> ut_rollback_staged_writes t (ctx_id c) m g2 | None \<Rightarrow> (Inr (), g2)) = (r3, g3)"
    by (metis prod.exhaust)
  have idx: "sp_journal_next_sequence sp = journal_len (journal c0)" "sp_undo_log_index sp = length xs0"
    using s inv us.size_law [OF inv(2)]
    by (simp_all add: journal_inv_def journal_len_def undo_log_len_def)
  from rollback_above [OF a _ _ _ _ _ _ inv(1) act ys rep rew] s idx rew rep ys show ?thesis
    by (intro exI [of _ ys]) auto
qed

theorem savepoint_rollback_restores_witness:
  "\<exists>i ca c1 c c'. create_savepoint 1 (Some ''s'') 0 (context_new 0 7 5 demo_config) = (i, ca) \<and>
     set_savepoint_staging_mark i None ca = (Inr (), c1) \<and>
     record_mutation demo_enc 2 demo_mutation c1 = (Inr (), c) \<and> journal_len (journal c) = 1 \<and>
     rollback_to_savepoint demo_dec demo_target 3 i c [] = (Inr (), c', [1]) \<and>
     restored demo_enc demo_dec (context_new 0 7 5 demo_config) [] c'"
proof -
  let ?c0 = "context_new 0 7 5 demo_config :: nat transaction_context"
  have c0: "ctx_rep demo_enc demo_dec ?c0 []"
    by (simp add: ctx_rep_def context_new_def undo_rep_new savepoints_wf_def savepoint_manager_new_def
        get_savepoint_def)
  obtain i ca where sp: "create_savepoint 1 (Some ''s'') 0 ?c0 = (i, ca)" by force
  obtain c1 where mk: "set_savepoint_staging_mark i None ca = (Inr (), c1)"
    using create_savepoint_effect(4) [OF sp] by (auto simp: set_savepoint_staging_mark_def)
  have f: "txn_state c1 = TxActive" "start_time c1 = 0" "config c1 = demo_config" "\<not> rollback_only c1"
    "\<not> read_only c1" "mutation_count c1 = 0" "undo_bytes c1 = 0" "start_timestamp c1 = 5"
    "undo_logs c1 = undo_log_new undo_log_default_threshold" "journal c1 = journal_new"
    "modified_tables c1 = []"
    using sp mk by (auto simp: create_savepoint_def set_savepoint_staging_mark_def get_savepoint_def
        context_new_def Let_def)
  define c where "c = snd (record_mutation demo_enc 2 demo_mutation c1)"
  have m: "record_mutation demo_enc 2 demo_mutation c1 = (Inr (), c)" "txn_state c = TxActive"
    "start_time c = 0" "config c = demo_config" "start_timestamp c = 5" "journal_len (journal c) = 1"
    "undo_logs c = snd (undo_add demo_enc (CreateVertexType 1) (undo_logs c1))"
    using f unfolding c_def
    by (simp_all add: record_mutation_def can_execute_def state_can_execute_def is_expired_def demo_config_def
        validate_write_allowed_def charge_mutation_count_def charge_undo_bytes_def Let_def demo_mutation_def
        with_undo_def with_table_def with_redo_def mutation_result_new_def wal_entry_new_def from_wal_op_def
        from_modified_table_def record_resource_writes_def resolve_resource_def ctx_record_vertex_write_def
        add_undo_log_def undo_add_def undo_log_new_def undo_log_default_threshold_def
        record_table_modification_def journal_push_def journal_len_def journal_new_def)
  have run: "ctx_steps demo_enc demo_dec demo_target i (c1, []) (c, [])"
    unfolding c_def using f
    by (intro r_into_rtranclp ctx_step.mutate)
      (auto simp: demo_mutation_def with_undo_def undo_log_len_def undo_len_def undo_log_new_def
        intro: demo_codes)
  have ex: "\<not> is_expired 3 c" using m by (simp add: is_expired_def demo_config_def)
  from savepoint_rollback_restores [OF c0 sp mk run m(2) ex] obtain ys where
    ys: "undo_rep demo_enc demo_dec (undo_logs c) ([] @ ys)" and
    r: "case replay demo_target (start_timestamp c) (rev ys) [] of (r, es, g2) \<Rightarrow>
      case (case None of Some m \<Rightarrow> ut_rollback_staged_writes demo_target (ctx_id c) m g2 | None \<Rightarrow> (Inr (), g2))
      of (r3, g3) \<Rightarrow> \<exists>c'. rollback_to_savepoint demo_dec demo_target 3 i c [] =
          (if is_ok r \<and> is_ok r3 then (Inr (), c', g3)
           else (Inl RollbackFailed, c', if is_ok r then g3 else g2)) \<and>
        (is_ok r \<and> is_ok r3 \<longrightarrow> restored demo_enc demo_dec ?c0 [] c' \<and> get_savepoint i c' \<noteq> None)"
    by - (elim exE conjE, rule that)
  have "spill_file (undo_logs c) = None" "buffer (undo_logs c) = [CreateVertexType 1]"
    unfolding m(7) f(9) by (simp_all add: undo_add_def undo_log_new_def undo_log_default_threshold_def)
  then have "ys = [CreateVertexType 1]" using undo_rep_unspilled [OF ys] by simp
  with r sp mk m show ?thesis by (auto simp: demo_target_def)
qed

lemma record_mutation_logged:
  assumes ok: "record_mutation enc now m c = (Inr (), c')" and inv: "journal_inv (journal c)"
  shows "journal_inv (journal c')" "journal_len (journal c') = journal_len (journal c) + 1"
    "redo_entries (journal c') = redo_entries (journal c) @
        (case redo_entry m of None \<Rightarrow> [] | Some e \<Rightarrow> [with_transaction (ctx_id c) (journal_len (journal c)) e])"
    "wal_intents (journal c') = wal_intents (journal c) @ index_intents m"
    "list_all (\<lambda>k. key_recorded k (txn_write_set c')) (entity_keys m)"
    "set_option (modified_table m) \<subseteq> set (modified_tables c')" "\<not> write_validated c'"
proof -
  obtain c2 where o: "txn_write_set c' = txn_write_set (record_resource_writes m
       (c2\<lparr> journal := push_journal (journal_record m c) (journal c) \<rparr>))"
    "journal c' = push_journal (journal_record m c) (journal c)"
    "\<And>x. modified_table m = Some x \<Longrightarrow> x \<in> set (modified_tables c')" "\<not> write_validated c'"
    by (rule record_mutation_ok [OF ok]) blast
  show "journal_inv (journal c')" using inv by (simp add: o(2) journal_inv_push)
  show "journal_len (journal c') = journal_len (journal c) + 1"
    using inv by (simp add: o(2) journal_len_def records_push)
  show "redo_entries (journal c') = redo_entries (journal c) @
        (case redo_entry m of None \<Rightarrow> [] | Some e \<Rightarrow> [with_transaction (ctx_id c) (journal_len (journal c)) e])"
    using inv by (simp add: o(2) redo_entries_push journal_record_def journal_inv_def journal_len_def
        split: option.split)
  show "wal_intents (journal c') = wal_intents (journal c) @ index_intents m"
    by (simp add: o(2) wal_intents_push journal_record_def)
  show "list_all (\<lambda>k. key_recorded k (txn_write_set c')) (entity_keys m)"
    by (simp add: list_all_iff o(1) record_resource_writes_recorded)
  show "set_option (modified_table m) \<subseteq> set (modified_tables c')"
    using o(3) by (cases "modified_table m") auto
  show "\<not> write_validated c'" by (fact o(4))
qed

definition may_record :: "instant \<Rightarrow> 'v transaction_context \<Rightarrow> bool" where
  "may_record now c \<longleftrightarrow> txn_state c = TxActive \<and> \<not> rollback_only c \<and> \<not> is_expired now c \<and> \<not> read_only c \<and>
     (cfg_max_mutation_count (config c) > 0 \<longrightarrow> mutation_count c < cfg_max_mutation_count (config c)) \<and>
     (cfg_max_undo_bytes (config c) > 0 \<longrightarrow> undo_bytes c + 64 \<le> cfg_max_undo_bytes (config c))"

lemma charge_mutation_count_view:
  "fst (charge_mutation_count c) = Inr () \<longleftrightarrow>
     (cfg_max_mutation_count (config c) > 0 \<longrightarrow> mutation_count c < cfg_max_mutation_count (config c))"
  "config (snd (charge_mutation_count c)) = config c" "undo_bytes (snd (charge_mutation_count c)) = undo_bytes c"
  "txn_write_set (snd (charge_mutation_count c)) = txn_write_set c"
  "modified_tables (snd (charge_mutation_count c)) = modified_tables c"
  "write_validated (snd (charge_mutation_count c)) = write_validated c"
  by (auto simp: charge_mutation_count_def Let_def)

lemma charge_undo_bytes_view:
  "fst (charge_undo_bytes c) = Inr () \<longleftrightarrow>
     (cfg_max_undo_bytes (config c) > 0 \<longrightarrow> undo_bytes c + 64 \<le> cfg_max_undo_bytes (config c))"
  "txn_write_set (snd (charge_undo_bytes c)) = txn_write_set c"
  "modified_tables (snd (charge_undo_bytes c)) = modified_tables c"
  "write_validated (snd (charge_undo_bytes c)) = write_validated c"
  by (auto simp: charge_undo_bytes_def Let_def)

lemma may_record_iff:
  "may_record now c \<longleftrightarrow> can_execute now c = Inr () \<and> validate_write_allowed c = Inr () \<and>
     fst (charge_mutation_count c) = Inr () \<and> fst (charge_undo_bytes (snd (charge_mutation_count c))) = Inr ()"
  by (auto simp: may_record_def can_execute_Inr validate_write_allowed_def charge_mutation_count_view charge_undo_bytes_view)

lemma record_mutation_accepted:
  assumes may: "may_record now c" and rep: "undo_rep enc dec (undo_logs c) xs" "length xs + 1 < 2 ^ 64"
    and cd: "\<forall>e \<in> set_option (undo_entry m). codes enc dec e"
  shows "\<exists>c'. record_mutation enc now m c = (Inr (), c') \<and>
    undo_rep enc dec (undo_logs c') (xs @ (case undo_entry m of None \<Rightarrow> [] | Some e \<Rightarrow> [e]))"
proof -
  obtain c1 c2 where c: "charge_mutation_count c = (Inr (), c1)" "charge_undo_bytes c1 = (Inr (), c2)"
    "can_execute now c = Inr ()" "validate_write_allowed c = Inr ()" using may unfolding may_record_iff by (metis prod.collapse)
  define c4 where "c4 = record_resource_writes m
    (c2\<lparr> journal := snd (journal_push (journal_record m c2) (journal c2)) \<rparr>)"
  have u: "undo_logs c4 = undo_logs c"
    using charge_mutation_count_keep [OF c(1), of m] charge_undo_bytes_keep [OF c(2), of m] by (simp add: c4_def keep_simps)
  have "record_mutation enc now m c =
    (case (case undo_entry m of Some e \<Rightarrow> add_undo_log enc e c4 | None \<Rightarrow> (Inr (), c4)) of
        (Inl e, c5) \<Rightarrow> (Inl e, c5)
      | (Inr _, c5) \<Rightarrow> (Inr (), (case modified_table m of Some t \<Rightarrow> record_table_modification t c5 | None \<Rightarrow> c5)
           \<lparr> write_validated := False \<rparr>))"
    unfolding c4_def by (simp add: record_mutation_def c Let_def)
  moreover obtain c5 where "(case undo_entry m of Some e \<Rightarrow> add_undo_log enc e c4 | None \<Rightarrow> (Inr (), c4)) = (Inr (), c5)"
    "undo_rep enc dec (undo_logs c5) (xs @ (case undo_entry m of None \<Rightarrow> [] | Some e \<Rightarrow> [e]))"
  proof (cases "undo_entry m")
    case None
    then show thesis using that [of c4] rep(1) u by simp
  next
    case (Some e)
    then obtain log where "undo_add enc e (undo_logs c4) = (Inr (), log)" "undo_rep enc dec log (xs @ [e])"
      using undo_add_rep [OF rep(1) _ rep(2), of e] cd u by auto
    then show thesis using that [of "c4\<lparr> undo_logs := log \<rparr>"] Some by (simp add: add_undo_log_def)
  qed
  ultimately show ?thesis by (auto simp: keep_simps split: option.splits)
qed

lemma record_mutation_refused:
  assumes "\<not> may_record now c"
  obtains e c' where "record_mutation enc now m c = (Inl e, c')" "journal c' = journal c" "undo_logs c' = undo_logs c"
    "txn_write_set c' = txn_write_set c" "modified_tables c' = modified_tables c" "write_validated c' = write_validated c"
proof (cases "can_execute now c = Inr () \<and> \<not> read_only c")
  case False
  then obtain e where "record_mutation enc now m c = (Inl e, c)" using record_mutation_rejected_unchanged by blast
  then show thesis using that by blast
next
  case True
  obtain r1 c1 r2 c2 where c1: "charge_mutation_count c = (r1, c1)" and c2: "charge_undo_bytes c1 = (r2, c2)"
    by (metis prod.exhaust)
  note keep = charge_mutation_count_keep [OF c1, of m] charge_undo_bytes_keep [OF c2, of m]
    charge_mutation_count_view [of c, unfolded c1, simplified] charge_undo_bytes_view [of c1, unfolded c2, simplified]
  have "r1 \<noteq> Inr () \<or> r2 \<noteq> Inr ()" using assms True c1 c2 by (simp add: may_record_iff validate_write_allowed_def)
  then consider e where "r1 = Inl e" | e where "r1 = Inr ()" "r2 = Inl e" by (cases r1; cases r2) auto
  then show thesis
  proof cases
    case 1
    then show thesis using that [of e c1] keep True c1 by (simp add: record_mutation_def validate_write_allowed_def)
  next
    case 2
    then show thesis using that [of e c2] keep True c1 c2 by (simp add: record_mutation_def validate_write_allowed_def)
  qed
qed

text \<open>
  C37.  Recording a mutation.  For an undo codec that decodes what it encoded, recording
  succeeds exactly in an active, unexpired, writable transaction within its mutation and
  undo budgets, and then every log sees the mutation: the journal grows by one record at
  the next sequence number whose redo entry carries the transaction and that number, the
  undo log grows by the undo entry, every entity key is in the write set, the modified
  table is listed and certification has to be repeated.  When it fails, journal, undo log,
  write set, tables and certification mark are as before, and a transaction that may not
  write is left as it was altogether.
\<close>

theorem record_mutation_in_all_logs:
  assumes "journal_inv (journal c)" "undo_rep enc dec (undo_logs c) xs" "length xs + 1 < 2 ^ 64"
    "\<forall>e \<in> set_option (undo_entry m). codes enc dec e"
  shows "(fst (record_mutation enc now m c) = Inr () \<longleftrightarrow>
      txn_state c = TxActive \<and> \<not> rollback_only c \<and> \<not> is_expired now c \<and> \<not> read_only c \<and>
      (cfg_max_mutation_count (config c) > 0 \<longrightarrow> mutation_count c < cfg_max_mutation_count (config c)) \<and>
      (cfg_max_undo_bytes (config c) > 0 \<longrightarrow> undo_bytes c + 64 \<le> cfg_max_undo_bytes (config c))) \<and>
    (record_mutation enc now m c = (Inr (), c') \<longrightarrow>
      journal_inv (journal c') \<and> journal_len (journal c') = journal_len (journal c) + 1 \<and>
      redo_entries (journal c') = redo_entries (journal c) @
        (case redo_entry m of None \<Rightarrow> []
         | Some e \<Rightarrow> [with_transaction (ctx_id c) (journal_len (journal c)) e]) \<and>
      wal_intents (journal c') = wal_intents (journal c) @ index_intents m \<and>
      undo_rep enc dec (undo_logs c') (xs @ (case undo_entry m of None \<Rightarrow> [] | Some e \<Rightarrow> [e])) \<and>
      list_all (\<lambda>k. key_recorded k (txn_write_set c')) (entity_keys m) \<and>
      set_option (modified_table m) \<subseteq> set (modified_tables c') \<and> \<not> write_validated c') \<and>
    (record_mutation enc now m c = (Inl err, c') \<longrightarrow>
      journal c' = journal c \<and> undo_logs c' = undo_logs c \<and> txn_write_set c' = txn_write_set c \<and>
      modified_tables c' = modified_tables c \<and> write_validated c' = write_validated c) \<and>
    (txn_state c \<noteq> TxActive \<or> rollback_only c \<or> is_expired now c \<or> read_only c \<longrightarrow>
      (\<exists>e. record_mutation enc now m c = (Inl e, c)))"
proof -
  note acc = record_mutation_accepted [OF _ assms(2-4)]
  have iff: "fst (record_mutation enc now m c) = Inr () \<longleftrightarrow> may_record now c"
  proof (cases "may_record now c")
    case True
    then show ?thesis using acc [OF True] by auto
  next
    case False
    obtain e c0 where "record_mutation enc now m c = (Inl e, c0)" by (rule record_mutation_refused [OF False])
    with False show ?thesis by simp
  qed
  have ok: "undo_rep enc dec (undo_logs c') (xs @ (case undo_entry m of None \<Rightarrow> [] | Some e \<Rightarrow> [e]))"
    if "record_mutation enc now m c = (Inr (), c')"
    using acc [of now] iff that by auto
  have err: "journal c' = journal c \<and> undo_logs c' = undo_logs c \<and> txn_write_set c' = txn_write_set c \<and>
      modified_tables c' = modified_tables c \<and> write_validated c' = write_validated c"
    if r: "record_mutation enc now m c = (Inl err, c')"
  proof -
    have "\<not> may_record now c" using iff r by auto
    then show ?thesis by (rule record_mutation_refused [of now c enc m]) (use r in auto)
  qed
  have no: "\<exists>e. record_mutation enc now m c = (Inl e, c)"
    if "txn_state c \<noteq> TxActive \<or> rollback_only c \<or> is_expired now c \<or> read_only c"
    using that by (intro record_mutation_rejected_unchanged) (auto simp: can_execute_Inr)
  show ?thesis
    using iff [unfolded may_record_def] ok record_mutation_logged [OF _ assms(1), of enc now m c'] err no by blast
qed

theorem record_mutation_in_all_logs_witness:
  "let c = context_new 0 7 5 demo_config; r = record_mutation demo_enc 2 demo_mutation c in
   journal_inv (journal c) \<and> fst r = Inr () \<and>
   redo_entries (journal (snd r)) = [with_transaction 7 0 (wal_entry_new OpInsertVertex 5 [1])] \<and>
   vertex_id_new \<in> vertices (txn_write_set (snd r)) \<and> undo_len (undo_logs (snd r)) = 1 \<and>
   record_mutation demo_enc 31 demo_mutation c = (Inl TransactionExpired, c)"
proof -
  let ?c = "context_new 0 7 5 demo_config :: nat transaction_context"
  let ?r = "record_mutation demo_enc 2 demo_mutation ?c"
  have r: "fst ?r = Inr ()"
    by (simp add: record_mutation_def can_execute_def state_can_execute_def is_expired_def demo_config_def
        context_new_def validate_write_allowed_def charge_mutation_count_def charge_undo_bytes_def Let_def
        demo_mutation_def with_undo_def with_table_def with_redo_def mutation_result_new_def
        wal_entry_new_def from_wal_op_def from_modified_table_def record_resource_writes_def
        resolve_resource_def ctx_record_vertex_write_def add_undo_log_def undo_add_def undo_log_new_def
        undo_log_default_threshold_def)
  then have "?r = (Inr (), snd ?r)" by (metis prod.collapse)
  moreover have expired: "record_mutation demo_enc 31 demo_mutation ?c = (Inl TransactionExpired, ?c)"
    by (simp add: record_mutation_def can_execute_def state_can_execute_def is_expired_def demo_config_def
        context_new_def)
  moreover have "redo_entry demo_mutation = Some (wal_entry_new OpInsertVertex 5 [1])"
    "entity_keys demo_mutation = [KeyVertex vertex_id_new]" "ctx_id ?c = 7"
    by (simp_all add: demo_mutation_def with_undo_def with_table_def with_redo_def mutation_result_new_def
        wal_entry_new_def from_wal_op_def context_new_def)
  moreover have "redo_entries (journal ?c) = []" "journal_len (journal ?c) = 0"
    by (simp_all add: context_new_def redo_entries_def journal_new_def journal_len_def List.map_filter_def)
  moreover have inv: "journal_inv (journal ?c)" by (simp add: context_new_def)
  moreover have "undo_rep demo_enc demo_dec (undo_logs ?c) []" by (simp add: context_new_def undo_rep_new)
  moreover have "undo_entry demo_mutation = Some (CreateVertexType 1)" "codes demo_enc demo_dec (CreateVertexType 1)"
    by (simp_all add: demo_mutation_def with_undo_def with_table_def with_redo_def mutation_result_new_def demo_codes)
  ultimately have "undo_rep demo_enc demo_dec (undo_logs (snd ?r)) [CreateVertexType 1] \<and>
      redo_entries (journal (snd ?r)) = [with_transaction 7 0 (wal_entry_new OpInsertVertex 5 [1])] \<and>
      key_recorded (KeyVertex vertex_id_new) (txn_write_set (snd ?r))"
    using record_mutation_in_all_logs [of ?c demo_enc demo_dec "[]" demo_mutation 2 "snd ?r"] by simp
  then show ?thesis using r expired inv by (auto simp: Let_def key_recorded_def dest: undo_rep_len)
qed

end
