(* ===== verification/StagedSavepoint.thy ===== *)
theory StagedSavepoint
  imports Staging TxnContext
begin

text \<open>
  Savepoints over staged vertex writes: the transaction context of
  \<open>linkrs-transaction/src/context/savepoint.rs\<close> run against the storage undo
  target of \<open>linkrs-storage/src/engine/transaction/undo.rs\<close>, whose staged-write
  half is modelled in \<open>Staging\<close>.  The edge half of the target is the argument
  \<open>edge_target\<close>.
\<close>

definition storage_target ::
  "'v vertex_tables \<Rightarrow> ('v staging_store, 'v) undo_target \<Rightarrow> ('v staging_store, 'v) undo_target" where
  "storage_target vt edge_target = edge_target
     \<lparr> ut_staged_write_mark := store_staged_write_mark,
       ut_rollback_staged_writes := store_rollback_staged_writes vt \<rparr>"

lemma mark_without_buffer:
  "\<lbrakk> txn_buffers st t = None; staged_wal st t = None \<rbrakk> \<Longrightarrow> store_staged_write_mark t st = None"
  by (simp add: store_staged_write_mark_def peek_txn_staging_mark_def staged_wal_len_for_def)

lemma unmarked_rollback_keeps_store:
  assumes c0: "ctx_rep enc dec c0 xs0" and sp: "create_savepoint now0 nm sync c0 = (i, ca)"
    and mk: "set_savepoint_staging_mark i None ca = (Inr (), c1)"
    and act: "txn_state c1 = TxActive" "\<not> is_expired now c1"
  shows "\<exists>c'. rollback_to_savepoint dec t now i c1 g = (Inr (), c', g)"
proof -
  obtain sp where g: "get_savepoint i ca = Some sp" and s:
    "sp_journal_len sp = journal_len (journal c0)" "sp_journal_next_sequence sp = next_sequence (journal c0)"
    "sp_undo_log_index sp = undo_log_len c0" "sp_write_set sp = txn_write_set c0"
    "sp_read_set sp = txn_read_set c0" "sp_modified_tables sp = modified_tables c0"
    using create_savepoint_effect(4) [OF sp] by auto
  let ?sp = "sp\<lparr> sp_staged_write_mark := None \<rparr>"
  have inv: "journal_inv (journal c0)" "undo_rep enc dec (undo_logs c0) xs0"
    using c0 by (simp_all add: ctx_rep_def)
  have a: "above_savepoint enc dec i ?sp (journal c0) xs0 c1"
    by (rule above_mark_own [OF above_fresh [OF c0 sp g] mk])
  have "undo_logs c1 = undo_logs c0"
    using sp mk by (auto simp: create_savepoint_def set_savepoint_staging_mark_def Let_def
        split: option.splits)
  with inv have ys: "undo_rep enc dec (undo_logs c1) (xs0 @ [])" by simp
  have idx: "sp_journal_next_sequence sp = journal_len (journal c0)" "sp_undo_log_index sp = length xs0"
    using s inv us.size_law [OF inv(2)]
    by (simp_all add: journal_inv_def journal_len_def undo_log_len_def)
  have rew: "(case sp_staged_write_mark ?sp of
      Some m \<Rightarrow> ut_rollback_staged_writes t (ctx_id c1) m g | None \<Rightarrow> (Inr (), g)) = (Inr (), g)"
    by simp
  have rep: "replay t (start_timestamp c1) (rev []) g = (Inr (), [], g)" by simp
  show ?thesis
    using rollback_above [OF a _ _ _ _ _ _ inv(1) act ys rep rew] s idx by auto
qed

definition empty_store :: "'v staging_store" where
  "empty_store = \<lparr> txn_buffers = Map.empty, staged_wal = Map.empty, release_calls = [] \<rparr>"

definition demo_tables :: "nat vertex_tables" where
  "demo_tables = \<lparr> vt_label_known = (\<lambda>l. l = 1), vt_prepare_update = (\<lambda>_ cs. Some cs),
     vt_internal_id = (\<lambda>_ _ _. Some 3), vt_replacement = (\<lambda>_ _ _. None) \<rparr>"

definition demo_store_target :: "(nat staging_store, nat) undo_target" where
  "demo_store_target = \<lparr> ut_delete_vertex_type = (\<lambda>_ g. (Inr (), g)),
     ut_delete_edge_type = (\<lambda>_ g. (Inr (), g)), ut_delete_edge = (\<lambda>_ _ g. (Inr (), g)),
     ut_restore_edge = (\<lambda>_ _ _ g. (Inr (), g)),
     ut_undo_update_edge_property = (\<lambda>_ _ _ _ g. (Inr (), g)),
     ut_revert_delete_edge = (\<lambda>_ _ g. (Inr (), g)), ut_staged_write_mark = (\<lambda>_ _. None),
     ut_rollback_staged_writes = (\<lambda>_ _ g. (Inr (), g)) \<rparr>"

text \<open>
  C34.  A savepoint created before the first staged write of its transaction does
  not rewind staged writes: the storage target has no mark to give while no buffer
  exists, and a rollback to that savepoint then succeeds with the store exactly as
  it was, so rows staged after the savepoint stay in the buffer.
\<close>

theorem early_savepoint_keeps_staged_rows:
  assumes "ctx_rep enc dec c0 xs0" and "create_savepoint now0 nm sync c0 = (i, ca)"
    and "txn_buffers st0 (ctx_id c0) = None" and "staged_wal st0 (ctx_id c0) = None"
    and "set_savepoint_staging_mark i
           (ut_staged_write_mark (storage_target vt edge_target) (ctx_id c0) st0) ca = (Inr (), c1)"
    and "txn_state c1 = TxActive" and "\<not> is_expired now c1"
  shows "\<exists>c'. rollback_to_savepoint dec (storage_target vt edge_target) now i c1 st = (Inr (), c', st)"
proof -
  have "ut_staged_write_mark (storage_target vt edge_target) (ctx_id c0) st0 = None"
    using assms(3,4) by (simp add: storage_target_def mark_without_buffer)
  with assms unmarked_rollback_keeps_store show ?thesis by metis
qed

theorem early_savepoint_keeps_staged_rows_witness:
  "\<exists>i ca c1 st c' b. create_savepoint 1 None 0 (context_new 0 7 5 demo_config) = (i, ca) \<and>
     set_savepoint_staging_mark i (store_staged_write_mark 7 (empty_store :: nat staging_store)) ca = (Inr (), c1) \<and>
     stage_vertex_delete demo_tables 7 1 (IdInt 4) 5 empty_store = (Inr (), st) \<and>
     rollback_to_savepoint demo_dec (storage_target demo_tables demo_store_target) 2 i c1 st = (Inr (), c', st) \<and>
     txn_buffers st 7 = Some b \<and> (1, IdInt 4) \<in> deletes b"
proof -
  let ?c0 = "context_new 0 7 5 demo_config :: nat transaction_context"
  let ?t = "storage_target demo_tables demo_store_target"
  have c0: "ctx_rep demo_enc demo_dec ?c0 []"
    by (simp add: ctx_rep_def context_new_def undo_rep_new savepoints_wf_def savepoint_manager_new_def
        get_savepoint_def)
  have e: "txn_buffers empty_store (ctx_id ?c0) = None" "staged_wal empty_store (ctx_id ?c0) = None"
    "ctx_id ?c0 = 7" by (simp_all add: empty_store_def context_new_def)
  obtain i ca where sp: "create_savepoint 1 None 0 ?c0 = (i, ca)" by force
  obtain c1 where mk: "set_savepoint_staging_mark i (ut_staged_write_mark ?t (ctx_id ?c0) empty_store) ca = (Inr (), c1)"
    using create_savepoint_effect(4) [OF sp] by (auto simp: set_savepoint_staging_mark_def)
  have f: "txn_state c1 = TxActive" "\<not> is_expired 2 c1"
    using sp mk by (auto simp: create_savepoint_def set_savepoint_staging_mark_def get_savepoint_def
        context_new_def Let_def is_expired_def demo_config_def)
  have cap: "ensure_capacity (cache_resolution 1 (IdInt 4) 3 (staging_new 5 :: nat txn_staging)) = Inr ()"
    by (simp add: ensure_capacity_def staging_len_def staging_new_def MAX_TXN_STAGING_KEYS_def
        cache_resolution_def)
  obtain st b where st: "stage_vertex_delete demo_tables 7 1 (IdInt 4) 5 empty_store = (Inr (), st)"
    "txn_buffers st 7 = Some b" "(1, IdInt 4) \<in> deletes b"
    using cap by (simp add: stage_vertex_delete_def demo_tables_def with_live_row_def
        txn_staging_buffer_def ensure_same_write_ts_def stage_delete_def drop_update_def
        drop_property_delete_def put_buffer_def put_delete_def Let_def empty_store_def
        staging_new_def cache_resolution_def record_deletes_def)
  obtain c' where "rollback_to_savepoint demo_dec ?t 2 i c1 st = (Inr (), c', st)"
    using early_savepoint_keeps_staged_rows [OF c0 sp e(1,2) mk f] by blast
  with sp mk st e(3) show ?thesis by (auto simp: storage_target_def)
qed

end
