(* ===== verification/WalRecord.thy ===== *)
theory WalRecord
  imports WalTypes
begin

text \<open>
  The record and file format of the write-ahead log and its local writer
  (\<open>linkrs-core/src/wal/types.rs\<close>, \<open>linkrs-transaction/src/wal/writer/local/*.rs\<close>,
  \<open>writer/compression.rs\<close>).  Header fields are natural numbers; \<open>header_ok\<close> states
  the widths of the source.  CRC-32 and zstd are arguments.  A file is its list of
  bytes; writes reach it in full, and the result of a flush to disk is an argument.
  The group-commit coordinator is absent (\<open>None\<close>), as is the background thread:
  the drains it performs are the operation \<open>drain_buffer_to_state\<close>.
\<close>

subsection \<open>Constants and small types\<close>

definition WAL_MAGIC :: nat where "WAL_MAGIC = 0x47524150"
definition WAL_VERSION :: nat where "WAL_VERSION = 3"
definition WAL_FILE_HEADER_SIZE :: nat where "WAL_FILE_HEADER_SIZE = 64"
definition WAL_HEADER_SIZE :: nat where "WAL_HEADER_SIZE = 40"
definition WAL_BLOCK_SIZE :: nat where "WAL_BLOCK_SIZE = 32 * 1024"
definition WAL_MAX_RECORD_SIZE :: nat where "WAL_MAX_RECORD_SIZE = WAL_BLOCK_SIZE - WAL_HEADER_SIZE"
definition MAX_PAYLOAD_LENGTH :: nat where "MAX_PAYLOAD_LENGTH = 256 * 1024 * 1024"

datatype record_type = RFull | RFirst | RMiddle | RLast

fun record_type_as_u8 :: "record_type \<Rightarrow> nat" where
  "record_type_as_u8 RFull = 0"
| "record_type_as_u8 RFirst = 1"
| "record_type_as_u8 RMiddle = 2"
| "record_type_as_u8 RLast = 3"

datatype wal_compression = NoCompression | Zstd

fun flag_byte :: "wal_compression \<Rightarrow> nat" where
  "flag_byte NoCompression = 0"
| "flag_byte Zstd = 2"

definition from_flag_byte :: "nat \<Rightarrow> wal_compression" where
  "from_flag_byte b = (if b mod 16 = 2 then Zstd else NoCompression)"

datatype sync_policy = SyncNever | EveryWrite | SyncBatch nat

fun requires_sync :: "sync_policy \<Rightarrow> nat \<Rightarrow> bool" where
  "requires_sync SyncNever n = False"
| "requires_sync EveryWrite n = True"
| "requires_sync (SyncBatch k) n = (n \<ge> k)"

subsection \<open>Record headers\<close>

record wal_header =
  h_length :: nat
  h_op_type :: nat
  h_is_update :: bool
  h_record_type :: record_type
  h_flags :: nat
  h_timestamp :: timestamp
  h_lsn :: nat
  h_prev_lsn :: nat
  h_checksum :: nat

definition is_length_valid :: "nat \<Rightarrow> wal_header \<Rightarrow> bool" where
  "is_length_valid remaining h \<longleftrightarrow> h_length h \<le> MAX_PAYLOAD_LENGTH \<and> h_length h \<le> remaining"

definition is_update_op :: "wal_op_type \<Rightarrow> bool" where
  "is_update_op op \<longleftrightarrow> op \<in> {OpUpdateVertexProp, OpUpdateEdgeProp, OpDeleteVertex, OpDeleteEdge,
     OpDeleteVertexType, OpDeleteEdgeType, OpDeleteVertexProp, OpDeleteEdgeProp, OpDeleteVertexProps,
     OpRenameVertexProp, OpRenameEdgeProp, OpCompact}"

definition header_new :: "wal_op_type \<Rightarrow> timestamp \<Rightarrow> nat \<Rightarrow> wal_header" where
  "header_new op ts len = \<lparr> h_length = len, h_op_type = op_as_u8 op, h_is_update = is_update_op op,
     h_record_type = RFull, h_flags = 0, h_timestamp = ts, h_lsn = 0, h_prev_lsn = 0, h_checksum = 0 \<rparr>"

definition with_lsn :: "nat \<Rightarrow> nat \<Rightarrow> wal_header \<Rightarrow> wal_header" where
  "with_lsn l p h = h\<lparr> h_lsn := l, h_prev_lsn := p \<rparr>"

definition with_record_type :: "record_type \<Rightarrow> wal_header \<Rightarrow> wal_header" where
  "with_record_type r h = h\<lparr> h_record_type := r \<rparr>"

definition with_compression :: "wal_compression \<Rightarrow> wal_header \<Rightarrow> wal_header" where
  "with_compression c h = h\<lparr> h_flags := h_flags h div 16 * 16 + flag_byte c \<rparr>"

definition h_compression :: "wal_header \<Rightarrow> wal_compression" where
  "h_compression h = from_flag_byte (h_flags h mod 16)"

definition is_compressed :: "wal_header \<Rightarrow> bool" where
  "is_compressed h \<longleftrightarrow> h_compression h \<noteq> NoCompression"

definition byte_of_bool :: "bool \<Rightarrow> byte" where
  "byte_of_bool b = (if b then 1 else 0)"

definition checksum_input :: "wal_header \<Rightarrow> byte list \<Rightarrow> byte list" where
  "checksum_input h payload = le_enc 4 (h_length h) @
     [of_nat (h_op_type h), byte_of_bool (h_is_update h), of_nat (record_type_as_u8 (h_record_type h))] @
     le_enc 2 (h_flags h) @ le_enc 8 (h_timestamp h) @ le_enc 8 (h_lsn h) @ le_enc 8 (h_prev_lsn h) @ payload"

definition with_checksum :: "(byte list \<Rightarrow> nat) \<Rightarrow> byte list \<Rightarrow> wal_header \<Rightarrow> wal_header" where
  "with_checksum crc payload h = h\<lparr> h_checksum := crc (checksum_input h payload) \<rparr>"

definition verify_checksum :: "(byte list \<Rightarrow> nat) \<Rightarrow> byte list \<Rightarrow> wal_header \<Rightarrow> bool" where
  "verify_checksum crc payload h \<longleftrightarrow> crc (checksum_input h payload) = h_checksum h"

definition header_as_bytes :: "wal_header \<Rightarrow> byte list" where
  "header_as_bytes h = le_enc 4 (h_length h) @
     [of_nat (h_op_type h), byte_of_bool (h_is_update h), of_nat (record_type_as_u8 (h_record_type h)), 0] @
     le_enc 2 (h_flags h) @ le_enc 8 (h_timestamp h) @ le_enc 8 (h_lsn h) @ le_enc 8 (h_prev_lsn h) @
     le_enc 4 (h_checksum h) @ [0, 0]"

definition slice :: "nat \<Rightarrow> nat \<Rightarrow> 'a list \<Rightarrow> 'a list" where
  "slice off n bs = take n (drop off bs)"

definition record_type_of_byte :: "byte \<Rightarrow> record_type option" where
  "record_type_of_byte b = (if b = 0 then Some RFull else if b = 1 then Some RFirst
     else if b = 2 then Some RMiddle else if b = 3 then Some RLast else None)"

definition header_from_bytes :: "byte list \<Rightarrow> wal_header option" where
  "header_from_bytes bs = (if length bs < WAL_HEADER_SIZE then None
     else case record_type_of_byte (bs ! 6) of
       None \<Rightarrow> None
     | Some r \<Rightarrow> Some \<lparr> h_length = le_val (slice 0 4 bs), h_op_type = unat (bs ! 4),
         h_is_update = (bs ! 5 \<noteq> 0), h_record_type = r, h_flags = le_val (slice 8 2 bs),
         h_timestamp = le_val (slice 10 8 bs), h_lsn = le_val (slice 18 8 bs),
         h_prev_lsn = le_val (slice 26 8 bs), h_checksum = le_val (slice 34 4 bs) \<rparr>)"

definition header_ok :: "wal_header \<Rightarrow> bool" where
  "header_ok h \<longleftrightarrow> h_length h < 256 ^ 4 \<and> h_op_type h < 256 \<and> h_flags h < 256 ^ 2 \<and>
     h_timestamp h < 256 ^ 8 \<and> h_lsn h < 256 ^ 8 \<and> h_prev_lsn h < 256 ^ 8 \<and> h_checksum h < 256 ^ 4"

subsection \<open>The file header\<close>

record wal_file_header =
  fh_magic :: nat
  fh_version :: nat
  fh_checkpoint_seq :: nat
  fh_start_lsn :: nat
  fh_salt1 :: nat
  fh_salt2 :: nat
  fh_created_at :: nat
  fh_thread_id :: nat
  fh_reserved :: "byte list"

definition file_header_new :: "nat \<Rightarrow> nat \<Rightarrow> nat \<Rightarrow> nat \<Rightarrow> nat \<Rightarrow> nat \<Rightarrow> wal_file_header" where
  "file_header_new salt1 salt2 now thread seq start =
     \<lparr> fh_magic = WAL_MAGIC, fh_version = WAL_VERSION, fh_checkpoint_seq = seq, fh_start_lsn = start,
       fh_salt1 = salt1, fh_salt2 = salt2, fh_created_at = now, fh_thread_id = thread,
       fh_reserved = replicate 20 0 \<rparr>"

definition file_header_as_bytes :: "wal_file_header \<Rightarrow> byte list" where
  "file_header_as_bytes h = le_enc 4 (fh_magic h) @ le_enc 4 (fh_version h) @
     le_enc 8 (fh_checkpoint_seq h) @ le_enc 8 (fh_start_lsn h) @ le_enc 4 (fh_salt1 h) @
     le_enc 4 (fh_salt2 h) @ le_enc 8 (fh_created_at h) @ le_enc 4 (fh_thread_id h) @ fh_reserved h"

definition file_header_from_bytes :: "byte list \<Rightarrow> wal_file_header option" where
  "file_header_from_bytes bs = (if length bs < WAL_FILE_HEADER_SIZE then None
     else Some \<lparr> fh_magic = le_val (slice 0 4 bs), fh_version = le_val (slice 4 4 bs),
       fh_checkpoint_seq = le_val (slice 8 8 bs), fh_start_lsn = le_val (slice 16 8 bs),
       fh_salt1 = le_val (slice 24 4 bs), fh_salt2 = le_val (slice 28 4 bs),
       fh_created_at = le_val (slice 32 8 bs), fh_thread_id = le_val (slice 40 4 bs),
       fh_reserved = slice 44 20 bs \<rparr>)"

definition file_header_is_valid :: "wal_file_header \<Rightarrow> bool" where
  "file_header_is_valid h \<longleftrightarrow> fh_magic h = WAL_MAGIC \<and> fh_version h = WAL_VERSION"

definition checksum_enabled_flag :: "wal_file_header \<Rightarrow> bool option" where
  "checksum_enabled_flag h = (if hd (fh_reserved h) = 0 then Some False
     else if hd (fh_reserved h) = 1 then Some True else None)"

definition with_checksum_enabled :: "bool \<Rightarrow> wal_file_header \<Rightarrow> wal_file_header" where
  "with_checksum_enabled b h = h\<lparr> fh_reserved := (fh_reserved h)[0 := byte_of_bool b] \<rparr>"

definition file_header_ok :: "wal_file_header \<Rightarrow> bool" where
  "file_header_ok h \<longleftrightarrow> fh_magic h < 256 ^ 4 \<and> fh_version h < 256 ^ 4 \<and> fh_checkpoint_seq h < 256 ^ 8 \<and>
     fh_start_lsn h < 256 ^ 8 \<and> fh_salt1 h < 256 ^ 4 \<and> fh_salt2 h < 256 ^ 4 \<and>
     fh_created_at h < 256 ^ 8 \<and> fh_thread_id h < 256 ^ 4 \<and> length (fh_reserved h) = 20"

subsection \<open>Round trips\<close>

lemma length_header_as_bytes [simp]: "length (header_as_bytes h) = 40"
  by (simp add: header_as_bytes_def)

lemma length_file_header_as_bytes: "length (fh_reserved h) = 20 \<Longrightarrow> length (file_header_as_bytes h) = 64"
  by (simp add: file_header_as_bytes_def)

lemma record_type_byte [simp]:
  "record_type_of_byte (of_nat (record_type_as_u8 r)) = Some r"
  by (cases r) (simp_all add: record_type_of_byte_def)

lemma slice_append_skip: "length xs \<le> off \<Longrightarrow> slice off n (xs @ ys) = slice (off - length xs) n ys"
  by (simp add: slice_def)

lemma slice_append_here: "length xs = n \<Longrightarrow> slice 0 n (xs @ ys) = xs"
  by (simp add: slice_def)

lemma slice_Cons_skip: "0 < off \<Longrightarrow> slice off n (x # xs) = slice (off - 1) n xs"
  by (cases off) (simp_all add: slice_def)

lemmas slice_simps = slice_append_skip slice_append_here slice_Cons_skip

lemma header_roundtrip:
  assumes "header_ok h"
  shows "header_from_bytes (header_as_bytes h) = Some h"
proof -
  let ?b = "header_as_bytes h"
  have nth: "?b ! 4 = of_nat (h_op_type h)" "?b ! 5 = byte_of_bool (h_is_update h)"
    "?b ! 6 = of_nat (record_type_as_u8 (h_record_type h))"
    by (simp_all add: header_as_bytes_def nth_append)
  have sl: "slice 0 4 ?b = le_enc 4 (h_length h)" "slice 8 2 ?b = le_enc 2 (h_flags h)"
    "slice 10 8 ?b = le_enc 8 (h_timestamp h)" "slice 18 8 ?b = le_enc 8 (h_lsn h)"
    "slice 26 8 ?b = le_enc 8 (h_prev_lsn h)" "slice 34 4 ?b = le_enc 4 (h_checksum h)"
    by (simp_all add: header_as_bytes_def slice_simps)
  have "unat (of_nat (h_op_type h) :: byte) = h_op_type h"
    using assms by (simp add: unat_byte_of_nat header_ok_def)
  moreover have "byte_of_bool (h_is_update h) \<noteq> 0 \<longleftrightarrow> h_is_update h"
    by (simp add: byte_of_bool_def)
  ultimately show ?thesis
    using assms unfolding header_from_bytes_def nth sl
    by (simp add: WAL_HEADER_SIZE_def le_val_enc header_ok_def)
qed

lemma file_header_roundtrip:
  assumes "file_header_ok h"
  shows "file_header_from_bytes (file_header_as_bytes h @ rest) = Some h"
proof -
  let ?b = "file_header_as_bytes h @ rest"
  have res: "length (fh_reserved h) = 20" using assms by (simp add: file_header_ok_def)
  have sl: "slice 0 4 ?b = le_enc 4 (fh_magic h)" "slice 4 4 ?b = le_enc 4 (fh_version h)"
    "slice 8 8 ?b = le_enc 8 (fh_checkpoint_seq h)" "slice 16 8 ?b = le_enc 8 (fh_start_lsn h)"
    "slice 24 4 ?b = le_enc 4 (fh_salt1 h)" "slice 28 4 ?b = le_enc 4 (fh_salt2 h)"
    "slice 32 8 ?b = le_enc 8 (fh_created_at h)" "slice 40 4 ?b = le_enc 4 (fh_thread_id h)"
    "slice 44 20 ?b = fh_reserved h"
    using res by (simp_all add: file_header_as_bytes_def slice_simps)
  show ?thesis
    using assms res unfolding file_header_from_bytes_def sl
    by (simp add: WAL_FILE_HEADER_SIZE_def length_file_header_as_bytes le_val_enc file_header_ok_def)
qed

lemma from_flag_byte_flag [simp]: "from_flag_byte (flag_byte c mod 16) = c"
  by (cases c) (simp_all add: from_flag_byte_def)

lemma h_compression_with [simp]: "h_compression (with_compression c h) = c"
  by (cases c) (simp_all add: h_compression_def with_compression_def from_flag_byte_def, presburger)

end
