(* ===== verification/WalWriter.thy ===== *)
theory WalWriter
  imports WalRecord
begin

text \<open>
  The local log writer (\<open>linkrs-transaction/src/wal/writer/local.rs\<close> and its
  modules \<open>record\<close>, \<open>header\<close>, \<open>async_buffer\<close>, \<open>durability\<close>, \<open>poison\<close>,
  \<open>file_ops\<close>).  The synchronous path writes at \<open>file_used\<close>; the buffered path
  stages bytes in the buffer and a drain writes them at the offset of its own flush
  state.  The random salts and the clock of a file header are one argument.
\<close>

subsection \<open>State\<close>

record wal_config =
  wc_truncate_size :: nat
  wc_max_file_size :: nat
  wc_sync_policy :: sync_policy
  wc_compression :: wal_compression
  wc_checksum_enabled :: bool
  wc_enable_async_flush :: bool

record flush_state =
  fs_offset :: nat
  fs_file_size :: nat

record wal_writer =
  w_config :: wal_config
  w_thread_id :: nat
  w_file :: "byte list option"
  w_file_size :: nat
  w_file_used :: nat
  w_version :: nat
  w_checkpoint_seq :: nat
  w_current_lsn :: nat
  w_last_synced_lsn :: nat
  w_file_start_lsn :: nat
  w_is_open :: bool
  w_file_header :: "wal_file_header option"
  w_write_count :: nat
  w_poisoned :: bool
  w_buffer :: "byte list option"
  w_flush_state :: "flush_state option"
  w_buffered_lsn :: nat

record fh_seed =
  seed_salt1 :: nat
  seed_salt2 :: nat
  seed_created_at :: nat

record codec =
  co_crc :: "byte list \<Rightarrow> nat"
  co_zstd_encode :: "byte list \<Rightarrow> byte list option"
  co_zstd_decode :: "byte list \<Rightarrow> byte list option"

type_synonym 'a wal_op = "(wal_error, 'a) result \<times> wal_writer"

definition writer_with_config :: "nat \<Rightarrow> wal_config \<Rightarrow> wal_writer" where
  "writer_with_config thread cfg = \<lparr> w_config = cfg, w_thread_id = thread, w_file = None, w_file_size = 0,
     w_file_used = 0, w_version = 0, w_checkpoint_seq = 0, w_current_lsn = 0, w_last_synced_lsn = 0,
     w_file_start_lsn = 0, w_is_open = False, w_file_header = None, w_write_count = 0,
     w_poisoned = False, w_buffer = None, w_flush_state = None, w_buffered_lsn = 0 \<rparr>"

subsection \<open>Files\<close>

definition set_len :: "nat \<Rightarrow> byte list \<Rightarrow> byte list" where
  "set_len n f = take n f @ replicate (n - length f) 0"

definition file_write :: "nat \<Rightarrow> byte list \<Rightarrow> byte list \<Rightarrow> byte list" where
  "file_write off bs f = take off f @ replicate (off - length f) 0 @ bs @ drop (off + length bs) f"

definition poison :: "wal_writer \<Rightarrow> wal_writer" where
  "poison w = w\<lparr> w_poisoned := True \<rparr>"

definition check_poisoned :: "wal_writer \<Rightarrow> (wal_error, unit) result" where
  "check_poisoned w = (if w_poisoned w then Inl WalPoisoned else Inr ())"

definition check_writable :: "wal_writer \<Rightarrow> (wal_error, unit) result" where
  "check_writable w = (if w_poisoned w then Inl WalPoisoned
     else if \<not> w_is_open w then Inl WalClosed else Inr ())"

subsection \<open>File headers\<close>

definition persist_file_header :: "wal_file_header \<Rightarrow> bool \<Rightarrow> wal_writer \<Rightarrow> unit wal_op" where
  "persist_file_header h reset w = (case w_file w of None \<Rightarrow> (Inl WalClosed, w) | Some f \<Rightarrow>
     let w1 = w\<lparr> w_file := Some (file_write 0 (file_header_as_bytes h) f),
                 w_file_header := Some h, w_file_start_lsn := fh_start_lsn h \<rparr>
     in (Inr (), if reset then w1\<lparr> w_file_used := WAL_FILE_HEADER_SIZE \<rparr> else w1))"

definition write_file_header :: "fh_seed \<Rightarrow> wal_writer \<Rightarrow> unit wal_op" where
  "write_file_header s w = persist_file_header (with_checksum_enabled (wc_checksum_enabled (w_config w))
     (file_header_new (seed_salt1 s) (seed_salt2 s) (seed_created_at s) (w_thread_id w)
        (w_checkpoint_seq w) (w_current_lsn w))) True w"

definition refresh_file_header :: "wal_writer \<Rightarrow> unit wal_op" where
  "refresh_file_header w = (if w_file w = None then (Inr (), w)
     else case w_file_header w of None \<Rightarrow> (Inr (), w)
     | Some h \<Rightarrow> persist_file_header (h\<lparr> fh_checkpoint_seq := w_checkpoint_seq w \<rparr>) False w)"

definition set_recovery_baseline_lsn :: "nat \<Rightarrow> wal_writer \<Rightarrow> unit wal_op" where
  "set_recovery_baseline_lsn lsn w = (if lsn \<le> w_current_lsn w then (Inr (), w)
     else if w_file_used w > WAL_FILE_HEADER_SIZE then (Inl InvalidOperation, w)
     else let w1 = w\<lparr> w_current_lsn := lsn, w_last_synced_lsn := lsn \<rparr>
       in case w_file_header w of
            None \<Rightarrow> (Inr (), w1\<lparr> w_file_start_lsn := lsn \<rparr>)
          | Some h \<Rightarrow> persist_file_header (h\<lparr> fh_start_lsn := lsn \<rparr>) False w1)"

definition set_checkpoint_seq :: "nat \<Rightarrow> wal_writer \<Rightarrow> unit wal_op" where
  "set_checkpoint_seq n w = (let w1 = w\<lparr> w_checkpoint_seq := n \<rparr> in
     if w_file w1 \<noteq> None then refresh_file_header w1 else (Inr (), w1))"

subsection \<open>The buffered path\<close>

definition ensure_flush_state :: "wal_writer \<Rightarrow> wal_writer" where
  "ensure_flush_state w = (if w_flush_state w \<noteq> None \<or> w_buffer w = None \<or> w_file w = None then w
     else w\<lparr> w_flush_state := Some \<lparr> fs_offset = w_file_used w, fs_file_size = w_file_size w \<rparr> \<rparr>)"

definition enable_async_flush :: "wal_writer \<Rightarrow> wal_writer" where
  "enable_async_flush w = (if \<not> wc_enable_async_flush (w_config w) then w
     else ensure_flush_state (w\<lparr> w_buffer := Some [], w_buffered_lsn := w_current_lsn w \<rparr>))"

definition write_to_flush_state :: "byte list \<Rightarrow> flush_state \<Rightarrow> byte list \<Rightarrow> flush_state \<times> byte list" where
  "write_to_flush_state bs st f = (let e = fs_offset st + length bs;
       f1 = (if e > fs_file_size st then set_len e f else f)
     in (\<lparr> fs_offset = e, fs_file_size = max e (fs_file_size st) \<rparr>, file_write (fs_offset st) bs f1))"

definition drain_buffer_to_state :: "wal_writer \<Rightarrow> bool wal_op" where
  "drain_buffer_to_state w = (case (w_buffer w, w_flush_state w, w_file w) of
      (Some bs, Some st, Some f) \<Rightarrow>
        if bs = [] then (Inr False, w)
        else (case write_to_flush_state bs st f of (st1, f1) \<Rightarrow>
          (Inr True, w\<lparr> w_buffer := Some [], w_flush_state := Some st1, w_file := Some f1 \<rparr>))
    | _ \<Rightarrow> (Inr False, w))"

definition syncback_file_used :: "wal_writer \<Rightarrow> wal_writer" where
  "syncback_file_used w = (case w_flush_state w of None \<Rightarrow> w
     | Some st \<Rightarrow> w\<lparr> w_file_used := fs_offset st, w_file_size := fs_file_size st \<rparr>)"

definition flush_buffered_to_file :: "wal_writer \<Rightarrow> unit wal_op" where
  "flush_buffered_to_file w = (if w_buffer w = None then (Inr (), w)
     else let w1 = ensure_flush_state w in
       if w_flush_state w1 \<noteq> None then (Inr (), syncback_file_used (snd (drain_buffer_to_state w1)))
       else (Inr (), w1))"

definition disable_async_flush :: "wal_writer \<Rightarrow> unit wal_op" where
  "disable_async_flush w = (Inr (),
     (snd (flush_buffered_to_file w))\<lparr> w_buffer := None, w_flush_state := None \<rparr>)"

subsection \<open>Syncing\<close>

definition sync_via_file :: "bool \<Rightarrow> wal_writer \<Rightarrow> unit wal_op" where
  "sync_via_file fsync_ok w = (case check_poisoned w of
      Inl e \<Rightarrow> (Inl e, w)
    | Inr _ \<Rightarrow> if w_file w \<noteq> None \<and> \<not> fsync_ok then (Inl WalIoError, poison w)
        else (Inr (), w\<lparr> w_last_synced_lsn := w_current_lsn w, w_write_count := 0 \<rparr>))"

definition writer_sync :: "bool \<Rightarrow> wal_writer \<Rightarrow> unit wal_op" where
  "writer_sync fsync_ok w = sync_via_file fsync_ok
     (if w_buffer w \<noteq> None then snd (drain_buffer_to_state w) else w)"

definition wait_for_durable :: "bool \<Rightarrow> nat \<Rightarrow> wal_writer \<Rightarrow> unit wal_op" where
  "wait_for_durable fsync_ok lsn w0 =
     (let w = (if w_buffer w0 \<noteq> None then snd (drain_buffer_to_state w0) else w0) in
      if w_flush_state w \<noteq> None \<or> w_file w \<noteq> None then
        (case check_poisoned w of
           Inl e \<Rightarrow> (Inl e, w)
         | Inr _ \<Rightarrow> if fsync_ok then (Inr (), w\<lparr> w_last_synced_lsn := lsn \<rparr>) else (Inl WalIoError, w))
      else (Inl WalClosed, w))"

definition flush_and_sync :: "bool \<Rightarrow> wal_writer \<Rightarrow> unit wal_op" where
  "flush_and_sync fsync_ok w = sync_via_file fsync_ok (snd (flush_buffered_to_file w))"

subsection \<open>Records\<close>

definition compress :: "codec \<Rightarrow> wal_config \<Rightarrow> byte list \<Rightarrow> (wal_error, byte list \<times> wal_compression) result" where
  "compress co cfg bs = (case wc_compression cfg of
      NoCompression \<Rightarrow> Inr (bs, NoCompression)
    | Zstd \<Rightarrow> if length bs < 64 then Inr (bs, NoCompression)
        else (case co_zstd_encode co bs of
                None \<Rightarrow> Inl WalSerializationError
              | Some c \<Rightarrow> if length c < length bs then Inr (c, Zstd) else Inr (bs, NoCompression)))"

definition build_wal_header ::
  "codec \<Rightarrow> wal_config \<Rightarrow> wal_op_type \<Rightarrow> timestamp \<Rightarrow> byte list \<Rightarrow> nat \<Rightarrow> nat \<Rightarrow> record_type \<Rightarrow> wal_compression
   \<Rightarrow> wal_header" where
  "build_wal_header co cfg op ts payload prev new r c =
     (let h = with_compression c (with_record_type r
                (with_lsn new prev (header_new op ts (length payload mod 2 ^ 32))))
      in if wc_checksum_enabled cfg then with_checksum (co_crc co) payload h else h)"

definition serialize_record :: "wal_header \<Rightarrow> byte list \<Rightarrow> byte list" where
  "serialize_record h payload = header_as_bytes h @ payload"

definition next_lsn :: "nat \<Rightarrow> byte list \<Rightarrow> nat" where
  "next_lsn prev payload = (prev + (WAL_HEADER_SIZE + length payload)) mod 2 ^ 64"

definition grow_file :: "nat \<Rightarrow> wal_writer \<Rightarrow> wal_writer" where
  "grow_file expected w = (if expected > w_file_size w
     then let n = (expected div wc_truncate_size (w_config w) + 1) * wc_truncate_size (w_config w)
          in w\<lparr> w_file := map_option (set_len n) (w_file w), w_file_size := n \<rparr>
     else w)"

definition write_entry :: "bool \<Rightarrow> wal_header \<Rightarrow> byte list \<Rightarrow> nat \<Rightarrow> wal_writer \<Rightarrow> unit wal_op" where
  "write_entry fsync_ok h payload new w = (if w_file w = None then (Inl WalClosed, w)
     else let bs = serialize_record h payload;
              w1 = grow_file (w_file_used w + length bs) w;
              w2 = w1\<lparr> w_file := map_option (file_write (w_file_used w) bs) (w_file w1),
                       w_file_used := w_file_used w + length bs, w_current_lsn := new,
                       w_write_count := w_write_count w + 1 \<rparr>
          in if requires_sync (wc_sync_policy (w_config w)) (w_write_count w2)
             then if fsync_ok then (Inr (), w2\<lparr> w_last_synced_lsn := new, w_write_count := 0 \<rparr>)
                  else (Inl WalIoError, poison w2)
             else (Inr (), w2))"

definition append_single_entry ::
  "codec \<Rightarrow> bool \<Rightarrow> wal_op_type \<Rightarrow> timestamp \<Rightarrow> byte list \<Rightarrow> wal_compression \<Rightarrow> wal_writer \<Rightarrow> unit wal_op" where
  "append_single_entry co fsync_ok op ts payload c w =
     (let prev = w_current_lsn w; new = next_lsn prev payload
      in write_entry fsync_ok (build_wal_header co (w_config w) op ts payload prev new RFull c) payload new w)"

definition chunk_record_type :: "nat \<Rightarrow> nat \<Rightarrow> record_type" where
  "chunk_record_type n i = (if n = 1 then RFull else if i = 0 then RFirst
     else if i = n - 1 then RLast else RMiddle)"

function append_chunks ::
  "codec \<Rightarrow> bool \<Rightarrow> wal_op_type \<Rightarrow> timestamp \<Rightarrow> wal_compression \<Rightarrow> nat \<Rightarrow> nat \<Rightarrow> byte list \<Rightarrow> wal_writer
   \<Rightarrow> unit wal_op" where
  "append_chunks co fsync_ok op ts c n i payload w = (if payload = [] then (Inr (), w)
     else let chunk = take WAL_MAX_RECORD_SIZE payload; prev = w_current_lsn w; new = next_lsn prev chunk
       in case write_entry fsync_ok
                 (build_wal_header co (w_config w) op ts chunk prev new (chunk_record_type n i) c)
                 chunk new w of
            (Inl e, w1) \<Rightarrow> (Inl e, w1)
          | (Inr _, w1) \<Rightarrow> append_chunks co fsync_ok op ts c n (i + 1)
                            (drop WAL_MAX_RECORD_SIZE payload) w1)"
  by pat_completeness auto
termination
  by (relation "measure (\<lambda>(co, f, op, ts, c, n, i, payload, w). length payload)")
    (auto simp: WAL_MAX_RECORD_SIZE_def WAL_BLOCK_SIZE_def WAL_HEADER_SIZE_def)

declare append_chunks.simps [simp del]

definition div_ceil :: "nat \<Rightarrow> nat \<Rightarrow> nat" where
  "div_ceil a b = (a + b - 1) div b"

definition append_fragmented_entry ::
  "codec \<Rightarrow> bool \<Rightarrow> wal_op_type \<Rightarrow> timestamp \<Rightarrow> byte list \<Rightarrow> wal_compression \<Rightarrow> wal_writer \<Rightarrow> unit wal_op" where
  "append_fragmented_entry co fsync_ok op ts payload c w =
     append_chunks co fsync_ok op ts c (div_ceil (length payload) WAL_MAX_RECORD_SIZE) 0 payload w"

definition stage_record ::
  "codec \<Rightarrow> wal_op_type \<Rightarrow> timestamp \<Rightarrow> byte list \<Rightarrow> record_type \<Rightarrow> wal_compression \<Rightarrow> wal_writer \<Rightarrow> wal_writer" where
  "stage_record co op ts payload r c w =
     (let prev = w_current_lsn w; new = next_lsn prev payload;
          h = build_wal_header co (w_config w) op ts payload prev new r c
      in w\<lparr> w_buffer := map_option (\<lambda>b. b @ serialize_record h payload) (w_buffer w),
            w_current_lsn := new, w_buffered_lsn := new \<rparr>)"

function stage_chunks ::
  "codec \<Rightarrow> wal_op_type \<Rightarrow> timestamp \<Rightarrow> wal_compression \<Rightarrow> nat \<Rightarrow> nat \<Rightarrow> byte list \<Rightarrow> wal_writer \<Rightarrow> wal_writer" where
  "stage_chunks co op ts c n i payload w = (if payload = [] then w
     else stage_chunks co op ts c n (i + 1) (drop WAL_MAX_RECORD_SIZE payload)
            (stage_record co op ts (take WAL_MAX_RECORD_SIZE payload) (chunk_record_type n i) c w))"
  by pat_completeness auto
termination
  by (relation "measure (\<lambda>(co, op, ts, c, n, i, payload, w). length payload)")
    (auto simp: WAL_MAX_RECORD_SIZE_def WAL_BLOCK_SIZE_def WAL_HEADER_SIZE_def)

declare stage_chunks.simps [simp del]

definition append_entry_buffered ::
  "codec \<Rightarrow> wal_op_type \<Rightarrow> timestamp \<Rightarrow> byte list \<Rightarrow> wal_writer \<Rightarrow> unit wal_op" where
  "append_entry_buffered co op ts payload w = (case check_writable w of
      Inl e \<Rightarrow> (Inl e, w)
    | Inr _ \<Rightarrow> if w_buffer w = None then (Inl InvalidOperation, w)
        else case compress co (w_config w) payload of
          Inl e \<Rightarrow> (Inl e, w)
        | Inr (p, c) \<Rightarrow> (Inr (), if length p > WAL_MAX_RECORD_SIZE
            then stage_chunks co op ts c (div_ceil (length p) WAL_MAX_RECORD_SIZE) 0 p w
            else stage_record co op ts p RFull c w))"

definition append_entry ::
  "codec \<Rightarrow> bool \<Rightarrow> wal_op_type \<Rightarrow> timestamp \<Rightarrow> byte list \<Rightarrow> wal_writer \<Rightarrow> unit wal_op" where
  "append_entry co fsync_ok op ts payload w =
     (if w_buffer w \<noteq> None then append_entry_buffered co op ts payload w
      else case check_writable w of
        Inl e \<Rightarrow> (Inl e, w)
      | Inr _ \<Rightarrow> (case compress co (w_config w) payload of
          Inl e \<Rightarrow> (Inl e, w)
        | Inr (p, c) \<Rightarrow> if length p > WAL_MAX_RECORD_SIZE
            then append_fragmented_entry co fsync_ok op ts p c w
            else append_single_entry co fsync_ok op ts p c w))"

subsection \<open>Batches\<close>

type_synonym batch_entry = "wal_op_type \<times> timestamp \<times> byte list"

fun build_batch :: "codec \<Rightarrow> wal_config \<Rightarrow> nat \<Rightarrow> batch_entry list \<Rightarrow> (wal_error, (wal_header \<times> byte list) list) result" where
  "build_batch co cfg prev [] = Inr []"
| "build_batch co cfg prev ((op, ts, payload) # es) = (case compress co cfg payload of
      Inl e \<Rightarrow> Inl e
    | Inr (p, c) \<Rightarrow> let new = next_lsn prev p in
        case build_batch co cfg new es of
          Inl e \<Rightarrow> Inl e
        | Inr rs \<Rightarrow> Inr ((build_wal_header co cfg op ts p prev new RFull c, p) # rs))"

definition batch_bytes :: "(wal_header \<times> byte list) list \<Rightarrow> byte list" where
  "batch_bytes rs = concat (map (\<lambda>(h, p). serialize_record h p) rs)"

definition write_batch_entries :: "codec \<Rightarrow> batch_entry list \<Rightarrow> wal_writer \<Rightarrow> nat wal_op" where
  "write_batch_entries co es w = (case build_batch co (w_config w) (w_current_lsn w) es of
      Inl e \<Rightarrow> (Inl e, w)
    | Inr rs \<Rightarrow> if w_file w = None then (Inl WalClosed, w)
        else let bs = batch_bytes rs;
                 w1 = grow_file (w_file_used w + length bs) w;
                 new = (w_current_lsn w + length bs) mod 2 ^ 64
             in (Inr new, w1\<lparr> w_file := map_option (file_write (w_file_used w) bs) (w_file w1),
                             w_file_used := w_file_used w + length bs, w_current_lsn := new \<rparr>))"

fun append_all_buffered :: "codec \<Rightarrow> batch_entry list \<Rightarrow> wal_writer \<Rightarrow> unit wal_op" where
  "append_all_buffered co [] w = (Inr (), w)"
| "append_all_buffered co ((op, ts, p) # es) w = (case append_entry_buffered co op ts p w of
      (Inl e, w1) \<Rightarrow> (Inl e, w1)
    | (Inr _, w1) \<Rightarrow> append_all_buffered co es w1)"

definition append_batch_with_durability ::
  "codec \<Rightarrow> bool \<Rightarrow> batch_entry list \<Rightarrow> bool \<Rightarrow> wal_writer \<Rightarrow> unit wal_op" where
  "append_batch_with_durability co fsync_ok es sync w = (case check_writable w of
      Inl e \<Rightarrow> (Inl e, w)
    | Inr _ \<Rightarrow>
        if w_buffer w \<noteq> None then
          (case append_all_buffered co es w of
             (Inl e, w1) \<Rightarrow> (Inl e, w1)
           | (Inr _, w1) \<Rightarrow> if sync then sync_via_file fsync_ok (snd (flush_buffered_to_file w1)) else (Inr (), w1))
        else
          (case write_batch_entries co es w of
             (Inl e, w1) \<Rightarrow> (Inl e, w1)
           | (Inr new, w1) \<Rightarrow> if \<not> sync then (Inr (), w1)
               else if fsync_ok then (Inr (), w1\<lparr> w_last_synced_lsn := new \<rparr>) else (Inl WalIoError, w1)))"

subsection \<open>Opening, rotating and closing\<close>

definition start_segment :: "fh_seed \<Rightarrow> wal_writer \<Rightarrow> unit wal_op" where
  "start_segment s w = write_file_header s
     (w\<lparr> w_file := Some (set_len (wc_truncate_size (w_config w)) []),
         w_file_size := wc_truncate_size (w_config w), w_file_used := 0 \<rparr>)"

definition writer_open :: "fh_seed \<Rightarrow> nat \<Rightarrow> nat option \<Rightarrow> wal_writer \<Rightarrow> unit wal_op" where
  "writer_open s version parsed_last_lsn w = (case check_poisoned w of
      Inl e \<Rightarrow> (Inl e, w)
    | Inr _ \<Rightarrow> if w_is_open w then (Inr (), w)
        else let w1 = w\<lparr> w_version := version \<rparr>;
                 w2 = (case parsed_last_lsn of
                         Some l \<Rightarrow> if w_current_lsn w1 = 0
                                   then w1\<lparr> w_current_lsn := l, w_last_synced_lsn := l \<rparr> else w1
                       | None \<Rightarrow> w1)
             in case start_segment s (w2\<lparr> w_is_open := True \<rparr>) of
                  (Inl e, w3) \<Rightarrow> (Inl e, w3)
                | (Inr _, w3) \<Rightarrow> (Inr (), (ensure_flush_state w3)\<lparr> w_buffered_lsn := w_current_lsn w3 \<rparr>))"

definition rotate_segment :: "fh_seed \<Rightarrow> wal_writer \<Rightarrow> unit wal_op" where
  "rotate_segment s w = (case start_segment s (w\<lparr> w_version := w_version w + 1 \<rparr>) of
      (Inl e, w1) \<Rightarrow> (Inl e, w1)
    | (Inr _, w1) \<Rightarrow> (Inr (), if w_buffer w1 \<noteq> None
        then ensure_flush_state (w1\<lparr> w_flush_state := None \<rparr>) else w1))"

definition rotate_if_needed :: "fh_seed \<Rightarrow> wal_writer \<Rightarrow> unit wal_op" where
  "rotate_if_needed s w = (if w_file_used w \<ge> wc_max_file_size (w_config w) then rotate_segment s w else (Inr (), w))"

definition writer_close :: "bool \<Rightarrow> wal_writer \<Rightarrow> wal_writer" where
  "writer_close fsync_ok w = (if \<not> w_is_open w then w
     else let w1 = snd (flush_buffered_to_file (w\<lparr> w_is_open := False \<rparr>));
              w2 = (if w_file w1 \<noteq> None \<and> \<not> fsync_ok then poison w1 else w1)
          in w2\<lparr> w_file := None, w_file_size := 0, w_file_used := 0, w_file_header := None,
                 w_flush_state := None \<rparr>)"

subsection \<open>The frames of the log\<close>

text \<open>
  What the log holds, independently of the path the bytes took: the list of record
  headers and payloads an append adds at a given position.
\<close>

type_synonym frame = "wal_header \<times> byte list"

function chunk_frames ::
  "codec \<Rightarrow> wal_config \<Rightarrow> wal_op_type \<Rightarrow> timestamp \<Rightarrow> wal_compression \<Rightarrow> nat \<Rightarrow> nat \<Rightarrow> nat \<Rightarrow> byte list \<Rightarrow> frame list" where
  "chunk_frames co cfg op ts c n i prev payload = (if payload = [] then []
     else let chunk = take WAL_MAX_RECORD_SIZE payload; new = next_lsn prev chunk
       in (build_wal_header co cfg op ts chunk prev new (chunk_record_type n i) c, chunk) #
          chunk_frames co cfg op ts c n (i + 1) new (drop WAL_MAX_RECORD_SIZE payload))"
  by pat_completeness auto
termination
  by (relation "measure (\<lambda>(co, cfg, op, ts, c, n, i, prev, payload). length payload)")
    (auto simp: WAL_MAX_RECORD_SIZE_def WAL_BLOCK_SIZE_def WAL_HEADER_SIZE_def)

declare chunk_frames.simps [simp del]

definition entry_frames ::
  "codec \<Rightarrow> wal_config \<Rightarrow> nat \<Rightarrow> wal_op_type \<Rightarrow> timestamp \<Rightarrow> byte list \<Rightarrow> wal_compression \<Rightarrow> frame list" where
  "entry_frames co cfg prev op ts p c = (if length p > WAL_MAX_RECORD_SIZE
     then chunk_frames co cfg op ts c (div_ceil (length p) WAL_MAX_RECORD_SIZE) 0 prev p
     else [(build_wal_header co cfg op ts p prev (next_lsn prev p) RFull c, p)])"

definition frames_end :: "nat \<Rightarrow> frame list \<Rightarrow> nat" where
  "frames_end prev fs = foldl (\<lambda>l (h, p). next_lsn l p) prev fs"

definition log_rep :: "wal_file_header \<Rightarrow> frame list \<Rightarrow> wal_writer \<Rightarrow> bool" where
  "log_rep fh fs w \<longleftrightarrow>
     w_file w = Some (file_header_as_bytes fh @ batch_bytes fs @ replicate (w_file_size w - w_file_used w) 0) \<and>
     w_file_used w = 64 + length (batch_bytes fs) \<and> w_file_used w \<le> w_file_size w \<and>
     length (fh_reserved fh) = 20 \<and> 0 < wc_truncate_size (w_config w)"

lemma batch_bytes_simps [simp]:
  "batch_bytes [] = []"
  "batch_bytes (f # fs) = serialize_record (fst f) (snd f) @ batch_bytes fs"
  "batch_bytes (fs @ gs) = batch_bytes fs @ batch_bytes gs"
  by (simp_all add: batch_bytes_def split: prod.split)

lemma frames_end_simps [simp]:
  "frames_end prev [] = prev"
  "frames_end prev (f # fs) = frames_end (next_lsn prev (snd f)) fs"
  "frames_end prev (fs @ gs) = frames_end (frames_end prev fs) gs"
  by (simp_all add: frames_end_def split: prod.split)

lemma set_len_zeros: "length a + k \<le> n \<Longrightarrow> set_len n (a @ replicate k 0) = a @ replicate (n - length a) 0"
  by (simp add: set_len_def replicate_add [symmetric])

lemma file_write_end:
  "length bs \<le> k \<Longrightarrow> file_write (length a) bs (a @ replicate k 0) = a @ bs @ replicate (k - length bs) 0"
  by (simp add: file_write_def)

lemma next_multiple_gt: "0 < t \<Longrightarrow> e < (e div t + 1) * (t :: nat)"
  by (metis Suc_eq_plus1 dividend_less_times_div mult.commute mult_Suc_right add.commute)

lemma log_rep_write:
  assumes rep: "log_rep fh fs w" and bs: "bs = batch_bytes gs"
    and w1: "w1 = grow_file (w_file_used w + length bs) w"
  shows "log_rep fh (fs @ gs) (w1\<lparr> w_file := map_option (file_write (w_file_used w) bs) (w_file w1),
           w_file_used := w_file_used w + length bs \<rparr>)"
proof -
  let ?a = "file_header_as_bytes fh @ batch_bytes fs"
  let ?e = "w_file_used w + length bs"
  have a: "length ?a = w_file_used w" and t: "0 < wc_truncate_size (w_config w)"
    and f: "w_file w = Some (?a @ replicate (w_file_size w - w_file_used w) 0)"
    and le: "w_file_used w \<le> w_file_size w" and r: "length (fh_reserved fh) = 20"
    using rep by (auto simp: log_rep_def length_file_header_as_bytes)
  have g: "?e \<le> w_file_size w1 \<and> w_file w1 = Some (?a @ replicate (w_file_size w1 - w_file_used w) 0) \<and>
      w_config w1 = w_config w"
  proof (cases "?e > w_file_size w")
    case True
    let ?n = "(?e div wc_truncate_size (w_config w) + 1) * wc_truncate_size (w_config w)"
    have n: "?e < ?n" by (rule next_multiple_gt [OF t])
    have "set_len ?n (?a @ replicate (w_file_size w - w_file_used w) 0) =
        ?a @ replicate (?n - w_file_used w) 0"
      using set_len_zeros [of ?a "w_file_size w - w_file_used w" ?n] n True le a by simp
    then show ?thesis using True n f by (simp add: w1 grow_file_def Let_def)
  next
    case False
    then show ?thesis using f by (simp add: w1 grow_file_def)
  qed
  have "length bs \<le> w_file_size w1 - w_file_used w" using g by linarith
  then have "file_write (w_file_used w) bs (?a @ replicate (w_file_size w1 - w_file_used w) 0) =
      ?a @ bs @ replicate (w_file_size w1 - (w_file_used w + length bs)) 0"
    using file_write_end [of bs "w_file_size w1 - w_file_used w" ?a] a by simp
  with g a r t bs rep show ?thesis by (simp add: log_rep_def)
qed

lemma write_entry_ok:
  assumes "log_rep fh fs w" "write_entry ok h p new w = (Inr (), w')"
  shows "log_rep fh (fs @ [(h, p)]) w'" "w_current_lsn w' = new" "w_config w' = w_config w"
    "w_buffer w' = w_buffer w" "w_is_open w' = w_is_open w" "w_poisoned w' = w_poisoned w"
    "w_flush_state w' = w_flush_state w"
proof -
  have f: "w_file w \<noteq> None" using assms(1) by (auto simp: log_rep_def)
  have g: "w_config (grow_file n w) = w_config w" "w_buffer (grow_file n w) = w_buffer w"
    "w_is_open (grow_file n w) = w_is_open w" "w_poisoned (grow_file n w) = w_poisoned w"
    "w_flush_state (grow_file n w) = w_flush_state w" for n
    by (simp_all add: grow_file_def Let_def)
  note rep = log_rep_write [OF assms(1), of "serialize_record h p" "[(h, p)]", OF _ refl]
  show "log_rep fh (fs @ [(h, p)]) w'"
    using assms(2) f rep by (auto simp: write_entry_def Let_def log_rep_def split: if_splits)
  show "w_current_lsn w' = new" "w_config w' = w_config w" "w_buffer w' = w_buffer w"
    "w_is_open w' = w_is_open w" "w_poisoned w' = w_poisoned w" "w_flush_state w' = w_flush_state w"
    using assms(2) f g by (auto simp: write_entry_def Let_def split: if_splits)
qed

lemma append_chunks_ok:
  "\<lbrakk> log_rep fh fs w; append_chunks co ok op ts c n i payload w = (Inr (), w') \<rbrakk> \<Longrightarrow>
   log_rep fh (fs @ chunk_frames co (w_config w) op ts c n i (w_current_lsn w) payload) w' \<and>
   w_current_lsn w' = frames_end (w_current_lsn w)
      (chunk_frames co (w_config w) op ts c n i (w_current_lsn w) payload) \<and>
   w_config w' = w_config w \<and> w_buffer w' = w_buffer w \<and> w_is_open w' = w_is_open w \<and> w_poisoned w' = w_poisoned w"
proof (induction co ok op ts c n i payload w arbitrary: fs rule: append_chunks.induct)
  case (1 co ok op ts c n i payload w)
  show ?case
  proof (cases "payload = []")
    case True
    with 1 show ?thesis by (simp add: append_chunks.simps chunk_frames.simps)
  next
    case False
    define chunk where "chunk = take WAL_MAX_RECORD_SIZE payload"
    define new where "new = next_lsn (w_current_lsn w) chunk"
    define h where "h = build_wal_header co (w_config w) op ts chunk (w_current_lsn w) new (chunk_record_type n i) c"
    obtain w1 where w1: "write_entry ok h chunk new w = (Inr (), w1)"
      "append_chunks co ok op ts c n (i + 1) (drop WAL_MAX_RECORD_SIZE payload) w1 = (Inr (), w')"
      using 1(3) False unfolding append_chunks.simps [of co ok op ts c n i payload w] chunk_def new_def h_def
      by (auto simp: Let_def split: sum.splits prod.splits)
    note we = write_entry_ok [OF 1(2) w1(1)]
    have cf: "chunk_frames co (w_config w) op ts c n i (w_current_lsn w) payload = (h, chunk) #
        chunk_frames co (w_config w) op ts c n (i + 1) new (drop WAL_MAX_RECORD_SIZE payload)"
      using False unfolding chunk_frames.simps [of co "w_config w" op ts c n i] chunk_def new_def h_def
      by (simp add: Let_def)
    have "log_rep fh ((fs @ [(h, chunk)]) @
        chunk_frames co (w_config w1) op ts c n (i + 1) (w_current_lsn w1) (drop WAL_MAX_RECORD_SIZE payload)) w' \<and>
      w_current_lsn w' = frames_end (w_current_lsn w1)
        (chunk_frames co (w_config w1) op ts c n (i + 1) (w_current_lsn w1) (drop WAL_MAX_RECORD_SIZE payload)) \<and>
      w_config w' = w_config w1 \<and> w_buffer w' = w_buffer w1 \<and> w_is_open w' = w_is_open w1 \<and>
      w_poisoned w' = w_poisoned w1"
      using 1(1) [OF False chunk_def refl new_def w1(1) [unfolded h_def, symmetric] refl we(1) w1(2)]
      by simp
    then show ?thesis unfolding cf using we by (simp add: new_def)
  qed
qed

lemma append_entry_ok:
  assumes "log_rep fh fs w" "w_buffer w = None" "append_entry co ok op ts payload w = (Inr (), w')"
  shows "\<exists>p c. compress co (w_config w) payload = Inr (p, c) \<and>
    log_rep fh (fs @ entry_frames co (w_config w) (w_current_lsn w) op ts p c) w' \<and>
    w_current_lsn w' = frames_end (w_current_lsn w) (entry_frames co (w_config w) (w_current_lsn w) op ts p c) \<and>
    w_config w' = w_config w \<and> w_buffer w' = None \<and> w_is_open w' \<and> \<not> w_poisoned w'"
proof -
  obtain p c where pc: "compress co (w_config w) payload = Inr (p, c)" "w_is_open w" "\<not> w_poisoned w" and
    r: "(if length p > WAL_MAX_RECORD_SIZE then append_fragmented_entry co ok op ts p c w
         else append_single_entry co ok op ts p c w) = (Inr (), w')"
    using assms(2,3) by (auto simp: append_entry_def check_writable_def split: sum.splits if_splits)
  show ?thesis
  proof (cases "length p > WAL_MAX_RECORD_SIZE")
    case True
    with r append_chunks_ok [OF assms(1), of co ok op ts c _ 0 p w'] pc assms(2) show ?thesis
      by (auto simp: append_fragmented_entry_def entry_frames_def)
  next
    case False
    with r write_entry_ok [OF assms(1)] pc assms(2) show ?thesis
      by (fastforce simp: append_single_entry_def entry_frames_def Let_def)
  qed
qed

lemma stage_record_eq:
  "stage_record co op ts p r c w =
     w\<lparr> w_buffer := map_option (\<lambda>b. b @ batch_bytes [(build_wal_header co (w_config w) op ts p
            (w_current_lsn w) (next_lsn (w_current_lsn w) p) r c, p)]) (w_buffer w),
        w_current_lsn := next_lsn (w_current_lsn w) p, w_buffered_lsn := next_lsn (w_current_lsn w) p \<rparr>"
  by (simp add: stage_record_def Let_def)

definition same_file :: "wal_writer \<Rightarrow> wal_writer \<Rightarrow> bool" where
  "same_file w w' \<longleftrightarrow> w_file w' = w_file w \<and> w_file_used w' = w_file_used w \<and>
     w_file_size w' = w_file_size w \<and> w_flush_state w' = w_flush_state w \<and> w_config w' = w_config w \<and>
     w_is_open w' = w_is_open w \<and> w_poisoned w' = w_poisoned w"

lemma stage_chunks_ok:
  "w_buffer w = Some b \<Longrightarrow>
   same_file w (stage_chunks co op ts c n i payload w) \<and>
   w_buffer (stage_chunks co op ts c n i payload w) =
     Some (b @ batch_bytes (chunk_frames co (w_config w) op ts c n i (w_current_lsn w) payload)) \<and>
   w_current_lsn (stage_chunks co op ts c n i payload w) =
     frames_end (w_current_lsn w) (chunk_frames co (w_config w) op ts c n i (w_current_lsn w) payload)"
proof (induction co op ts c n i payload w arbitrary: b rule: stage_chunks.induct)
  case (1 co op ts c n i payload w)
  show ?case
  proof (cases "payload = []")
    case True
    with 1(2) show ?thesis by (simp add: stage_chunks.simps chunk_frames.simps same_file_def)
  next
    case False
    with 1 show ?thesis
      unfolding stage_chunks.simps [of co op ts c n i payload w]
        chunk_frames.simps [of co "w_config w" op ts c n i "w_current_lsn w" payload]
      by (simp add: stage_record_eq same_file_def Let_def)
  qed
qed

lemma append_buffered_ok:
  assumes "w_buffer w = Some b" "append_entry_buffered co op ts payload w = (Inr (), w')"
  shows "\<exists>p c. compress co (w_config w) payload = Inr (p, c) \<and> same_file w w' \<and>
    w_buffer w' = Some (b @ batch_bytes (entry_frames co (w_config w) (w_current_lsn w) op ts p c)) \<and>
    w_current_lsn w' = frames_end (w_current_lsn w) (entry_frames co (w_config w) (w_current_lsn w) op ts p c)"
proof -
  obtain p c where pc: "compress co (w_config w) payload = Inr (p, c)" and
    r: "w' = (if length p > WAL_MAX_RECORD_SIZE
         then stage_chunks co op ts c (div_ceil (length p) WAL_MAX_RECORD_SIZE) 0 p w
         else stage_record co op ts p RFull c w)"
    using assms by (auto simp: append_entry_buffered_def split: sum.splits)
  show ?thesis
    unfolding r using stage_chunks_ok [OF assms(1)] pc assms(1)
    by (auto simp: entry_frames_def stage_record_eq same_file_def)
qed

lemma flush_rep:
  assumes rep: "log_rep fh fs w" and b: "w_buffer w = Some (batch_bytes gs)"
    and st: "w_flush_state w = Some \<lparr> fs_offset = w_file_used w, fs_file_size = w_file_size w \<rparr>"
    and w': "flush_buffered_to_file w = (Inr (), w')"
  shows "log_rep fh (fs @ gs) w' \<and> w_current_lsn w' = w_current_lsn w"
proof -
  let ?a = "file_header_as_bytes fh @ batch_bytes fs"
  let ?bs = "batch_bytes gs"
  let ?e = "w_file_used w + length ?bs"
  have a: "length ?a = w_file_used w" and le: "w_file_used w \<le> w_file_size w"
    and f: "w_file w = Some (?a @ replicate (w_file_size w - w_file_used w) 0)"
    using rep by (auto simp: log_rep_def length_file_header_as_bytes)
  have grown: "(if ?e > w_file_size w then set_len ?e (?a @ replicate (w_file_size w - w_file_used w) 0)
      else ?a @ replicate (w_file_size w - w_file_used w) 0) = ?a @ replicate (max ?e (w_file_size w) - w_file_used w) 0"
    using set_len_zeros [of ?a "w_file_size w - w_file_used w" ?e] a le by (auto simp: max_def)
  have "file_write (w_file_used w) ?bs (?a @ replicate (max ?e (w_file_size w) - w_file_used w) 0) =
      ?a @ ?bs @ replicate (max ?e (w_file_size w) - ?e) 0"
    using file_write_end [of ?bs "max ?e (w_file_size w) - w_file_used w" ?a] a by simp
  then have "write_to_flush_state ?bs \<lparr> fs_offset = w_file_used w, fs_file_size = w_file_size w \<rparr>
      (?a @ replicate (w_file_size w - w_file_used w) 0) =
    (\<lparr> fs_offset = ?e, fs_file_size = max ?e (w_file_size w) \<rparr>,
     ?a @ ?bs @ replicate (max ?e (w_file_size w) - ?e) 0)"
    by (simp only: write_to_flush_state_def Let_def flush_state.select_convs grown)
  then show ?thesis
    using w' rep b st f
    by (auto simp: flush_buffered_to_file_def ensure_flush_state_def drain_buffer_to_state_def
        syncback_file_used_def Let_def log_rep_def split: if_splits)
qed

subsection \<open>Sequences of appends\<close>

fun append_list :: "codec \<Rightarrow> bool \<Rightarrow> batch_entry list \<Rightarrow> wal_writer \<Rightarrow> unit wal_op" where
  "append_list co ok [] w = (Inr (), w)"
| "append_list co ok ((op, ts, p) # es) w = (case append_entry co ok op ts p w of
      (Inl e, w1) \<Rightarrow> (Inl e, w1)
    | (Inr _, w1) \<Rightarrow> append_list co ok es w1)"

fun list_frames :: "codec \<Rightarrow> wal_config \<Rightarrow> nat \<Rightarrow> batch_entry list \<Rightarrow> frame list option" where
  "list_frames co cfg prev [] = Some []"
| "list_frames co cfg prev ((op, ts, payload) # es) = (case compress co cfg payload of
      Inl e \<Rightarrow> None
    | Inr (p, c) \<Rightarrow> (let fs = entry_frames co cfg prev op ts p c
        in map_option (\<lambda>gs. fs @ gs) (list_frames co cfg (frames_end prev fs) es)))"

lemma append_list_ok:
  "\<lbrakk> log_rep fh fs w; w_buffer w = None; append_list co ok es w = (Inr (), w') \<rbrakk> \<Longrightarrow>
   \<exists>gs. list_frames co (w_config w) (w_current_lsn w) es = Some gs \<and> log_rep fh (fs @ gs) w' \<and>
     w_current_lsn w' = frames_end (w_current_lsn w) gs \<and> w_config w' = w_config w"
proof (induction es arbitrary: fs w)
  case Nil
  then show ?case by simp
next
  case (Cons e es)
  obtain op ts payload where e: "e = (op, ts, payload)" by (cases e)
  obtain w1 where w1: "append_entry co ok op ts payload w = (Inr (), w1)"
    "append_list co ok es w1 = (Inr (), w')"
    using Cons.prems(3) e by (auto split: sum.splits prod.splits)
  obtain p c where pc: "compress co (w_config w) payload = Inr (p, c)" and
    r: "log_rep fh (fs @ entry_frames co (w_config w) (w_current_lsn w) op ts p c) w1"
    "w_current_lsn w1 = frames_end (w_current_lsn w) (entry_frames co (w_config w) (w_current_lsn w) op ts p c)"
    "w_config w1 = w_config w" "w_buffer w1 = None"
    using append_entry_ok [OF Cons.prems(1,2) w1(1)] by auto
  from Cons.IH [OF r(1,4) w1(2)] pc r e show ?case by (auto simp: Let_def)
qed

lemma append_list_buffered_ok:
  "\<lbrakk> w_buffer w = Some b; append_list co ok es w = (Inr (), w') \<rbrakk> \<Longrightarrow>
   \<exists>gs. list_frames co (w_config w) (w_current_lsn w) es = Some gs \<and> same_file w w' \<and>
     w_buffer w' = Some (b @ batch_bytes gs) \<and> w_current_lsn w' = frames_end (w_current_lsn w) gs"
proof (induction es arbitrary: b w)
  case Nil
  then show ?case by (simp add: same_file_def)
next
  case (Cons e es)
  obtain op ts payload where e: "e = (op, ts, payload)" by (cases e)
  obtain w1 where w1: "append_entry_buffered co op ts payload w = (Inr (), w1)"
    "append_list co ok es w1 = (Inr (), w')"
    using Cons.prems e by (auto simp: append_entry_def split: sum.splits prod.splits)
  obtain p c where pc: "compress co (w_config w) payload = Inr (p, c)" "same_file w w1" and
    r: "w_buffer w1 = Some (b @ batch_bytes (entry_frames co (w_config w) (w_current_lsn w) op ts p c))"
    "w_current_lsn w1 = frames_end (w_current_lsn w) (entry_frames co (w_config w) (w_current_lsn w) op ts p c)"
    using append_buffered_ok [OF Cons.prems(1) w1(1)] by auto
  from Cons.IH [OF r(1) w1(2)] pc r e show ?case by (auto simp: Let_def same_file_def)
qed

definition log_contents :: "wal_writer \<Rightarrow> byte list option" where
  "log_contents w = map_option (take (w_file_used w)) (w_file w)"

lemma log_contents_rep:
  "log_rep fh fs w \<Longrightarrow> log_contents w = Some (file_header_as_bytes fh @ batch_bytes fs)"
  by (auto simp: log_contents_def log_rep_def length_file_header_as_bytes)

lemma append_list_drained:
  assumes rep: "log_rep fh fs w" and sync: "w_buffer w = None" "w_flush_state w = None"
    and cfg: "wc_enable_async_flush (w_config w)"
    and staged: "append_list co ok es (enable_async_flush w) = (Inr (), w2)"
    and flush: "flush_buffered_to_file w2 = (Inr (), w3)"
  shows "\<exists>hs. list_frames co (w_config w) (w_current_lsn w) es = Some hs \<and> log_rep fh (fs @ hs) w3 \<and>
    w_current_lsn w3 = frames_end (w_current_lsn w) hs"
proof -
  have f: "w_file w \<noteq> None" using rep by (auto simp: log_rep_def)
  let ?wa = "enable_async_flush w"
  have wa: "w_buffer ?wa = Some (batch_bytes [])" "w_config ?wa = w_config w" "w_current_lsn ?wa = w_current_lsn w"
    "log_rep fh fs ?wa"
    "w_flush_state ?wa = Some \<lparr> fs_offset = w_file_used ?wa, fs_file_size = w_file_size ?wa \<rparr>"
    using cfg sync f rep by (simp_all add: enable_async_flush_def ensure_flush_state_def log_rep_def)
  obtain hs where hs: "list_frames co (w_config w) (w_current_lsn w) es = Some hs" "same_file ?wa w2"
    "w_buffer w2 = Some (batch_bytes hs)" "w_current_lsn w2 = frames_end (w_current_lsn w) hs"
    using append_list_buffered_ok [OF wa(1) staged] wa(2,3) by auto
  have "log_rep fh fs w2" "w_flush_state w2 = Some \<lparr> fs_offset = w_file_used w2, fs_file_size = w_file_size w2 \<rparr>"
    using hs(2) wa(4,5) by (simp_all add: same_file_def log_rep_def)
  from flush_rep [OF this(1) hs(3) this(2) flush] hs show ?thesis by auto
qed

text \<open>
  C25.  Staging appends in the buffer and draining it gives the same log as writing
  them directly: from any log, the same appends on a writer with asynchronous
  flushing, followed by a drain, leave the same bytes in use and the same log
  position as the synchronous writer.
\<close>

theorem buffered_appends_equivalent:
  assumes rep: "log_rep fh fs w" and sync: "w_buffer w = None" "w_flush_state w = None"
    and cfg: "wc_enable_async_flush (w_config w)"
    and direct: "append_list co ok es w = (Inr (), w1)"
    and staged: "append_list co ok es (enable_async_flush w) = (Inr (), w2)"
    and flush: "flush_buffered_to_file w2 = (Inr (), w3)"
  shows "log_contents w3 = log_contents w1 \<and> w_current_lsn w3 = w_current_lsn w1"
proof -
  obtain gs where gs: "list_frames co (w_config w) (w_current_lsn w) es = Some gs" "log_rep fh (fs @ gs) w1"
    "w_current_lsn w1 = frames_end (w_current_lsn w) gs"
    using append_list_ok [OF rep sync(1) direct] by auto
  with append_list_drained [OF rep sync cfg staged flush] show ?thesis by (auto simp: log_contents_rep)
qed

definition demo_codec :: codec where
  "demo_codec = \<lparr> co_crc = (\<lambda>bs. length bs mod 2 ^ 32), co_zstd_encode = Some, co_zstd_decode = Some \<rparr>"

definition demo_wal_config :: "bool \<Rightarrow> wal_config" where
  "demo_wal_config async = \<lparr> wc_truncate_size = 64, wc_max_file_size = 4096, wc_sync_policy = EveryWrite,
     wc_compression = NoCompression, wc_checksum_enabled = True, wc_enable_async_flush = async \<rparr>"

definition demo_seed :: fh_seed where
  "demo_seed = \<lparr> seed_salt1 = 1, seed_salt2 = 2, seed_created_at = 3 \<rparr>"

definition demo_writer :: "bool \<Rightarrow> wal_writer" where
  "demo_writer async = snd (writer_open demo_seed 1 None (writer_with_config 0 (demo_wal_config async)))"

lemma demo_writer_rep:
  "log_rep (with_checksum_enabled True (file_header_new 1 2 3 0 0 0)) [] (demo_writer async)"
  "w_buffer (demo_writer async) = None" "w_flush_state (demo_writer async) = None"
  "w_config (demo_writer async) = demo_wal_config async" "w_is_open (demo_writer async)"
  "\<not> w_poisoned (demo_writer async)" "w_current_lsn (demo_writer async) = 0"
  by (simp_all add: demo_writer_def writer_open_def check_poisoned_def start_segment_def write_file_header_def
      persist_file_header_def ensure_flush_state_def writer_with_config_def demo_wal_config_def demo_seed_def
      log_rep_def file_write_def set_len_def with_checksum_enabled_def file_header_new_def
      length_file_header_as_bytes WAL_FILE_HEADER_SIZE_def Let_def)

lemma write_entry_succeeds: "w_file w \<noteq> None \<Longrightarrow> \<exists>w'. write_entry True h p new w = (Inr (), w')"
  by (simp add: write_entry_def Let_def)

lemma append_small_succeeds:
  assumes "w_file w \<noteq> None" "w_is_open w" "\<not> w_poisoned w" "wc_compression (w_config w) = NoCompression"
    "length p \<le> WAL_MAX_RECORD_SIZE"
  shows "\<exists>w'. append_entry co True op ts p w = (Inr (), w')"
  using assms write_entry_succeeds [OF assms(1)]
  by (auto simp: append_entry_def append_entry_buffered_def check_writable_def compress_def
      append_single_entry_def Let_def)

theorem buffered_appends_equivalent_witness:
  "\<exists>w1 w2 w3. append_list demo_codec True [(OpCompact, 5, [])] (demo_writer True) = (Inr (), w1) \<and>
     append_list demo_codec True [(OpCompact, 5, [])] (enable_async_flush (demo_writer True)) = (Inr (), w2) \<and>
     flush_buffered_to_file w2 = (Inr (), w3) \<and>
     log_contents w3 = log_contents w1 \<and> w_current_lsn w3 = w_current_lsn w1"
proof -
  let ?w = "demo_writer True" and ?wa = "enable_async_flush (demo_writer True)"
  note d = demo_writer_rep [of True]
  have f: "w_file ?w \<noteq> None" using d(1) by (auto simp: log_rep_def)
  have c: "wc_compression (demo_wal_config True) = NoCompression" "wc_enable_async_flush (demo_wal_config True)"
    by (simp_all add: demo_wal_config_def)
  have wa: "w_file ?wa \<noteq> None" "w_is_open ?wa" "\<not> w_poisoned ?wa" "w_config ?wa = demo_wal_config True"
    using d f c by (auto simp: enable_async_flush_def ensure_flush_state_def)
  obtain w1 where w1: "append_list demo_codec True [(OpCompact, 5, [])] ?w = (Inr (), w1)"
    using append_small_succeeds [of ?w "[]" demo_codec OpCompact 5] f d c by auto
  obtain w2 where w2: "append_list demo_codec True [(OpCompact, 5, [])] ?wa = (Inr (), w2)"
    using append_small_succeeds [of ?wa "[]" demo_codec OpCompact 5] wa c by auto
  have "fst (flush_buffered_to_file w2) = Inr ()" by (simp add: flush_buffered_to_file_def Let_def)
  then obtain w3 where w3: "flush_buffered_to_file w2 = (Inr (), w3)" by (cases "flush_buffered_to_file w2") auto
  from buffered_appends_equivalent [OF d(1,2,3) c(2) [folded d(4)] w1 w2 w3] w1 w2 w3 show ?thesis by blast
qed

end
