(* ===== verification/WalScan.thy ===== *)
theory WalScan
  imports WalWriter
begin

text \<open>
  The byte scan of one log file (\<open>linkrs-transaction/src/wal/parser/scan.rs\<close>), the
  reassembly of fragmented records (\<open>parser/fragment.rs\<close>), the header check of a
  file read from disk (\<open>parser/discover.rs\<close>) and the merge of the results of
  several files (\<open>parser/sequential.rs\<close>, \<open>parser/parallel.rs\<close>).  The loop body is
  one step; the loop ends because every step moves the offset forward.
\<close>

subsection \<open>Results\<close>

datatype wal_recovery_mode = AbortOnCorruption | SkipCorruption | WalOnly | ErrorIfMissing

record parsed_entry =
  pe_header :: wal_header
  pe_payload :: "byte list"
  pe_checksum_valid :: bool
  pe_offset :: nat
  pe_lsn :: nat
  pe_prev_lsn :: nat
  pe_file_start_lsn :: nat

record recovery_result =
  rr_entries :: "parsed_entry list"
  rr_last_timestamp :: timestamp
  rr_last_lsn :: nat
  rr_corrupted_count :: nat
  rr_skipped_count :: nat

definition recovery_default :: recovery_result where
  "recovery_default = \<lparr> rr_entries = [], rr_last_timestamp = 0, rr_last_lsn = 0,
     rr_corrupted_count = 0, rr_skipped_count = 0 \<rparr>"

definition count_corrupted :: "recovery_result \<Rightarrow> recovery_result" where
  "count_corrupted r = r\<lparr> rr_corrupted_count := rr_corrupted_count r + 1 \<rparr>"

definition push_entry :: "parsed_entry \<Rightarrow> recovery_result \<Rightarrow> recovery_result" where
  "push_entry e r = r\<lparr> rr_entries := rr_entries r @ [e],
     rr_last_timestamp := max (rr_last_timestamp r) (h_timestamp (pe_header e)),
     rr_last_lsn := (if pe_lsn e > rr_last_lsn r then pe_lsn e else rr_last_lsn r) \<rparr>"

subsection \<open>Fragments\<close>

record fragment_buffer =
  fragments :: "byte list list"
  first_header :: "wal_header option"
  expected_next :: "record_type option"

definition fragment_new :: fragment_buffer where
  "fragment_new = \<lparr> fragments = [], first_header = None, expected_next = None \<rparr>"

definition add_fragment :: "wal_header \<Rightarrow> byte list \<Rightarrow> fragment_buffer \<Rightarrow> bool \<times> fragment_buffer" where
  "add_fragment h p fb = (case h_record_type h of
      RFull \<Rightarrow> (True, fragment_new)
    | RFirst \<Rightarrow> (False, \<lparr> fragments = [p], first_header = Some h, expected_next = Some RMiddle \<rparr>)
    | RMiddle \<Rightarrow> if expected_next fb \<noteq> Some RMiddle \<and> expected_next fb \<noteq> Some RLast
        then (False, fragment_new)
        else (False, fb\<lparr> fragments := fragments fb @ [p], expected_next := Some RMiddle \<rparr>)
    | RLast \<Rightarrow> if expected_next fb \<noteq> Some RMiddle \<and> expected_next fb \<noteq> Some RLast
        then (False, fragment_new)
        else (True, fb\<lparr> fragments := fragments fb @ [p] \<rparr>))"

definition assemble :: "fragment_buffer \<Rightarrow> byte list option" where
  "assemble fb = (if fragments fb = [] then None else Some (concat (fragments fb)))"

subsection \<open>One step of the scan\<close>

record scan_env =
  se_codec :: codec
  se_file_start_lsn :: nat
  se_mode :: wal_recovery_mode
  se_verify_checksum :: bool

record scan_state =
  sc_offset :: nat
  sc_expected_prev :: nat
  sc_fragments :: fragment_buffer
  sc_result :: recovery_result

datatype scan_outcome = ScanDone "(wal_error, recovery_result) result" | ScanNext scan_state

definition is_zero_padding :: "wal_header \<Rightarrow> bool" where
  "is_zero_padding h \<longleftrightarrow> h_timestamp h = 0 \<and> h_length h = 0 \<and> h_lsn h = 0"

definition validate_lsn_chain :: "wal_header \<Rightarrow> nat \<Rightarrow> (wal_error, unit) result" where
  "validate_lsn_chain h expected_prev =
     (if h_prev_lsn h + WAL_HEADER_SIZE + h_length h \<ge> 2 ^ 64 then Inl WalCorrupted
      else if h_prev_lsn h \<noteq> expected_prev \<or> h_lsn h \<noteq> h_prev_lsn h + WAL_HEADER_SIZE + h_length h
      then Inl WalCorrupted else Inr ())"

definition checksum_mismatch :: "(byte list \<Rightarrow> nat) \<Rightarrow> wal_header \<Rightarrow> byte list \<Rightarrow> bool \<Rightarrow> nat option" where
  "checksum_mismatch crc h payload verify =
     (if verify \<and> h_checksum h \<noteq> 0 \<and> crc (checksum_input h payload) \<noteq> h_checksum h
      then Some (crc (checksum_input h payload)) else None)"

definition decompress_payload ::
  "(byte list \<Rightarrow> byte list option) \<Rightarrow> byte list \<Rightarrow> wal_compression \<Rightarrow> (wal_error, byte list) result" where
  "decompress_payload zdec payload c = (case c of
      Zstd \<Rightarrow> (case zdec payload of None \<Rightarrow> Inl WalDeserializationError | Some d \<Rightarrow> Inr d)
    | NoCompression \<Rightarrow> Inr payload)"

definition decode_record_payload ::
  "(byte list \<Rightarrow> byte list option) \<Rightarrow> wal_header \<Rightarrow> byte list \<Rightarrow> (wal_error, byte list) result" where
  "decode_record_payload zdec h payload =
     (if is_compressed h then decompress_payload zdec payload (h_compression h) else Inr payload)"

definition parsed_of :: "nat \<Rightarrow> nat \<Rightarrow> wal_header \<Rightarrow> byte list \<Rightarrow> parsed_entry" where
  "parsed_of start off h p = \<lparr> pe_header = h, pe_payload = p, pe_checksum_valid = True, pe_offset = off,
     pe_lsn = h_lsn h, pe_prev_lsn = h_prev_lsn h, pe_file_start_lsn = start \<rparr>"

definition absorb_record ::
  "nat \<Rightarrow> nat \<Rightarrow> wal_header \<Rightarrow> byte list \<Rightarrow> fragment_buffer \<times> recovery_result \<Rightarrow> fragment_buffer \<times> recovery_result" where
  "absorb_record start off h p = (\<lambda>(fb, r).
     if h_record_type h = RFull then (fb, push_entry (parsed_of start off h p) r)
     else case add_fragment h p fb of
       (False, fb1) \<Rightarrow> (fb1, r)
     | (True, fb1) \<Rightarrow> (fragment_new, push_entry (parsed_of start off
           (case first_header fb1 of Some h1 \<Rightarrow> h1 | None \<Rightarrow> h)
           (case assemble fb1 of Some q \<Rightarrow> q | None \<Rightarrow> [])) r))"

definition skip_or_abort :: "scan_env \<Rightarrow> wal_error \<Rightarrow> nat \<Rightarrow> scan_state \<Rightarrow> scan_outcome" where
  "skip_or_abort env e off s = (if se_mode env = AbortOnCorruption then ScanDone (Inl e)
     else ScanNext (s\<lparr> sc_offset := off, sc_result := count_corrupted (sc_result s) \<rparr>))"

definition scan_step :: "scan_env \<Rightarrow> byte list \<Rightarrow> scan_state \<Rightarrow> scan_outcome" where
  "scan_step env buffer s = (let off = sc_offset s in
     if off + WAL_HEADER_SIZE > length buffer then ScanDone (Inr (sc_result s))
     else case header_from_bytes (slice off WAL_HEADER_SIZE buffer) of
       None \<Rightarrow> skip_or_abort env WalCorrupted (off + 1) s
     | Some h \<Rightarrow>
       if is_zero_padding h then ScanDone (Inr (sc_result s))
       else case validate_lsn_chain h (sc_expected_prev s) of
         Inl e \<Rightarrow> ScanDone (Inl e)
       | Inr _ \<Rightarrow>
         if \<not> is_length_valid (length buffer - off - WAL_HEADER_SIZE) h
         then ScanDone (Inr (count_corrupted (sc_result s)))
         else let payload = slice (off + WAL_HEADER_SIZE) (h_length h) buffer;
                  payload_end = off + WAL_HEADER_SIZE + h_length h
           in case op_try_from (h_op_type h) of
             Inl e \<Rightarrow> skip_or_abort env e payload_end s
           | Inr _ \<Rightarrow>
             (case checksum_mismatch (co_crc (se_codec env)) h payload (se_verify_checksum env) of
                Some computed \<Rightarrow> skip_or_abort env (WalChecksumMismatch (h_checksum h) computed) payload_end s
              | None \<Rightarrow>
                (case decode_record_payload (co_zstd_decode (se_codec env)) h payload of
                   Inl e \<Rightarrow> skip_or_abort env e payload_end s
                 | Inr d \<Rightarrow>
                   (case absorb_record (se_file_start_lsn env) off h d (sc_fragments s, sc_result s) of
                      (fb, r) \<Rightarrow> ScanNext \<lparr> sc_offset = payload_end, sc_expected_prev = h_lsn h,
                                            sc_fragments = fb, sc_result = r \<rparr>))))"

lemma scan_step_progress:
  "scan_step env buffer s = ScanNext s' \<Longrightarrow> sc_offset s < sc_offset s' \<and> sc_offset s + WAL_HEADER_SIZE \<le> length buffer"
  by (auto simp: scan_step_def skip_or_abort_def Let_def WAL_HEADER_SIZE_def
      split: if_splits option.splits sum.splits prod.splits)

function scan_loop :: "scan_env \<Rightarrow> byte list \<Rightarrow> scan_state \<Rightarrow> (wal_error, recovery_result) result" where
  "scan_loop env buffer s = (case scan_step env buffer s of
      ScanDone r \<Rightarrow> r
    | ScanNext s' \<Rightarrow> scan_loop env buffer s')"
  by pat_completeness auto
termination
proof (relation "measure (\<lambda>(env, buffer, s). length buffer - sc_offset s)")
  fix env buffer s s'
  assume "scan_step env buffer s = ScanNext s'"
  then show "((env, buffer, s'), (env, buffer, s)) \<in> measure (\<lambda>(env, buffer, s). length buffer - sc_offset s)"
    using scan_step_progress [of env buffer s s'] by (auto simp: WAL_HEADER_SIZE_def)
qed simp

declare scan_loop.simps [simp del]

definition scan_init :: "nat \<Rightarrow> scan_state" where
  "scan_init start = \<lparr> sc_offset = WAL_FILE_HEADER_SIZE, sc_expected_prev = start,
     sc_fragments = fragment_new, sc_result = recovery_default \<rparr>"

definition parse_wal_file_bytes ::
  "codec \<Rightarrow> wal_recovery_mode \<Rightarrow> bool \<Rightarrow> nat \<Rightarrow> byte list \<Rightarrow> (wal_error, recovery_result) result" where
  "parse_wal_file_bytes co mode verify start buffer =
     scan_loop \<lparr> se_codec = co, se_file_start_lsn = start, se_mode = mode, se_verify_checksum = verify \<rparr>
       buffer (scan_init start)"

subsection \<open>Files\<close>

definition read_wal_file :: "byte list \<Rightarrow> (wal_error, wal_file_header option) result" where
  "read_wal_file buffer = (if buffer = [] then Inr None
     else if length buffer < WAL_FILE_HEADER_SIZE then Inl InvalidFileHeader
     else case file_header_from_bytes (take WAL_FILE_HEADER_SIZE buffer) of
       None \<Rightarrow> Inl InvalidFileHeader
     | Some h \<Rightarrow> if file_header_is_valid h then Inr (Some h) else Inl InvalidFileHeader)"

definition parse_file :: "codec \<Rightarrow> wal_recovery_mode \<Rightarrow> bool \<Rightarrow> byte list \<Rightarrow> (wal_error, recovery_result) result" where
  "parse_file co mode verify buffer = (case read_wal_file buffer of
      Inl e \<Rightarrow> Inl e
    | Inr None \<Rightarrow> Inr recovery_default
    | Inr (Some h) \<Rightarrow> parse_wal_file_bytes co mode verify (fh_start_lsn h) buffer)"

definition merge_result :: "recovery_result \<Rightarrow> recovery_result \<Rightarrow> recovery_result" where
  "merge_result m r = \<lparr> rr_entries = rr_entries m @ rr_entries r,
     rr_last_timestamp = max (rr_last_timestamp m) (rr_last_timestamp r),
     rr_last_lsn = max (rr_last_lsn m) (rr_last_lsn r),
     rr_corrupted_count = rr_corrupted_count m + rr_corrupted_count r,
     rr_skipped_count = rr_skipped_count m + rr_skipped_count r \<rparr>"

definition sort_entries :: "recovery_result \<Rightarrow> recovery_result" where
  "sort_entries r = r\<lparr> rr_entries := sort_key pe_lsn (rr_entries r) \<rparr>"

fun parse_files_loop ::
  "codec \<Rightarrow> wal_recovery_mode \<Rightarrow> bool \<Rightarrow> byte list list \<Rightarrow> recovery_result \<Rightarrow> (wal_error, recovery_result) result" where
  "parse_files_loop co mode verify [] m = Inr m"
| "parse_files_loop co mode verify (f # fs) m = (case parse_file co mode verify f of
      Inl e \<Rightarrow> if mode = AbortOnCorruption then Inl WalRecoveryAborted
        else parse_files_loop co mode verify fs (count_corrupted m)
    | Inr r \<Rightarrow> parse_files_loop co mode verify fs (merge_result m r))"

definition parse_wal_files ::
  "codec \<Rightarrow> wal_recovery_mode \<Rightarrow> bool \<Rightarrow> byte list list \<Rightarrow> (wal_error, recovery_result) result" where
  "parse_wal_files co mode verify files =
     (case parse_files_loop co mode verify files recovery_default of
        Inl e \<Rightarrow> Inl e | Inr m \<Rightarrow> Inr (sort_entries m))"

subsection \<open>Scanning well-formed frames\<close>

definition frame_ok :: "codec \<Rightarrow> nat \<Rightarrow> frame \<Rightarrow> bool" where
  "frame_ok co prev f \<longleftrightarrow> (case f of (h, p) \<Rightarrow> header_ok h \<and> h_length h = length p \<and>
     length p \<le> MAX_PAYLOAD_LENGTH \<and> h_prev_lsn h = prev \<and> h_lsn h = prev + 40 + length p \<and>
     (\<exists>op. op_try_from (h_op_type h) = Inr op) \<and>
     (h_checksum h = 0 \<or> h_checksum h = co_crc co (checksum_input h p)) \<and>
     (\<exists>d. decode_record_payload (co_zstd_decode co) h p = Inr d))"

fun chain_ok :: "codec \<Rightarrow> nat \<Rightarrow> frame list \<Rightarrow> bool" where
  "chain_ok co prev [] = True"
| "chain_ok co prev (f # fs) = (frame_ok co prev f \<and> chain_ok co (h_lsn (fst f)) fs)"

definition decoded :: "codec \<Rightarrow> frame \<Rightarrow> byte list" where
  "decoded co f = (case decode_record_payload (co_zstd_decode co) (fst f) (snd f) of Inr d \<Rightarrow> d | Inl _ \<Rightarrow> [])"

fun absorb_frames ::
  "codec \<Rightarrow> nat \<Rightarrow> nat \<Rightarrow> frame list \<Rightarrow> fragment_buffer \<times> recovery_result \<Rightarrow> fragment_buffer \<times> recovery_result" where
  "absorb_frames co start off [] acc = acc"
| "absorb_frames co start off (f # fs) acc =
     absorb_frames co start (off + 40 + length (snd f)) fs (absorb_record start off (fst f) (decoded co f) acc)"

lemma length_serialize_record: "length (serialize_record h p) = 40 + length p"
  by (simp add: serialize_record_def)

lemma slice_prefix: "length a = off \<Longrightarrow> length b = n \<Longrightarrow> slice off n (a @ b @ c) = b"
  by (simp add: slice_def)

lemma valid_chain_frame:
  "frame_ok co prev (h, p) \<Longrightarrow> validate_lsn_chain h prev = Inr ()"
  by (auto simp: frame_ok_def validate_lsn_chain_def WAL_HEADER_SIZE_def header_ok_def)

lemma scan_step_frame:
  assumes ok: "frame_ok (se_codec env) (sc_expected_prev s) (h, p)" and off: "length a = sc_offset s"
  shows "scan_step env (a @ serialize_record h p @ rest) s =
    (case absorb_record (se_file_start_lsn env) (sc_offset s) h (decoded (se_codec env) (h, p))
            (sc_fragments s, sc_result s) of
       (fb, r) \<Rightarrow> ScanNext \<lparr> sc_offset = sc_offset s + 40 + length p, sc_expected_prev = h_lsn h,
                             sc_fragments = fb, sc_result = r \<rparr>)"
proof -
  let ?buf = "a @ serialize_record h p @ rest"
  have hb: "slice (sc_offset s) 40 ?buf = header_as_bytes h"
    using off slice_prefix [of a _ "header_as_bytes h" 40 "p @ rest"] by (simp add: serialize_record_def)
  have pl: "slice (sc_offset s + 40) (length p) ?buf = p"
    using off slice_prefix [of "a @ header_as_bytes h" _ p _ rest] by (simp add: serialize_record_def)
  have hdr: "header_from_bytes (header_as_bytes h) = Some h"
    using ok header_roundtrip by (simp add: frame_ok_def)
  have nz: "\<not> is_zero_padding h" using ok by (auto simp: frame_ok_def is_zero_padding_def)
  have cs: "checksum_mismatch (co_crc (se_codec env)) h p (se_verify_checksum env) = None"
    using ok by (auto simp: frame_ok_def checksum_mismatch_def)
  obtain op d where od: "op_try_from (h_op_type h) = Inr op"
    "decode_record_payload (co_zstd_decode (se_codec env)) h p = Inr d"
    using ok by (auto simp: frame_ok_def)
  have len: "h_length h = length p" "is_length_valid (length p + length rest) h"
    using ok by (auto simp: frame_ok_def is_length_valid_def)
  show ?thesis
    using hb pl hdr nz cs od len valid_chain_frame [OF ok] off
    by (simp add: scan_step_def Let_def WAL_HEADER_SIZE_def length_serialize_record decoded_def)
qed

lemma scan_loop_frames:
  "\<lbrakk> chain_ok (se_codec env) (sc_expected_prev s) fs; length a = sc_offset s \<rbrakk> \<Longrightarrow>
   scan_loop env (a @ batch_bytes fs @ rest) s =
   scan_loop env (a @ batch_bytes fs @ rest)
     (case absorb_frames (se_codec env) (se_file_start_lsn env) (sc_offset s) fs (sc_fragments s, sc_result s) of
        (fb, r) \<Rightarrow> \<lparr> sc_offset = sc_offset s + length (batch_bytes fs),
                     sc_expected_prev = sc_expected_prev s + length (batch_bytes fs),
                     sc_fragments = fb, sc_result = r \<rparr>)"
proof (induction fs arbitrary: a s)
  case Nil
  then show ?case by (cases s) simp
next
  case (Cons f fs)
  obtain h p where f: "f = (h, p)" by (cases f)
  have ok: "frame_ok (se_codec env) (sc_expected_prev s) (h, p)" using Cons.prems f by simp
  obtain fb r where fr: "absorb_record (se_file_start_lsn env) (sc_offset s) h (decoded (se_codec env) (h, p))
      (sc_fragments s, sc_result s) = (fb, r)" by (metis prod.exhaust)
  let ?s1 = "\<lparr> sc_offset = sc_offset s + 40 + length p, sc_expected_prev = h_lsn h,
                sc_fragments = fb, sc_result = r \<rparr>"
  have l: "h_lsn h = sc_expected_prev s + 40 + length p" using ok by (simp add: frame_ok_def)
  have "scan_loop env (a @ batch_bytes (f # fs) @ rest) s =
      scan_loop env ((a @ serialize_record h p) @ batch_bytes fs @ rest) ?s1"
    using scan_step_frame [OF ok Cons.prems(2), of "batch_bytes fs @ rest"] fr f
    by (subst scan_loop.simps) simp
  also have "\<dots> = scan_loop env ((a @ serialize_record h p) @ batch_bytes fs @ rest)
     (case absorb_frames (se_codec env) (se_file_start_lsn env) (sc_offset ?s1) fs (sc_fragments ?s1, sc_result ?s1) of
        (fb, r) \<Rightarrow> \<lparr> sc_offset = sc_offset ?s1 + length (batch_bytes fs),
                     sc_expected_prev = sc_expected_prev ?s1 + length (batch_bytes fs),
                     sc_fragments = fb, sc_result = r \<rparr>)"
    using Cons.prems f by (intro Cons.IH) (simp_all add: serialize_record_def)
  finally show ?case
    using fr l f by (simp add: serialize_record_def add.assoc split: prod.splits)
qed

subsection \<open>The end of the log\<close>

lemma scan_short_tail:
  "length buffer < sc_offset s + 40 \<Longrightarrow> scan_loop env buffer s = Inr (sc_result s)"
  by (subst scan_loop.simps) (simp add: scan_step_def WAL_HEADER_SIZE_def)

lemma be_val_zeros: "be_val (replicate k 0) = 0"
  by (induction k) simp_all

lemma le_val_zeros [simp]: "le_val (replicate k 0) = 0"
  by (simp add: le_val_def be_val_zeros)

lemma slice_zeros: "off + n \<le> k \<Longrightarrow> slice off n (replicate k x) = replicate n x"
  by (simp add: slice_def)

lemma scan_zero_tail:
  assumes "length a = sc_offset s"
  shows "scan_loop env (a @ replicate k 0) s = Inr (sc_result s)"
proof (cases "k < 40")
  case True
  with assms show ?thesis by (simp add: scan_short_tail)
next
  case False
  have z: "slice (sc_offset s) 40 (a @ replicate k 0) = replicate 40 0"
    using False assms by (simp add: slice_def)
  have "header_from_bytes (replicate 40 0) = Some \<lparr> h_length = 0, h_op_type = 0, h_is_update = False,
      h_record_type = RFull, h_flags = 0, h_timestamp = 0, h_lsn = 0, h_prev_lsn = 0, h_checksum = 0 \<rparr>"
    by (simp add: header_from_bytes_def WAL_HEADER_SIZE_def slice_zeros record_type_of_byte_def)
  with z False assms show ?thesis
    by (subst scan_loop.simps) (simp add: scan_step_def Let_def WAL_HEADER_SIZE_def is_zero_padding_def)
qed

lemma scan_torn_tail:
  assumes ok: "frame_ok (se_codec env) (sc_expected_prev s) (h, p)" and off: "length a = sc_offset s"
    and n: "40 \<le> n" "n < 40 + length p"
  shows "scan_loop env (a @ take n (serialize_record h p)) s = Inr (count_corrupted (sc_result s))"
proof -
  have "slice (sc_offset s) 40 (a @ take n (serialize_record h p)) = header_as_bytes h"
    using off n slice_prefix [of a _ "header_as_bytes h" 40 "take (n - 40) p"] by (simp add: serialize_record_def)
  moreover have "header_from_bytes (header_as_bytes h) = Some h"
    using ok header_roundtrip by (simp add: frame_ok_def)
  moreover have "\<not> is_zero_padding h" using ok by (auto simp: frame_ok_def is_zero_padding_def)
  moreover have "length (a @ take n (serialize_record h p)) = sc_offset s + n"
    using off n by (simp add: serialize_record_def)
  moreover have "\<not> is_length_valid (n - 40) h" using ok n by (auto simp: frame_ok_def is_length_valid_def)
  ultimately show ?thesis
    using n valid_chain_frame [OF ok] by (subst scan_loop.simps) (simp add: scan_step_def Let_def WAL_HEADER_SIZE_def)
qed

end
