(* ===== verification/WalLog.thy ===== *)
theory WalLog
  imports WalScan
begin

text \<open>
  What the scan recovers of what the writer wrote: the frames of every append are
  well formed, a complete log is read back exactly, and a log cut at any byte is
  read back up to its last complete record.  The laws assumed of the libraries are
  in \<open>codec_ok\<close>: a CRC-32 fits 32 bits and decompression inverts compression.
\<close>

definition codec_ok :: "codec \<Rightarrow> bool" where
  "codec_ok co \<longleftrightarrow> (\<forall>bs. co_crc co bs < 256 ^ 4) \<and>
     (\<forall>d c. co_zstd_encode co d = Some c \<longrightarrow> co_zstd_decode co c = Some d)"

definition entry_request :: "parsed_entry \<Rightarrow> nat \<times> timestamp \<times> byte list" where
  "entry_request e = (h_op_type (pe_header e), h_timestamp (pe_header e), pe_payload e)"

definition batch_request :: "batch_entry \<Rightarrow> nat \<times> timestamp \<times> byte list" where
  "batch_request b = (case b of (op, ts, p) \<Rightarrow> (op_as_u8 op, ts, p))"

lemma batch_request_Pair [simp]: "batch_request (op, ts, p) = (op_as_u8 op, ts, p)"
  by (simp add: batch_request_def)

subsection \<open>Frames built by the writer\<close>

lemma build_header_fields [simp]:
  "h_length (build_wal_header co cfg op ts p prev new r c) = length p mod 2 ^ 32"
  "h_op_type (build_wal_header co cfg op ts p prev new r c) = op_as_u8 op"
  "h_timestamp (build_wal_header co cfg op ts p prev new r c) = ts"
  "h_lsn (build_wal_header co cfg op ts p prev new r c) = new"
  "h_prev_lsn (build_wal_header co cfg op ts p prev new r c) = prev"
  "h_record_type (build_wal_header co cfg op ts p prev new r c) = r"
  "h_flags (build_wal_header co cfg op ts p prev new r c) = flag_byte c"
  by (simp_all add: build_wal_header_def Let_def with_compression_def with_record_type_def with_lsn_def
      header_new_def with_checksum_def)

lemma build_header_compression [simp]:
  "h_compression (build_wal_header co cfg op ts p prev new r c) = c"
  by (cases c) (simp_all add: h_compression_def from_flag_byte_def)

lemma build_header_checksum:
  "h_checksum (build_wal_header co cfg op ts p prev new r c) = 0 \<or>
   h_checksum (build_wal_header co cfg op ts p prev new r c) =
     co_crc co (checksum_input (build_wal_header co cfg op ts p prev new r c) p)"
  by (simp add: build_wal_header_def Let_def with_compression_def with_record_type_def with_lsn_def
      header_new_def with_checksum_def checksum_input_def)

lemma next_lsn_exact: "prev + 40 + length p < 2 ^ 64 \<Longrightarrow> next_lsn prev p = prev + 40 + length p"
  by (simp add: next_lsn_def WAL_HEADER_SIZE_def add.assoc)

definition decodes :: "codec \<Rightarrow> wal_compression \<Rightarrow> byte list \<Rightarrow> byte list \<Rightarrow> bool" where
  "decodes co c p d \<longleftrightarrow> (case c of NoCompression \<Rightarrow> p = d | Zstd \<Rightarrow> co_zstd_decode co p = Some d)"

lemma decode_build:
  "decodes co c p d \<Longrightarrow>
   decode_record_payload (co_zstd_decode co) (build_wal_header co cfg op ts q prev new r c) p = Inr d"
  by (cases c) (simp_all add: decodes_def decode_record_payload_def is_compressed_def decompress_payload_def)

lemma build_frame_ok:
  assumes co: "codec_ok co" and ts: "ts < 2 ^ 64" and lsn: "prev + 40 + length p < 2 ^ 64"
    and len: "length p \<le> MAX_PAYLOAD_LENGTH" and d: "decodes co c p d"
  shows "frame_ok co prev (build_wal_header co cfg op ts p prev (next_lsn prev p) r c, p)"
    and "decoded co (build_wal_header co cfg op ts p prev (next_lsn prev p) r c, p) = d"
proof -
  let ?h = "build_wal_header co cfg op ts p prev (next_lsn prev p) r c"
  have l32: "length p mod 2 ^ 32 = length p" using len by (simp add: MAX_PAYLOAD_LENGTH_def)
  have "h_checksum ?h < 256 ^ 4" using co build_header_checksum [of co cfg op ts p prev "next_lsn prev p" r c]
    by (auto simp: codec_ok_def)
  moreover have "op_as_u8 op < 256" using op_as_u8_bound [of op] by simp
  moreover have "flag_byte c < 256 ^ 2" by (cases c) simp_all
  ultimately have "header_ok ?h"
    using ts lsn len l32 unfolding header_ok_def by (simp add: next_lsn_exact MAX_PAYLOAD_LENGTH_def)
  moreover note dc = decode_build [OF d, of cfg op ts p prev "next_lsn prev p" r]
  ultimately show "frame_ok co prev (?h, p)"
    using len lsn l32 build_header_checksum by (simp add: frame_ok_def next_lsn_exact)
  show "decoded co (?h, p) = d" using dc by (simp add: decoded_def)
qed

lemma compress_decodes:
  assumes "codec_ok co" "compress co cfg payload = Inr (p, c)"
  shows "decodes co c p payload" "length p \<le> length payload"
    "wc_compression cfg = NoCompression \<Longrightarrow> c = NoCompression \<and> p = payload"
proof -
  have inv: "co_zstd_encode co d = Some q \<Longrightarrow> co_zstd_decode co q = Some d" for d q
    using assms(1) by (simp add: codec_ok_def)
  show "decodes co c p payload"
    using assms(2) inv by (simp add: compress_def decodes_def split: wal_compression.splits if_splits option.splits)
  show "length p \<le> length payload"
    using assms(2) by (simp add: compress_def split: wal_compression.splits if_splits option.splits)
  show "c = NoCompression \<and> p = payload" if "wc_compression cfg = NoCompression"
    using assms(2) that by (simp add: compress_def)
qed

subsection \<open>Reading back one append\<close>

lemma chain_ok_append:
  "chain_ok co prev (fs @ gs) \<longleftrightarrow> chain_ok co prev fs \<and> chain_ok co (prev + length (batch_bytes fs)) gs"
proof (induction fs arbitrary: prev)
  case (Cons f fs)
  show ?case
  proof (cases "frame_ok co prev f")
    case True
    then have "h_lsn (fst f) = prev + (40 + length (snd f))" by (cases f) (simp add: frame_ok_def)
    with Cons show ?thesis by (simp add: length_serialize_record add.assoc)
  qed simp
qed simp

lemma absorb_frames_append:
  "absorb_frames co start off (fs @ gs) acc =
   absorb_frames co start (off + length (batch_bytes fs)) gs (absorb_frames co start off fs acc)"
  by (induction fs arbitrary: off acc) (simp_all add: length_serialize_record add.assoc)

definition reads_back :: "codec \<Rightarrow> nat \<Rightarrow> frame list \<Rightarrow> (nat \<times> timestamp \<times> byte list) list \<Rightarrow> bool" where
  "reads_back co prev fs rs \<longleftrightarrow> chain_ok co prev fs \<and>
     (\<forall>start off r. \<exists>es. absorb_frames co start off fs (fragment_new, r) = (fragment_new, fold push_entry es r) \<and>
        map entry_request es = rs)"

lemma reads_backD:
  "reads_back co prev fs rs \<Longrightarrow>
   \<exists>es. absorb_frames co start off fs (fragment_new, r) = (fragment_new, fold push_entry es r) \<and>
        map entry_request es = rs"
  by (simp add: reads_back_def)

lemma reads_backI:
  assumes "chain_ok co prev fs"
    "\<And>start off r. absorb_frames co start off fs (fragment_new, r) =
        (fragment_new, fold push_entry (es start off) r)"
    "\<And>start off. map entry_request (es start off) = rs"
  shows "reads_back co prev fs rs"
  using assms unfolding reads_back_def by blast

lemma reads_back_Nil: "reads_back co prev [] []"
  by (auto simp: reads_back_def intro: exI [of _ "[]"])

lemma reads_back_append:
  assumes "reads_back co prev fs rs" "reads_back co (prev + length (batch_bytes fs)) gs qs"
  shows "reads_back co prev (fs @ gs) (rs @ qs)"
  unfolding reads_back_def
proof (intro conjI allI)
  show "chain_ok co prev (fs @ gs)" using assms by (simp add: reads_back_def chain_ok_append)
next
  fix start off r
  obtain es where es: "absorb_frames co start off fs (fragment_new, r) = (fragment_new, fold push_entry es r)"
    "map entry_request es = rs"
    using reads_backD [OF assms(1)] by blast
  obtain fs' where fs': "absorb_frames co start (off + length (batch_bytes fs)) gs
      (fragment_new, fold push_entry es r) = (fragment_new, fold push_entry fs' (fold push_entry es r))"
    "map entry_request fs' = qs"
    using reads_backD [OF assms(2)] by blast
  show "\<exists>es. absorb_frames co start off (fs @ gs) (fragment_new, r) = (fragment_new, fold push_entry es r) \<and>
      map entry_request es = rs @ qs"
    using es fs' by (intro exI [of _ "es @ fs'"]) (simp add: absorb_frames_append)
qed

lemma reads_back_full:
  assumes "codec_ok co" "ts < 2 ^ 64" "prev + 40 + length p < 2 ^ 64" "length p \<le> MAX_PAYLOAD_LENGTH"
    "decodes co c p d"
  shows "reads_back co prev [(build_wal_header co cfg op ts p prev (next_lsn prev p) RFull c, p)]
    [(op_as_u8 op, ts, d)]"
proof -
  let ?h = "build_wal_header co cfg op ts p prev (next_lsn prev p) RFull c"
  note ok = build_frame_ok [OF assms, of cfg op RFull]
  show ?thesis
  proof (rule reads_backI)
    show "chain_ok co prev [(?h, p)]" using ok(1) by simp
    show "absorb_frames co start off [(?h, p)] (fragment_new, r) =
        (fragment_new, fold push_entry [parsed_of start off ?h d] r)" for start off r
      using ok(2) by (simp add: absorb_record_def)
    show "map entry_request [parsed_of start off ?h d] = [(op_as_u8 op, ts, d)]" for start off
      by (simp add: entry_request_def parsed_of_def)
  qed
qed

subsection \<open>Reading back fragments\<close>

lemma max_record_pos: "0 < WAL_MAX_RECORD_SIZE" "WAL_MAX_RECORD_SIZE \<le> MAX_PAYLOAD_LENGTH"
  by (simp_all add: WAL_MAX_RECORD_SIZE_def WAL_BLOCK_SIZE_def WAL_HEADER_SIZE_def MAX_PAYLOAD_LENGTH_def)

lemma div_ceil_last: "0 < a \<Longrightarrow> a \<le> m \<Longrightarrow> div_ceil a m = 1"
  by (simp add: div_ceil_def le_div_geq)

lemma div_ceil_step: "m < a \<Longrightarrow> 0 < m \<Longrightarrow> div_ceil a m = 1 + div_ceil (a - m) m"
  by (simp add: div_ceil_def le_div_geq)

lemma div_ceil_pos: "0 < a \<Longrightarrow> 0 < m \<Longrightarrow> 0 < div_ceil a m"
  by (simp add: div_ceil_def div_greater_zero_iff)

lemma chunk_frames_Cons:
  "payload \<noteq> [] \<Longrightarrow> chunk_frames co cfg op ts c n i prev payload =
     (build_wal_header co cfg op ts (take WAL_MAX_RECORD_SIZE payload) prev
        (next_lsn prev (take WAL_MAX_RECORD_SIZE payload)) (chunk_record_type n i) c,
      take WAL_MAX_RECORD_SIZE payload) #
     chunk_frames co cfg op ts c n (i + 1) (next_lsn prev (take WAL_MAX_RECORD_SIZE payload))
       (drop WAL_MAX_RECORD_SIZE payload)"
  by (subst chunk_frames.simps) (simp add: Let_def)

lemma chunk_frames_Nil [simp]: "chunk_frames co cfg op ts c n i prev [] = []"
  by (subst chunk_frames.simps) simp

lemma chunk_chain:
  "\<lbrakk> codec_ok co; ts < 2 ^ 64;
     prev + length (batch_bytes (chunk_frames co cfg op ts NoCompression n i prev payload)) < 2 ^ 64 \<rbrakk> \<Longrightarrow>
   chain_ok co prev (chunk_frames co cfg op ts NoCompression n i prev payload)"
proof (induction co cfg op ts "NoCompression" n i prev payload rule: chunk_frames.induct)
  case (1 co cfg op ts n i prev payload)
  show ?case
  proof (cases "payload = []")
    case False
    let ?p = "take WAL_MAX_RECORD_SIZE payload"
    note cf = chunk_frames_Cons [OF False, of co cfg op ts NoCompression n i prev]
    have lsn: "prev + 40 + length ?p < 2 ^ 64"
      using 1(4) unfolding cf by (simp add: length_serialize_record)
    have len: "length ?p \<le> MAX_PAYLOAD_LENGTH" using max_record_pos(2) by simp
    have "frame_ok co prev (build_wal_header co cfg op ts ?p prev (next_lsn prev ?p) (chunk_record_type n i) NoCompression, ?p)"
      by (rule build_frame_ok [OF 1(2,3) lsn len]) (simp add: decodes_def)
    moreover have "chain_ok co (next_lsn prev ?p) (chunk_frames co cfg op ts NoCompression n (i + 1)
        (next_lsn prev ?p) (drop WAL_MAX_RECORD_SIZE payload))"
      using 1(1) [OF False refl refl 1(2,3)] 1(4) unfolding cf
      by (simp add: length_serialize_record next_lsn_exact [OF lsn] add.assoc)
    ultimately show ?thesis unfolding cf by simp
  qed simp
qed

lemma decoded_build_plain:
  "decoded co (build_wal_header co cfg op ts q prev new r NoCompression, p) = p"
  using decode_build [of co NoCompression p p] by (simp add: decodes_def decoded_def)

lemma chunk_absorb:
  "\<lbrakk> payload \<noteq> []; 0 < i; n = i + div_ceil (length payload) WAL_MAX_RECORD_SIZE;
     first_header fb = Some h0; expected_next fb = Some RMiddle \<rbrakk> \<Longrightarrow>
   \<exists>loff. absorb_frames co start off (chunk_frames co cfg op ts NoCompression n i prev payload) (fb, r) =
     (fragment_new, push_entry (parsed_of start loff h0 (concat (fragments fb) @ payload)) r)"
proof (induction co cfg op ts "NoCompression" n i prev payload arbitrary: fb off rule: chunk_frames.induct)
  case (1 co cfg op ts n i prev payload)
  let ?p = "take WAL_MAX_RECORD_SIZE payload"
  note cf = chunk_frames_Cons [OF 1(2), of co cfg op ts NoCompression n i prev]
  show ?case
  proof (cases "length payload \<le> WAL_MAX_RECORD_SIZE")
    case True
    then have "chunk_record_type n i = RLast" "?p = payload" "drop WAL_MAX_RECORD_SIZE payload = []"
      using 1(2,3,4) by (simp_all add: chunk_record_type_def div_ceil_last)
    then show ?thesis
      unfolding cf using 1(5,6) by (auto simp: absorb_record_def add_fragment_def decoded_build_plain assemble_def)
  next
    case False
    let ?q = "drop WAL_MAX_RECORD_SIZE payload"
    have q: "?q \<noteq> []" using False by simp
    have n: "n = i + 1 + div_ceil (length ?q) WAL_MAX_RECORD_SIZE"
      using 1(4) False max_record_pos(1) by (simp add: div_ceil_step)
    have "chunk_record_type n i = RMiddle"
      using 1(3) n div_ceil_pos [of "length ?q" WAL_MAX_RECORD_SIZE] q max_record_pos(1)
      by (simp add: chunk_record_type_def)
    then have "absorb_record start off (build_wal_header co cfg op ts ?p prev (next_lsn prev ?p)
        (chunk_record_type n i) NoCompression) ?p (fb, r) = (fb\<lparr> fragments := fragments fb @ [?p], expected_next := Some RMiddle \<rparr>, r)"
      using 1(6) by (simp add: absorb_record_def add_fragment_def)
    moreover have "\<exists>loff. absorb_frames co start (off + 40 + length ?p)
        (chunk_frames co cfg op ts NoCompression n (i + 1) (next_lsn prev ?p) ?q)
        (fb\<lparr> fragments := fragments fb @ [?p], expected_next := Some RMiddle \<rparr>, r) =
      (fragment_new, push_entry (parsed_of start loff h0
         (concat (fragments (fb\<lparr> fragments := fragments fb @ [?p], expected_next := Some RMiddle \<rparr>)) @ ?q)) r)"
      using 1(5) by (intro 1(1) [OF 1(2) refl refl q _ n]) simp_all
    ultimately show ?thesis unfolding cf by (simp add: decoded_build_plain)
  qed
qed

lemma reads_back_chunks:
  assumes co: "codec_ok co" and ts: "ts < 2 ^ 64" and big: "length p > WAL_MAX_RECORD_SIZE"
    and fs: "fs = chunk_frames co cfg op ts NoCompression (div_ceil (length p) WAL_MAX_RECORD_SIZE) 0 prev p"
    and lsn: "prev + length (batch_bytes fs) < 2 ^ 64"
  shows "reads_back co prev fs [(op_as_u8 op, ts, p)]"
proof -
  let ?n = "div_ceil (length p) WAL_MAX_RECORD_SIZE"
  let ?c = "take WAL_MAX_RECORD_SIZE p" and ?q = "drop WAL_MAX_RECORD_SIZE p"
  let ?h = "build_wal_header co cfg op ts ?c prev (next_lsn prev ?c) (chunk_record_type ?n 0) NoCompression"
  let ?fb = "\<lparr> fragments = [?c], first_header = Some ?h, expected_next = Some RMiddle \<rparr>"
  have p: "p \<noteq> []" and q: "?q \<noteq> []" using big by auto
  have n: "?n = 1 + div_ceil (length ?q) WAL_MAX_RECORD_SIZE"
    using big max_record_pos(1) by (simp add: div_ceil_step)
  have rt: "chunk_record_type ?n 0 = RFirst"
    using n div_ceil_pos [of "length ?q" WAL_MAX_RECORD_SIZE] q max_record_pos(1)
    by (simp add: chunk_record_type_def)
  have first: "absorb_record start off ?h ?c (fragment_new, r) = (?fb, r)" for start off r
    using rt by (simp add: absorb_record_def add_fragment_def)
  have "\<exists>loff. absorb_frames co start off fs (fragment_new, r) =
      (fragment_new, fold push_entry [parsed_of start loff ?h p] r)" for start off r
    using chunk_absorb [OF q, of 1 ?n ?fb ?h co start "off + 40 + length ?c" cfg op ts "next_lsn prev ?c" r] n first
    unfolding fs chunk_frames_Cons [OF p, of co cfg op ts NoCompression ?n 0 prev] by (simp add: decoded_build_plain)
  moreover have "map entry_request [parsed_of start loff ?h p] = [(op_as_u8 op, ts, p)]" for start loff
    by (simp add: entry_request_def parsed_of_def)
  moreover have "chain_ok co prev fs"
    unfolding fs by (rule chunk_chain [OF co ts]) (use lsn in \<open>simp add: fs\<close>)
  ultimately show ?thesis unfolding reads_back_def by blast
qed

subsection \<open>Reading back a log\<close>

definition readable_request :: "wal_config \<Rightarrow> batch_entry \<Rightarrow> bool" where
  "readable_request cfg b \<longleftrightarrow> (case b of (op, ts, p) \<Rightarrow>
     ts < 2 ^ 64 \<and> (wc_compression cfg = NoCompression \<or> length p \<le> WAL_MAX_RECORD_SIZE))"

lemma frames_end_exact:
  "prev + length (batch_bytes fs) < 2 ^ 64 \<Longrightarrow> frames_end prev fs = prev + length (batch_bytes fs)"
proof (induction fs arbitrary: prev)
  case (Cons f fs)
  have "prev + 40 + length (snd f) < 2 ^ 64" using Cons.prems by (simp add: length_serialize_record)
  with Cons show ?case by (simp add: length_serialize_record next_lsn_exact add.assoc)
qed simp

lemma entry_frames_read_back:
  assumes co: "codec_ok co" and r: "readable_request cfg (op, ts, payload)"
    and c: "compress co cfg payload = Inr (p, c)" and fs: "fs = entry_frames co cfg prev op ts p c"
    and lsn: "prev + length (batch_bytes fs) < 2 ^ 64"
  shows "reads_back co prev fs [(op_as_u8 op, ts, payload)]"
proof (cases "length p > WAL_MAX_RECORD_SIZE")
  case True
  with r compress_decodes [OF co c] have "c = NoCompression" "p = payload"
    by (auto simp: readable_request_def)
  with True fs lsn reads_back_chunks [OF co _ True, of ts fs cfg op prev] r show ?thesis
    by (simp add: entry_frames_def readable_request_def)
next
  case False
  have "prev + 40 + length p < 2 ^ 64"
    using False lsn by (simp add: fs entry_frames_def length_serialize_record)
  moreover have "length p \<le> MAX_PAYLOAD_LENGTH" using False max_record_pos(2) by simp
  ultimately show ?thesis
    using False r reads_back_full [OF co, of ts prev p c payload cfg op] compress_decodes(1) [OF co c]
    by (simp add: fs entry_frames_def readable_request_def)
qed

lemma list_frames_read_back:
  "\<lbrakk> codec_ok co; list_all (readable_request cfg) es; list_frames co cfg prev es = Some fs;
     prev + length (batch_bytes fs) < 2 ^ 64 \<rbrakk> \<Longrightarrow> reads_back co prev fs (map batch_request es)"
proof (induction es arbitrary: prev fs)
  case Nil
  then show ?case by (simp add: reads_back_Nil)
next
  case (Cons e es)
  obtain op ts payload where e: "e = (op, ts, payload)" by (cases e)
  obtain p c where c: "compress co cfg payload = Inr (p, c)"
    using Cons.prems(3) e by (cases "compress co cfg payload") auto
  define gs where "gs = entry_frames co cfg prev op ts p c"
  obtain hs where hs: "list_frames co cfg (frames_end prev gs) es = Some hs" "fs = gs @ hs"
    using Cons.prems(3) c e by (auto simp: gs_def Let_def)
  have lsn: "prev + length (batch_bytes gs) < 2 ^ 64" using Cons.prems(4) hs(2) by simp
  have a: "reads_back co prev gs [(op_as_u8 op, ts, payload)]"
    using Cons.prems(1,2) e by (intro entry_frames_read_back [OF _ _ c gs_def lsn]) simp_all
  have "reads_back co (prev + length (batch_bytes gs)) hs (map batch_request es)"
    using Cons hs frames_end_exact [OF lsn] by simp
  from reads_back_append [OF a this] show ?case using e hs(2) by simp
qed

lemma fold_push_entry:
  "rr_entries (fold push_entry es r) = rr_entries r @ es"
  "rr_corrupted_count (fold push_entry es r) = rr_corrupted_count r"
  by (induction es arbitrary: r) (simp_all add: push_entry_def)

lemma parse_file_scan:
  assumes "file_header_ok fh" "file_header_is_valid fh"
  shows "parse_file co mode verify (file_header_as_bytes fh @ rest) =
    parse_wal_file_bytes co mode verify (fh_start_lsn fh) (file_header_as_bytes fh @ rest)"
proof -
  have l: "length (file_header_as_bytes fh) = 64"
    using assms(1) by (simp add: file_header_ok_def length_file_header_as_bytes)
  then have "file_header_from_bytes (take 64 (file_header_as_bytes fh @ rest)) = Some fh"
    using file_header_roundtrip [OF assms(1), of "[]"] by simp
  moreover have "file_header_as_bytes fh \<noteq> []" using l by auto
  ultimately show ?thesis
    using assms(2) l by (simp add: parse_file_def read_wal_file_def WAL_FILE_HEADER_SIZE_def)
qed

lemma parse_frames:
  assumes "file_header_ok fh" "file_header_is_valid fh" "reads_back co (fh_start_lsn fh) fs rs"
  shows "\<exists>es. map entry_request es = rs \<and>
    parse_file co mode verify (file_header_as_bytes fh @ batch_bytes fs @ rest) =
    scan_loop \<lparr> se_codec = co, se_file_start_lsn = fh_start_lsn fh, se_mode = mode, se_verify_checksum = verify \<rparr>
      (file_header_as_bytes fh @ batch_bytes fs @ rest)
      \<lparr> sc_offset = 64 + length (batch_bytes fs), sc_expected_prev = fh_start_lsn fh + length (batch_bytes fs),
         sc_fragments = fragment_new, sc_result = fold push_entry es recovery_default \<rparr>"
proof -
  let ?env = "\<lparr> se_codec = co, se_file_start_lsn = fh_start_lsn fh, se_mode = mode, se_verify_checksum = verify \<rparr>"
  have l: "length (file_header_as_bytes fh) = 64"
    using assms(1) by (simp add: file_header_ok_def length_file_header_as_bytes)
  obtain es where es: "absorb_frames co (fh_start_lsn fh) 64 fs (fragment_new, recovery_default) =
      (fragment_new, fold push_entry es recovery_default)" "map entry_request es = rs"
    using reads_backD [OF assms(3)] by blast
  have "chain_ok co (fh_start_lsn fh) fs" using assms(3) by (simp add: reads_back_def)
  with scan_loop_frames [of ?env "scan_init (fh_start_lsn fh)" fs "file_header_as_bytes fh" rest] l es
  show ?thesis
    by (intro exI [of _ es])
      (simp add: parse_file_scan [OF assms(1,2)] parse_wal_file_bytes_def scan_init_def WAL_FILE_HEADER_SIZE_def)
qed

text \<open>
  C14.  What is appended is what is read back.  After any sequence of appends on a
  fresh segment, made synchronously or staged in the buffer of an asynchronous writer and
  then drained, parsing the file the writer left (its zero-filled tail included) gives
  exactly the appended operations, timestamps and payloads in order, with no corruption
  reported, in every recovery mode.  Without compression payloads may have any length and
  travel through fragments; a compressing writer is covered for payloads of at most
  \<open>WAL_MAX_RECORD_SIZE\<close> bytes, longer ones are not read back.
\<close>

theorem log_read_back:
  assumes co: "codec_ok co" and fh: "file_header_ok fh" "file_header_is_valid fh"
    and w: "log_rep fh [] w" "w_current_lsn w = fh_start_lsn fh" "w_buffer w = None"
    and run: "append_list co ok es w = (Inr (), w') \<or>
      wc_enable_async_flush (w_config w) \<and> w_flush_state w = None \<and>
      append_list co ok es (enable_async_flush w) = (Inr (), w2) \<and> flush_buffered_to_file w2 = (Inr (), w')"
    and es: "list_all (readable_request (w_config w)) es"
    and lsn: "fh_start_lsn fh + w_file_used w' < 2 ^ 64"
  shows "\<exists>r. parse_file co mode verify (the (w_file w')) = Inr r \<and>
    map entry_request (rr_entries r) = map batch_request es \<and> rr_corrupted_count r = 0"
proof -
  obtain fs where fs: "list_frames co (w_config w) (fh_start_lsn fh) es = Some fs" "log_rep fh fs w'"
    using run append_list_ok [OF w(1,3), of co ok es w'] append_list_drained [OF w(1,3), of co ok es w2 w'] w(2) by auto
  have cont: "w_file w' = Some (file_header_as_bytes fh @ batch_bytes fs @ replicate (w_file_size w' - w_file_used w') 0)"
    "w_file_used w' = 64 + length (batch_bytes fs)" using fs(2) by (auto simp: log_rep_def)
  have "reads_back co (fh_start_lsn fh) fs (map batch_request es)"
    using lsn cont(2) by (intro list_frames_read_back [OF co es fs(1)]) simp
  from parse_frames [OF fh this, of mode verify] obtain rs where
    rs: "map entry_request rs = map batch_request es" and
    p: "parse_file co mode verify (file_header_as_bytes fh @ batch_bytes fs @ replicate (w_file_size w' - w_file_used w') 0) =
    scan_loop \<lparr> se_codec = co, se_file_start_lsn = fh_start_lsn fh, se_mode = mode, se_verify_checksum = verify \<rparr>
      (file_header_as_bytes fh @ batch_bytes fs @ replicate (w_file_size w' - w_file_used w') 0)
      \<lparr> sc_offset = 64 + length (batch_bytes fs), sc_expected_prev = fh_start_lsn fh + length (batch_bytes fs),
         sc_fragments = fragment_new, sc_result = fold push_entry rs recovery_default \<rparr>" by blast
  have "length (file_header_as_bytes fh @ batch_bytes fs) = 64 + length (batch_bytes fs)"
    using fh(1) by (simp add: file_header_ok_def length_file_header_as_bytes)
  with scan_zero_tail [of "file_header_as_bytes fh @ batch_bytes fs"] p cont(1) rs show ?thesis
    by (simp add: fold_push_entry recovery_default_def)
qed

lemma demo_codec_ok: "codec_ok demo_codec"
  by (simp add: codec_ok_def demo_codec_def)

lemma demo_file_header_ok:
  "file_header_ok (with_checksum_enabled True (file_header_new 1 2 3 0 0 0))"
  "file_header_is_valid (with_checksum_enabled True (file_header_new 1 2 3 0 0 0))"
  "fh_start_lsn (with_checksum_enabled True (file_header_new 1 2 3 0 0 0)) = 0"
  by (simp_all add: file_header_ok_def file_header_is_valid_def with_checksum_enabled_def file_header_new_def
      WAL_MAGIC_def WAL_VERSION_def)

theorem log_read_back_witness:
  "\<exists>w' r. append_list demo_codec True [(OpCompact, 5, [1, 2])] (demo_writer False) = (Inr (), w') \<and>
     parse_file demo_codec AbortOnCorruption True (the (w_file w')) = Inr r \<and>
     map entry_request (rr_entries r) = [(18, 5, [1, 2])] \<and> rr_corrupted_count r = 0"
proof -
  let ?w = "demo_writer False"
  note d = demo_writer_rep [of False] and h = demo_file_header_ok
  have f: "w_file ?w \<noteq> None" using d(1) by (auto simp: log_rep_def)
  have c: "wc_compression (demo_wal_config False) = NoCompression" by (simp add: demo_wal_config_def)
  obtain w' where w': "append_list demo_codec True [(OpCompact, 5, [1, 2])] ?w = (Inr (), w')"
    using append_small_succeeds [of ?w "[1, 2]" demo_codec OpCompact 5] f d c
    by (auto simp: WAL_MAX_RECORD_SIZE_def WAL_BLOCK_SIZE_def WAL_HEADER_SIZE_def)
  have es: "list_all (readable_request (w_config ?w)) [(OpCompact, 5, [1, 2])]"
    using c d(4) by (simp add: readable_request_def)
  obtain fs where "list_frames demo_codec (demo_wal_config False) 0 [(OpCompact, 5, [1, 2])] = Some fs"
    "log_rep (with_checksum_enabled True (file_header_new 1 2 3 0 0 0)) fs w'"
    using append_list_ok [OF d(1,2) w'] d(4,7) by auto
  then have "w_file_used w' = 106"
    using c by (auto simp: compress_def entry_frames_def WAL_MAX_RECORD_SIZE_def WAL_BLOCK_SIZE_def
        WAL_HEADER_SIZE_def Let_def log_rep_def length_serialize_record)
  then have lsn: "fh_start_lsn (with_checksum_enabled True (file_header_new 1 2 3 0 0 0)) + w_file_used w' < 2 ^ 64"
    using h(3) by simp
  from log_read_back [OF demo_codec_ok h(1,2) d(1) _ d(2) disjI1 [OF w'] es lsn, of AbortOnCorruption True] d(7) h(3) w'
  show ?thesis by auto
qed

subsection \<open>Batches, and logs cut at any byte\<close>

definition readable_batch :: "batch_entry \<Rightarrow> bool" where
  "readable_batch b \<longleftrightarrow> (case b of (op, ts, p) \<Rightarrow> ts < 2 ^ 64 \<and> length p \<le> MAX_PAYLOAD_LENGTH)"

lemma build_batch_read_back:
  "\<lbrakk> codec_ok co; list_all readable_batch es; build_batch co cfg prev es = Inr fs;
     prev + length (batch_bytes fs) < 2 ^ 64 \<rbrakk> \<Longrightarrow>
   length fs = length es \<and> (\<forall>j. reads_back co prev (take j fs) (map batch_request (take j es)))"
proof (induction es arbitrary: prev fs)
  case Nil
  then show ?case by (simp add: reads_back_Nil)
next
  case (Cons e es)
  obtain op ts payload where e: "e = (op, ts, payload)" by (cases e)
  obtain p c where c: "compress co cfg payload = Inr (p, c)"
    using Cons.prems(3) e by (cases "compress co cfg payload") auto
  define h where "h = build_wal_header co cfg op ts p prev (next_lsn prev p) RFull c"
  obtain gs where gs: "build_batch co cfg (next_lsn prev p) es = Inr gs" "fs = (h, p) # gs"
    using Cons.prems(3) c e by (cases "build_batch co cfg (next_lsn prev p) es") (auto simp: h_def Let_def)
  have lsn: "prev + 40 + length p < 2 ^ 64" using Cons.prems(4) gs(2) by (simp add: length_serialize_record)
  have len: "length p \<le> MAX_PAYLOAD_LENGTH" "ts < 2 ^ 64"
    using Cons.prems(2) e compress_decodes(2) [OF Cons.prems(1) c] by (simp_all add: readable_batch_def)
  have a: "reads_back co prev [(h, p)] [(op_as_u8 op, ts, payload)]"
    unfolding h_def by (rule reads_back_full [OF Cons.prems(1) len(2) lsn len(1) compress_decodes(1) [OF Cons.prems(1) c]])
  have ih: "length gs = length es \<and> (\<forall>j. reads_back co (next_lsn prev p) (take j gs) (map batch_request (take j es)))"
    using Cons.prems gs next_lsn_exact [OF lsn] by (intro Cons.IH) (simp_all add: length_serialize_record)
  have "reads_back co prev (take j fs) (map batch_request (take j (e # es)))" for j
  proof (cases j)
    case 0
    then show ?thesis by (simp add: reads_back_Nil)
  next
    case (Suc k)
    have "reads_back co (prev + length (batch_bytes [(h, p)])) (take k gs) (map batch_request (take k es))"
      using ih next_lsn_exact [OF lsn] by (simp add: length_serialize_record add.assoc)
    from reads_back_append [OF a this] show ?thesis using Suc gs(2) e by simp
  qed
  with ih gs(2) show ?case by simp
qed

lemma cut_frames:
  "\<exists>j t. j \<le> length fs \<and> take n (batch_bytes fs) = batch_bytes (take j fs) @ t \<and>
     (\<forall>m \<le> length fs. length (batch_bytes (take m fs)) \<le> n \<longrightarrow> m \<le> j) \<and>
     (t = [] \<or> j < length fs \<and> (\<exists>m. m < 40 + length (snd (fs ! j)) \<and>
        t = take m (serialize_record (fst (fs ! j)) (snd (fs ! j)))))"
proof (induction fs arbitrary: n)
  case Nil
  then show ?case by simp
next
  case (Cons f fs)
  let ?l = "40 + length (snd f)"
  have len: "length (batch_bytes (take m (f # fs))) =
      (case m of 0 \<Rightarrow> 0 | Suc k \<Rightarrow> ?l + length (batch_bytes (take k fs)))" for m
    by (cases m) (simp_all add: length_serialize_record)
  show ?case
  proof (cases "n < ?l")
    case True
    have "take n (batch_bytes (f # fs)) = take n (serialize_record (fst f) (snd f))"
      using True by (simp add: length_serialize_record)
    moreover have "\<forall>m \<le> length (f # fs). length (batch_bytes (take m (f # fs))) \<le> n \<longrightarrow> m \<le> 0"
      using True by (simp only: len) (auto split: nat.splits)
    ultimately show ?thesis
      using True by (intro exI [of _ 0] exI [of _ "take n (serialize_record (fst f) (snd f))"]) auto
  next
    case False
    obtain j t where j: "j \<le> length fs" "take (n - ?l) (batch_bytes fs) = batch_bytes (take j fs) @ t"
      "\<forall>m \<le> length fs. length (batch_bytes (take m fs)) \<le> n - ?l \<longrightarrow> m \<le> j"
      "t = [] \<or> j < length fs \<and> (\<exists>m. m < 40 + length (snd (fs ! j)) \<and>
        t = take m (serialize_record (fst (fs ! j)) (snd (fs ! j))))"
      using Cons.IH [of "n - ?l"] by blast
    have "take n (batch_bytes (f # fs)) = batch_bytes (take (Suc j) (f # fs)) @ t"
      using False j(2) by (simp add: length_serialize_record)
    moreover have "\<forall>m \<le> length (f # fs). length (batch_bytes (take m (f # fs))) \<le> n \<longrightarrow> m \<le> Suc j"
    proof (intro allI impI)
      fix m assume "m \<le> length (f # fs)" "length (batch_bytes (take m (f # fs))) \<le> n"
      then show "m \<le> Suc j" using j(3) False by (cases m) (auto simp: length_serialize_record)
    qed
    ultimately show ?thesis
      using j by (intro exI [of _ "Suc j"] exI [of _ t]) auto
  qed
qed

lemma log_rep_current_lsn [simp]: "log_rep fh fs (w\<lparr> w_current_lsn := l \<rparr>) = log_rep fh fs w"
  by (simp add: log_rep_def)

lemma write_batch_ok:
  assumes "log_rep fh fs w" "write_batch_entries co es w = (Inr l, w')"
  shows "\<exists>gs. build_batch co (w_config w) (w_current_lsn w) es = Inr gs \<and> log_rep fh (fs @ gs) w' \<and>
    w_current_lsn w' = (w_current_lsn w + length (batch_bytes gs)) mod 2 ^ 64 \<and>
    w_config w' = w_config w \<and> w_poisoned w' = w_poisoned w"
proof -
  obtain gs where gs: "build_batch co (w_config w) (w_current_lsn w) es = Inr gs"
    using assms(2) by (auto simp: write_batch_entries_def split: sum.splits)
  have f: "w_file w \<noteq> None" using assms(1) by (auto simp: log_rep_def)
  define w1 where "w1 = grow_file (w_file_used w + length (batch_bytes gs)) w"
  have k: "w_config w1 = w_config w" "w_poisoned w1 = w_poisoned w"
    by (simp_all add: w1_def grow_file_def Let_def)
  have "w' = w1\<lparr> w_file := map_option (file_write (w_file_used w) (batch_bytes gs)) (w_file w1),
      w_file_used := w_file_used w + length (batch_bytes gs),
      w_current_lsn := (w_current_lsn w + length (batch_bytes gs)) mod 2 ^ 64 \<rparr>"
    using assms(2) gs f by (auto simp: write_batch_entries_def Let_def w1_def)
  with log_rep_write [OF assms(1) refl w1_def] gs k show ?thesis by simp
qed

lemma frames_end_mod:
  "prev < 2 ^ 64 \<Longrightarrow> frames_end prev fs = (prev + length (batch_bytes fs)) mod 2 ^ 64"
proof (induction fs arbitrary: prev)
  case (Cons f fs)
  have "next_lsn prev (snd f) < 2 ^ 64" by (simp add: next_lsn_def)
  with Cons.IH show ?case
    by (simp add: next_lsn_def WAL_HEADER_SIZE_def length_serialize_record mod_add_left_eq add.assoc)
qed simp

lemma build_batch_append:
  "\<lbrakk> build_batch co cfg prev es = Inr fs; build_batch co cfg (frames_end prev fs) es' = Inr gs \<rbrakk> \<Longrightarrow>
   build_batch co cfg prev (es @ es') = Inr (fs @ gs)"
proof (induction es arbitrary: prev fs)
  case (Cons e es)
  obtain op ts payload where e: "e = (op, ts, payload)" by (cases e)
  show ?case
    using Cons e by (auto simp: Let_def split: sum.splits)
qed simp

text \<open>
  A log of batches cut at any byte: the records read back are a prefix of those
  written, and the prefix contains every record that lies wholly before the cut.
\<close>

lemma cut_log_reads_prefix:
  assumes co: "codec_ok co" and fh: "file_header_ok fh" "file_header_is_valid fh"
    and es: "list_all readable_batch es" and fs: "build_batch co cfg (fh_start_lsn fh) es = Inr fs"
    and lsn: "fh_start_lsn fh + length (batch_bytes fs) < 2 ^ 64"
  shows "\<exists>r j. parse_file co mode verify (file_header_as_bytes fh @ take n (batch_bytes fs)) = Inr r \<and>
    map entry_request (rr_entries r) = map batch_request (take j es) \<and> j \<le> length es \<and>
    length (batch_bytes (take j fs)) \<le> n \<and>
    (\<forall>m \<le> length es. length (batch_bytes (take m fs)) \<le> n \<longrightarrow> m \<le> j)"
proof -
  have rb: "length fs = length es" "\<And>j. reads_back co (fh_start_lsn fh) (take j fs) (map batch_request (take j es))"
    using build_batch_read_back [OF co es fs lsn] by auto
  obtain j t where j: "j \<le> length fs" "take n (batch_bytes fs) = batch_bytes (take j fs) @ t"
    "\<forall>m \<le> length fs. length (batch_bytes (take m fs)) \<le> n \<longrightarrow> m \<le> j"
    "t = [] \<or> j < length fs \<and> (\<exists>m. m < 40 + length (snd (fs ! j)) \<and>
        t = take m (serialize_record (fst (fs ! j)) (snd (fs ! j))))"
    using cut_frames [of fs n] by blast
  let ?env = "\<lparr> se_codec = co, se_file_start_lsn = fh_start_lsn fh, se_mode = mode, se_verify_checksum = verify \<rparr>"
  let ?a = "file_header_as_bytes fh @ batch_bytes (take j fs)"
  obtain rs where rs: "map entry_request rs = map batch_request (take j es)" and
    p: "parse_file co mode verify (?a @ t) = scan_loop ?env (?a @ t)
      \<lparr> sc_offset = 64 + length (batch_bytes (take j fs)),
         sc_expected_prev = fh_start_lsn fh + length (batch_bytes (take j fs)),
         sc_fragments = fragment_new, sc_result = fold push_entry rs recovery_default \<rparr>" (is "_ = scan_loop _ _ ?s")
    using parse_frames [OF fh rb(2) [of j], of mode verify t] by auto
  have la: "length ?a = sc_offset ?s"
    using fh(1) by (simp add: file_header_ok_def length_file_header_as_bytes)
  have "\<exists>r. scan_loop ?env (?a @ t) ?s = Inr r \<and> rr_entries r = rs"
  proof (cases "length t < 40")
    case True
    then have "length (?a @ t) < sc_offset ?s + 40" using la by simp
    from scan_short_tail [OF this] show ?thesis by (simp add: fold_push_entry recovery_default_def)
  next
    case False
    obtain h q where hq: "fs ! j = (h, q)" by (cases "fs ! j")
    obtain m where m: "m < 40 + length q" "t = take m (serialize_record h q)" "j < length fs"
      using j(4) False hq by auto
    have "chain_ok co (fh_start_lsn fh) (take (Suc j) fs)" using rb(2) [of "Suc j"] by (simp add: reads_back_def)
    then have ok: "frame_ok (se_codec ?env) (sc_expected_prev ?s) (h, q)"
      using m(3) hq by (simp add: take_Suc_conv_app_nth chain_ok_append)
    have "40 \<le> m" using False m by simp
    from scan_torn_tail [OF ok la this m(1)] m(2) show ?thesis
      by (simp add: count_corrupted_def fold_push_entry recovery_default_def)
  qed
  moreover have "length (batch_bytes (take j fs)) \<le> n" using arg_cong [OF j(2), of length] by simp
  ultimately show ?thesis using p rs j(1-3) rb(1) by auto
qed

end
