(* ===== verification/WalRecovery.thy ===== *)
theory WalRecovery
  imports WalLog
begin

text \<open>
  Transactions in the log and their recovery: the batch of a committed transaction
  (\<open>writer/local/record.rs\<close>, \<open>wal/commit.rs\<close>), the collection of committed
  transactions from parsed entries, the dry replay that cuts an uncommitted tail
  (\<open>wal/dry_replay.rs\<close>) and the replay of what is left
  (\<open>wal/recovery/*.rs\<close>).  The postcard codec of intents and markers and the
  storage that replays an operation are arguments.
\<close>

subsection \<open>Transaction batches\<close>

record wal_serde =
  sd_enc_intent :: "outbox_intent \<Rightarrow> byte list option"
  sd_dec_intent :: "byte list \<Rightarrow> outbox_intent option"
  sd_enc_commit :: "transaction_commit \<Rightarrow> byte list option"
  sd_dec_commit :: "byte list \<Rightarrow> transaction_commit option"
  sd_dec_abort :: "byte list \<Rightarrow> transaction_abort option"

definition checksum_entry :: "wal_op_type \<Rightarrow> timestamp \<Rightarrow> byte list \<Rightarrow> byte list" where
  "checksum_entry op ts payload =
     [of_nat (op_as_u8 op)] @ le_enc 8 ts @ le_enc 8 (length payload) @ payload"

definition batch_checksum :: "(byte list \<Rightarrow> nat) \<Rightarrow> wal_entry list \<Rightarrow> nat" where
  "batch_checksum crc es =
     crc (concat (map (\<lambda>e. checksum_entry (we_op e) (we_timestamp e) (we_payload e)) es))"

fun parsed_checksum_input :: "parsed_entry list \<Rightarrow> (wal_error, byte list) result" where
  "parsed_checksum_input [] = Inr []"
| "parsed_checksum_input (e # es) = (case op_try_from (h_op_type (pe_header e)) of
      Inl err \<Rightarrow> Inl err
    | Inr op \<Rightarrow> (case parsed_checksum_input es of
        Inl err \<Rightarrow> Inl err
      | Inr bs \<Rightarrow> Inr (checksum_entry op (h_timestamp (pe_header e)) (pe_payload e) @ bs)))"

definition parsed_batch_checksum :: "(byte list \<Rightarrow> nat) \<Rightarrow> parsed_entry list \<Rightarrow> (wal_error, nat) result" where
  "parsed_batch_checksum crc es = (case parsed_checksum_input es of Inl e \<Rightarrow> Inl e | Inr bs \<Rightarrow> Inr (crc bs))"

fun push_intents ::
  "wal_serde \<Rightarrow> txn_id \<Rightarrow> nat \<Rightarrow> outbox_intent list \<Rightarrow> wal_entry list \<Rightarrow> (wal_error, wal_entry list) result" where
  "push_intents sd tx expected [] es = Inr es"
| "push_intents sd tx expected (i # is) es = (case intent_validate i of
      Inl _ \<Rightarrow> Inl InvalidOperation
    | Inr _ \<Rightarrow>
        if oi_transaction_id i \<noteq> tx then Inl InvalidOperation
        else if intent_sequence i \<noteq> expected then Inl InvalidOperation
        else case sd_enc_intent sd i of
          None \<Rightarrow> Inl WalSerializationError
        | Some p \<Rightarrow> push_intents sd tx (expected + 1) is
            (es @ [\<lparr> we_op = OpOutboxIntent, we_timestamp = 0, we_payload = p,
                     we_transaction_id = Some tx, we_mutation_sequence = None \<rparr>]))"

definition first_sequence_of :: "wal_entry list \<Rightarrow> nat" where
  "first_sequence_of es = (case List.map_filter we_mutation_sequence es of
      [] \<Rightarrow> 0 | s # ss \<Rightarrow> fold min ss s)"

definition build_transaction_entries ::
  "(byte list \<Rightarrow> nat) \<Rightarrow> wal_serde \<Rightarrow> txn_id \<Rightarrow> wal_entry list \<Rightarrow> outbox_intent list \<Rightarrow> wal_writer
   \<Rightarrow> (wal_error, wal_entry list) result" where
  "build_transaction_entries crc sd tx entries intents w = (case check_poisoned w of
      Inl e \<Rightarrow> Inl e
    | Inr _ \<Rightarrow> (case push_intents sd tx 0 intents entries of
        Inl e \<Rightarrow> Inl e
      | Inr es \<Rightarrow>
          if length intents \<ge> 2 ^ 32 then Inl InvalidOperation
          else let commit = \<lparr> tc_wire_version = WAL_SYNC_WIRE_VERSION, tc_transaction_id = tx,
                              intent_count = length intents, tc_batch_checksum = batch_checksum crc es,
                              first_sequence = first_sequence_of entries,
                              entry_count = length entries mod 2 ^ 32 \<rparr>
            in case sd_enc_commit sd commit of
                 None \<Rightarrow> Inl WalSerializationError
               | Some p \<Rightarrow> Inr (es @ [\<lparr> we_op = OpTransactionCommit, we_timestamp = 0, we_payload = p,
                                      we_transaction_id = Some tx, we_mutation_sequence = None \<rparr>])))"

definition to_batch :: "wal_entry list \<Rightarrow> batch_entry list" where
  "to_batch es = map (\<lambda>e. (we_op e, we_timestamp e, we_payload e)) es"

definition append_transaction_batch_no_wait ::
  "codec \<Rightarrow> wal_serde \<Rightarrow> txn_id \<Rightarrow> wal_entry list \<Rightarrow> outbox_intent list \<Rightarrow> wal_writer \<Rightarrow> nat wal_op" where
  "append_transaction_batch_no_wait co sd tx entries intents w =
     (case build_transaction_entries (co_crc co) sd tx entries intents w of
        Inl e \<Rightarrow> (Inl e, w)
      | Inr es \<Rightarrow> (case write_batch_entries co (to_batch es) w of
          (Inl e, w1) \<Rightarrow> (Inl e, w1)
        | (Inr _, w1) \<Rightarrow> (Inr (w_current_lsn w1), w1)))"

definition append_transaction_batch_with_durability ::
  "codec \<Rightarrow> wal_serde \<Rightarrow> bool \<Rightarrow> bool \<Rightarrow> txn_id \<Rightarrow> wal_entry list \<Rightarrow> outbox_intent list \<Rightarrow> wal_writer \<Rightarrow> nat wal_op" where
  "append_transaction_batch_with_durability co sd fsync_ok sync tx entries intents w =
     (case build_transaction_entries (co_crc co) sd tx entries intents w of
        Inl e \<Rightarrow> (Inl e, w)
      | Inr es \<Rightarrow> (case append_batch_with_durability co fsync_ok (to_batch es) sync w of
          (Inl e, w1) \<Rightarrow> (Inl e, w1)
        | (Inr _, w1) \<Rightarrow> (Inr (w_current_lsn w1), w1)))"

subsection \<open>Committed transactions\<close>

record committed_txn =
  ct_transaction_id :: txn_id
  ct_commit_lsn :: nat
  ct_redo_entries :: "parsed_entry list"
  ct_intents :: "outbox_intent list"

fun split_batch ::
  "wal_serde \<Rightarrow> txn_id \<Rightarrow> parsed_entry list \<Rightarrow> (wal_error, parsed_entry list \<times> outbox_intent list) result" where
  "split_batch sd tx [] = Inr ([], [])"
| "split_batch sd tx (e # es) = (case op_try_from (h_op_type (pe_header e)) of
      Inl err \<Rightarrow> Inl err
    | Inr op \<Rightarrow>
        if op = OpOutboxIntent then
          (case sd_dec_intent sd (pe_payload e) of
             None \<Rightarrow> Inl WalSerializationError
           | Some i \<Rightarrow> (case intent_validate i of
               Inl _ \<Rightarrow> Inl InvalidOperation
             | Inr _ \<Rightarrow> if oi_transaction_id i \<noteq> tx then Inl InvalidOperation
                 else bind_result (split_batch sd tx es) (\<lambda>(rs, is). Inr (rs, i # is))))
        else bind_result (split_batch sd tx es) (\<lambda>(rs, is). Inr (e # rs, is)))"

definition contiguous :: "outbox_intent list \<Rightarrow> bool" where
  "contiguous is \<longleftrightarrow> map intent_sequence is = [0..<length is]"

definition close_batch ::
  "(byte list \<Rightarrow> nat) \<Rightarrow> wal_serde \<Rightarrow> parsed_entry \<Rightarrow> parsed_entry list \<Rightarrow> (wal_error, committed_txn) result" where
  "close_batch crc sd e pending = (case sd_dec_commit sd (pe_payload e) of
      None \<Rightarrow> Inl WalSerializationError
    | Some c \<Rightarrow> (case commit_validate c of
        Inl _ \<Rightarrow> Inl InvalidOperation
      | Inr _ \<Rightarrow>
          let actual = (case parsed_batch_checksum crc pending of Inr n \<Rightarrow> n | Inl _ \<Rightarrow> 0)
          in if actual \<noteq> tc_batch_checksum c then Inl (WalChecksumMismatch (tc_batch_checksum c) actual)
             else (case split_batch sd (tc_transaction_id c) pending of
                 Inl err \<Rightarrow> Inl err
               | Inr (redo, is0) \<Rightarrow>
                   let is = sort_key intent_sequence is0
                   in if length is \<noteq> intent_count c then Inl InvalidOperation
                      else if \<not> contiguous is then Inl InvalidOperation
                      else if length redo mod 2 ^ 32 \<noteq> entry_count c then Inl InvalidOperation
                      else Inr \<lparr> ct_transaction_id = tc_transaction_id c, ct_commit_lsn = pe_lsn e,
                                 ct_redo_entries = redo, ct_intents = is \<rparr>)))"

fun collect_loop ::
  "(byte list \<Rightarrow> nat) \<Rightarrow> wal_serde \<Rightarrow> parsed_entry list \<Rightarrow> parsed_entry list \<Rightarrow> committed_txn list
   \<Rightarrow> (wal_error, committed_txn list) result" where
  "collect_loop crc sd [] pending done = Inr done"
| "collect_loop crc sd (e # es) pending done = (case op_try_from (h_op_type (pe_header e)) of
      Inl err \<Rightarrow> Inl err
    | Inr op \<Rightarrow>
        if op = OpTransactionAbort then
          (case sd_dec_abort sd (pe_payload e) of
             None \<Rightarrow> Inl WalSerializationError
           | Some a \<Rightarrow> (case abort_validate a of
               Inl _ \<Rightarrow> Inl InvalidOperation
             | Inr _ \<Rightarrow> collect_loop crc sd es [] done))
        else if op = OpTransactionCommit then
          (case close_batch crc sd e pending of
             Inl err \<Rightarrow> Inl err
           | Inr c \<Rightarrow> collect_loop crc sd es [] (done @ [c]))
        else collect_loop crc sd es (pending @ [e]) done)"

definition collect_committed_transactions ::
  "(byte list \<Rightarrow> nat) \<Rightarrow> wal_serde \<Rightarrow> parsed_entry list \<Rightarrow> (wal_error, committed_txn list) result" where
  "collect_committed_transactions crc sd es = collect_loop crc sd es [] []"

subsection \<open>Dry replay\<close>

record dry_replay_result =
  dr_entries :: "parsed_entry list"
  dr_last_lsn :: nat
  dr_last_timestamp :: timestamp
  dr_last_is_checkpoint :: bool
  dr_truncated_tail :: nat
  dr_corrupted_count :: nat
  dr_total_scanned :: nat
  dr_sequence_gaps :: nat

definition dry_default :: dry_replay_result where
  "dry_default = \<lparr> dr_entries = [], dr_last_lsn = 0, dr_last_timestamp = 0, dr_last_is_checkpoint = False,
     dr_truncated_tail = 0, dr_corrupted_count = 0, dr_total_scanned = 0, dr_sequence_gaps = 0 \<rparr>"

definition entry_op_is :: "wal_op_type \<Rightarrow> parsed_entry \<Rightarrow> bool" where
  "entry_op_is op e \<longleftrightarrow> op_try_from (h_op_type (pe_header e)) = Inr op"

definition is_envelope :: "parsed_entry \<Rightarrow> bool" where
  "is_envelope e \<longleftrightarrow> entry_op_is OpOutboxIntent e \<or> entry_op_is OpTransactionCommit e \<or>
     entry_op_is OpTransactionAbort e"

definition has_sync_envelope :: "parsed_entry list \<Rightarrow> bool" where
  "has_sync_envelope es \<longleftrightarrow> list_ex is_envelope es"

definition last_is_compact :: "parsed_entry list \<Rightarrow> bool" where
  "last_is_compact es \<longleftrightarrow> es \<noteq> [] \<and> entry_op_is OpCompact (last es)"

fun rposition :: "('a \<Rightarrow> bool) \<Rightarrow> 'a list \<Rightarrow> nat option" where
  "rposition P [] = None"
| "rposition P (x # xs) = (case rposition P xs of
      Some i \<Rightarrow> Some (i + 1) | None \<Rightarrow> if P x then Some 0 else None)"

fun position :: "('a \<Rightarrow> bool) \<Rightarrow> 'a list \<Rightarrow> nat option" where
  "position P [] = None"
| "position P (x # xs) = (if P x then Some 0 else map_option Suc (position P xs))"

definition scan_for_last_commit_fallback :: "recovery_result \<Rightarrow> dry_replay_result" where
  "scan_for_last_commit_fallback r = (let es = rr_entries r; n = length es in
     case rposition (entry_op_is OpTransactionCommit) es of
       Some pos \<Rightarrow> \<lparr> dr_entries = take (pos + 1) es, dr_last_lsn = pe_lsn (es ! pos),
           dr_last_timestamp = h_timestamp (pe_header (es ! pos)),
           dr_last_is_checkpoint = last_is_compact (take (pos + 1) es), dr_truncated_tail = n - (pos + 1),
           dr_corrupted_count = rr_corrupted_count r, dr_total_scanned = n,
           dr_sequence_gaps = (if n - (pos + 1) > 0 then 1 else 0) \<rparr>
     | None \<Rightarrow> dry_default\<lparr> dr_truncated_tail := n, dr_corrupted_count := rr_corrupted_count r,
           dr_total_scanned := n, dr_sequence_gaps := (if n > 0 then 1 else 0) \<rparr>)"

definition find_last_consistent_commit ::
  "(byte list \<Rightarrow> nat) \<Rightarrow> wal_serde \<Rightarrow> bool \<Rightarrow> recovery_result \<Rightarrow> dry_replay_result" where
  "find_last_consistent_commit crc sd throw r = (let es = rr_entries r; n = length es; bad = rr_corrupted_count r in
     if es = [] then dry_default\<lparr> dr_corrupted_count := bad \<rparr>
     else if throw \<and> bad > 0 then dry_default\<lparr> dr_total_scanned := n, dr_corrupted_count := bad \<rparr>
     else if \<not> has_sync_envelope es then
       \<lparr> dr_entries = es, dr_last_lsn = rr_last_lsn r, dr_last_timestamp = rr_last_timestamp r,
         dr_last_is_checkpoint = last_is_compact es, dr_truncated_tail = 0, dr_corrupted_count = bad,
         dr_total_scanned = n, dr_sequence_gaps = 0 \<rparr>
     else case collect_committed_transactions crc sd es of
       Inl _ \<Rightarrow> scan_for_last_commit_fallback r
     | Inr committed \<Rightarrow>
         if committed = [] then
           (if \<not> throw \<and> \<not> list_ex (entry_op_is OpTransactionCommit) es
            then dry_default\<lparr> dr_truncated_tail := n, dr_corrupted_count := bad, dr_total_scanned := n,
                   dr_sequence_gaps := 1 \<rparr>
            else scan_for_last_commit_fallback r)
         else let lsn = ct_commit_lsn (last committed);
                  cut = (case position (\<lambda>e. pe_lsn e = lsn) es of Some p \<Rightarrow> p + 1 | None \<Rightarrow> n);
                  kept = take cut es
           in \<lparr> dr_entries = kept, dr_last_lsn = lsn,
                dr_last_timestamp = (case ct_redo_entries (last committed) of
                    e # _ \<Rightarrow> h_timestamp (pe_header e) | [] \<Rightarrow> 0),
                dr_last_is_checkpoint = last_is_compact kept, dr_truncated_tail = n - cut,
                dr_corrupted_count = bad, dr_total_scanned = n,
                dr_sequence_gaps = (if n - cut > 0 then 1 else 0) \<rparr>)"

subsection \<open>Recovery\<close>

record recovery_config =
  rc_mode :: wal_recovery_mode
  rc_verify_checksum :: bool
  rc_start_lsn :: "nat option"
  rc_throw :: bool

record recovery_stats =
  rs_replayed :: nat
  rs_errors :: nat
  rs_last_lsn :: nat
  rs_max_timestamp :: timestamp
  rs_max_transaction_id :: nat

datatype recovery_error = RecoveryWal wal_error | ReplayFailed

type_synonym 'g replay_op = "wal_op_type \<Rightarrow> byte list \<Rightarrow> timestamp \<Rightarrow> 'g \<Rightarrow> (recovery_error, unit) result \<times> 'g"

definition apply_dry_replay_filter ::
  "(byte list \<Rightarrow> nat) \<Rightarrow> wal_serde \<Rightarrow> recovery_config \<Rightarrow> recovery_result \<Rightarrow> recovery_result" where
  "apply_dry_replay_filter crc sd cfg r = (if rc_throw cfg then r
     else let d = find_last_consistent_commit crc sd (rc_throw cfg) r
       in \<lparr> rr_entries = dr_entries d, rr_last_timestamp = dr_last_timestamp d, rr_last_lsn = dr_last_lsn d,
            rr_corrupted_count = dr_corrupted_count d, rr_skipped_count = dr_truncated_tail d \<rparr>)"

definition entry_transaction_id :: "wal_serde \<Rightarrow> parsed_entry \<Rightarrow> nat option" where
  "entry_transaction_id sd e = (case op_try_from (h_op_type (pe_header e)) of
      Inl _ \<Rightarrow> None
    | Inr op \<Rightarrow> if op = OpOutboxIntent then map_option oi_transaction_id (sd_dec_intent sd (pe_payload e))
        else if op = OpTransactionCommit then map_option tc_transaction_id (sd_dec_commit sd (pe_payload e))
        else if op = OpTransactionAbort then map_option ta_transaction_id (sd_dec_abort sd (pe_payload e))
        else None)"

definition max_transaction_id :: "wal_serde \<Rightarrow> recovery_result \<Rightarrow> nat" where
  "max_transaction_id sd r = fold max (List.map_filter (entry_transaction_id sd) (rr_entries r)) 0"

fun replay_parsed_entries ::
  "recovery_config \<Rightarrow> 'g replay_op \<Rightarrow> parsed_entry list \<Rightarrow> recovery_stats \<Rightarrow> 'g
   \<Rightarrow> (recovery_error, unit) result \<times> recovery_stats \<times> 'g" where
  "replay_parsed_entries cfg apply_op [] st g = (Inr (), st, g)"
| "replay_parsed_entries cfg apply_op (e # es) st g =
     (if (case rc_start_lsn cfg of Some l \<Rightarrow> pe_lsn e \<le> l | None \<Rightarrow> False)
      then replay_parsed_entries cfg apply_op es st g
      else case op_try_from (h_op_type (pe_header e)) of
        Inl err \<Rightarrow> (Inl (RecoveryWal err), st\<lparr> rs_errors := rs_errors st + 1 \<rparr>, g)
      | Inr op \<Rightarrow>
          let st1 = st\<lparr> rs_max_timestamp := max (rs_max_timestamp st) (h_timestamp (pe_header e)) \<rparr> in
          if op \<in> {OpOutboxIntent, OpTransactionCommit, OpTransactionAbort}
          then replay_parsed_entries cfg apply_op es st1 g
          else case apply_op op (pe_payload e) (h_timestamp (pe_header e)) g of
            (Inl err, g1) \<Rightarrow> (Inl err, st1, g1)
          | (Inr _, g1) \<Rightarrow> replay_parsed_entries cfg apply_op es
              (st1\<lparr> rs_replayed := rs_replayed st1 + 1,
                    rs_last_lsn := (if op = OpCompact then rs_last_lsn st1 else pe_lsn e) \<rparr>) g1)"

fun replay_transactions ::
  "recovery_config \<Rightarrow> 'g replay_op \<Rightarrow> committed_txn list \<Rightarrow> recovery_stats \<Rightarrow> 'g
   \<Rightarrow> (recovery_error, unit) result \<times> recovery_stats \<times> 'g" where
  "replay_transactions cfg apply_op [] st g = (Inr (), st, g)"
| "replay_transactions cfg apply_op (c # cs) st g =
     (case replay_parsed_entries cfg apply_op (ct_redo_entries c) st g of
        (Inl e, st1, g1) \<Rightarrow> (Inl e, st1, g1)
      | (Inr _, st1, g1) \<Rightarrow> replay_transactions cfg apply_op cs (st1\<lparr> rs_last_lsn := ct_commit_lsn c \<rparr>) g1)"

definition replay_wal_entries ::
  "(byte list \<Rightarrow> nat) \<Rightarrow> wal_serde \<Rightarrow> recovery_config \<Rightarrow> 'g replay_op \<Rightarrow> recovery_result \<Rightarrow> recovery_stats \<Rightarrow> 'g
   \<Rightarrow> (recovery_error, unit) result \<times> recovery_stats \<times> 'g" where
  "replay_wal_entries crc sd cfg apply_op r st g =
     (if \<not> has_sync_envelope (rr_entries r) then
        (case replay_parsed_entries cfg apply_op (rr_entries r) st g of
           (Inl e, st1, g1) \<Rightarrow> (Inl e, st1, g1)
         | (Inr _, st1, g1) \<Rightarrow> (Inr (), st1\<lparr> rs_last_lsn := rr_last_lsn r \<rparr>, g1))
      else case collect_committed_transactions crc sd (rr_entries r) of
        Inl e \<Rightarrow> (Inl (RecoveryWal e), st, g)
      | Inr cs \<Rightarrow> replay_transactions cfg apply_op cs st g)"

fun parse_few_files ::
  "codec \<Rightarrow> wal_recovery_mode \<Rightarrow> bool \<Rightarrow> byte list list \<Rightarrow> recovery_result \<Rightarrow> (wal_error, recovery_result) result" where
  "parse_few_files co mode verify [] m = Inr (sort_entries m)"
| "parse_few_files co mode verify (f # fs) m = (case parse_file co mode verify f of
      Inl e \<Rightarrow> Inl e
    | Inr r \<Rightarrow> parse_few_files co mode verify fs (merge_result m r))"

definition recover_with_applier ::
  "codec \<Rightarrow> wal_serde \<Rightarrow> recovery_config \<Rightarrow> 'g replay_op \<Rightarrow> byte list list \<Rightarrow> 'g
   \<Rightarrow> (recovery_error, recovery_stats) result \<times> 'g" where
  "recover_with_applier co sd cfg apply_op files g =
     (case parse_few_files co (rc_mode cfg) (rc_verify_checksum cfg) files recovery_default of
        Inl e \<Rightarrow> (Inl (RecoveryWal e), g)
      | Inr r0 \<Rightarrow>
          let r = apply_dry_replay_filter (co_crc co) sd cfg r0;
              st = \<lparr> rs_replayed = 0, rs_errors = saturating_add_u64 (rr_corrupted_count r) (rr_skipped_count r),
                     rs_last_lsn = (case rc_start_lsn cfg of Some l \<Rightarrow> l | None \<Rightarrow> 0),
                     rs_max_timestamp = rr_last_timestamp r, rs_max_transaction_id = max_transaction_id sd r \<rparr>
          in case replay_wal_entries (co_crc co) sd cfg apply_op r st g of
               (Inl e, _, g1) \<Rightarrow> (Inl e, g1)
             | (Inr _, st1, g1) \<Rightarrow> (Inr st1, g1))"

subsection \<open>Collecting what was written\<close>

definition serde_ok :: "wal_serde \<Rightarrow> bool" where
  "serde_ok sd \<longleftrightarrow> (\<forall>i p. sd_enc_intent sd i = Some p \<longrightarrow> sd_dec_intent sd p = Some i) \<and>
     (\<forall>c p. sd_enc_commit sd c = Some p \<longrightarrow> sd_dec_commit sd p = Some c)"

type_synonym logged_txn = "txn_id \<times> wal_entry list \<times> outbox_intent list"

fun append_transactions :: "codec \<Rightarrow> wal_serde \<Rightarrow> logged_txn list \<Rightarrow> wal_writer \<Rightarrow> unit wal_op" where
  "append_transactions co sd [] w = (Inr (), w)"
| "append_transactions co sd ((tx, es, is) # txs) w =
     (case append_transaction_batch_no_wait co sd tx es is w of
        (Inl e, w1) \<Rightarrow> (Inl e, w1)
      | (Inr _, w1) \<Rightarrow> append_transactions co sd txs w1)"

definition committed_view :: "committed_txn \<Rightarrow> txn_id \<times> (nat \<times> timestamp \<times> byte list) list \<times> outbox_intent list" where
  "committed_view c = (ct_transaction_id c, map entry_request (ct_redo_entries c), ct_intents c)"

definition txn_view :: "logged_txn \<Rightarrow> txn_id \<times> (nat \<times> timestamp \<times> byte list) list \<times> outbox_intent list" where
  "txn_view t = (case t of (tx, es, is) \<Rightarrow> (tx, map batch_request (to_batch es), is))"

definition redo_op :: "wal_op_type \<Rightarrow> bool" where
  "redo_op op \<longleftrightarrow> op \<notin> {OpOutboxIntent, OpTransactionCommit, OpTransactionAbort}"

abbreviation reqs :: "wal_entry list \<Rightarrow> (nat \<times> timestamp \<times> byte list) list" where
  "reqs es \<equiv> map batch_request (to_batch es)"

definition intent_entry :: "txn_id \<Rightarrow> byte list \<Rightarrow> wal_entry" where
  "intent_entry tx p = \<lparr> we_op = OpOutboxIntent, we_timestamp = 0, we_payload = p,
     we_transaction_id = Some tx, we_mutation_sequence = None \<rparr>"

lemma reqs_simps [simp]:
  "reqs [] = []" "reqs (e # es) = (op_as_u8 (we_op e), we_timestamp e, we_payload e) # reqs es"
  "reqs (es @ fs) = reqs es @ reqs fs" "length (to_batch es) = length es"
  by (simp_all add: to_batch_def)

lemma entry_request_eq:
  "entry_request e = (n, ts, p) \<longleftrightarrow>
   h_op_type (pe_header e) = n \<and> h_timestamp (pe_header e) = ts \<and> pe_payload e = p"
  by (simp add: entry_request_def)

lemma intent_entry_fields [simp]:
  "we_op (intent_entry tx p) = OpOutboxIntent" "we_timestamp (intent_entry tx p) = 0"
  "we_payload (intent_entry tx p) = p"
  by (simp_all add: intent_entry_def)

lemma push_intents_Inr:
  "push_intents sd tx k is es = Inr es' \<Longrightarrow>
   \<exists>ps. es' = es @ map (intent_entry tx) ps \<and> list_all2 (\<lambda>i p. sd_enc_intent sd i = Some p) is ps \<and>
     map intent_sequence is = [k..<k + length is] \<and>
     list_all (\<lambda>i. intent_validate i = Inr () \<and> oi_transaction_id i = tx) is"
proof (induction "is" arbitrary: k es)
  case (Cons i "is")
  obtain p where p: "sd_enc_intent sd i = Some p" "intent_validate i = Inr ()" "oi_transaction_id i = tx"
    "intent_sequence i = k" "push_intents sd tx (k + 1) is (es @ [intent_entry tx p]) = Inr es'"
    using Cons.prems by (auto simp: intent_entry_def split: sum.splits option.splits if_splits)
  from Cons.IH [OF p(5)] obtain ps where ps: "es' = (es @ [intent_entry tx p]) @ map (intent_entry tx) ps"
    "list_all2 (\<lambda>i p. sd_enc_intent sd i = Some p) is ps" "map intent_sequence is = [k + 1..<k + 1 + length is]"
    "list_all (\<lambda>i. intent_validate i = Inr () \<and> oi_transaction_id i = tx) is" by auto
  moreover have "[k..<k + length (i # is)] = k # [k + 1..<k + 1 + length is]"
    by (subst upt_conv_Cons) simp_all
  ultimately show ?case
    using p by (intro exI [of _ "p # ps"]) (simp del: upt_Suc)
qed simp

lemma parsed_checksum_input_reqs:
  "map entry_request es = reqs ws \<Longrightarrow> parsed_checksum_input es =
     Inr (concat (map (\<lambda>e. checksum_entry (we_op e) (we_timestamp e) (we_payload e)) ws))"
proof (induction ws arbitrary: es)
  case (Cons w ws)
  then obtain e es' where "es = e # es'" "entry_request e = (op_as_u8 (we_op w), we_timestamp w, we_payload w)"
    "map entry_request es' = reqs ws" by (cases es) auto
  with Cons.IH show ?case by (simp add: entry_request_eq)
qed simp

lemma split_batch_redo:
  "\<lbrakk> map entry_request es = reqs ws; list_all (\<lambda>w. redo_op (we_op w)) ws; split_batch sd tx rest = Inr (rs, is) \<rbrakk> \<Longrightarrow>
   split_batch sd tx (es @ rest) = Inr (es @ rs, is)"
proof (induction ws arbitrary: es)
  case (Cons w ws)
  then obtain e es' where "es = e # es'" "entry_request e = (op_as_u8 (we_op w), we_timestamp w, we_payload w)"
    "map entry_request es' = reqs ws" by (cases es) auto
  with Cons show ?case by (auto simp: entry_request_eq redo_op_def)
qed simp

lemma split_batch_intents:
  "\<lbrakk> serde_ok sd; map entry_request es = reqs (map (intent_entry tx) ps);
     list_all2 (\<lambda>i p. sd_enc_intent sd i = Some p) is ps;
     list_all (\<lambda>i. intent_validate i = Inr () \<and> oi_transaction_id i = tx) is \<rbrakk> \<Longrightarrow>
   split_batch sd tx es = Inr ([], is)"
proof (induction ps arbitrary: es "is")
  case (Cons p ps)
  then obtain e es' where e: "es = e # es'" "entry_request e = (op_as_u8 OpOutboxIntent, 0, p)"
    "map entry_request es' = reqs (map (intent_entry tx) ps)" by (cases es) auto
  obtain i is' where i: "is = i # is'" "sd_enc_intent sd i = Some p"
    "list_all2 (\<lambda>i p. sd_enc_intent sd i = Some p) is' ps" using Cons.prems(3) by (cases "is") auto
  have "sd_dec_intent sd p = Some i" using Cons.prems(1) i(2) by (simp add: serde_ok_def)
  with Cons.IH [OF Cons.prems(1) e(3) i(3)] Cons.prems(4) e i show ?case
    by (simp add: entry_request_eq del: op_as_u8.simps)
qed auto

lemma collect_loop_pending:
  "\<lbrakk> map entry_request es = reqs ws; list_all (\<lambda>w. we_op w \<notin> {OpTransactionCommit, OpTransactionAbort}) ws \<rbrakk> \<Longrightarrow>
   collect_loop crc sd (es @ rest) pending acc = collect_loop crc sd rest (pending @ es) acc"
proof (induction ws arbitrary: es pending)
  case (Cons w ws)
  then obtain e es' where "es = e # es'" "entry_request e = (op_as_u8 (we_op w), we_timestamp w, we_payload w)"
    "map entry_request es' = reqs ws" by (cases es) auto
  with Cons show ?case by (auto simp: entry_request_eq)
qed simp

definition built_ok :: "(byte list \<Rightarrow> nat) \<Rightarrow> wal_serde \<Rightarrow> logged_txn \<Rightarrow> wal_entry list \<Rightarrow> bool" where
  "built_ok crc sd t es \<longleftrightarrow> (case t of (tx, entries, intents) \<Rightarrow>
     \<exists>w. build_transaction_entries crc sd tx entries intents w = Inr es)"

lemma built_ok_parts:
  assumes "built_ok crc sd (tx, entries, intents) es"
  obtains ps c cp ce where "es = entries @ map (intent_entry tx) ps @ [ce]"
    "we_op ce = OpTransactionCommit" "we_payload ce = cp" "sd_enc_commit sd c = Some cp"
    "tc_wire_version c = WAL_SYNC_WIRE_VERSION" "tc_transaction_id c = tx" "intent_count c = length intents"
    "tc_batch_checksum c = batch_checksum crc (entries @ map (intent_entry tx) ps)"
    "entry_count c = length entries mod 2 ^ 32"
    "list_all2 (\<lambda>i p. sd_enc_intent sd i = Some p) intents ps" "map intent_sequence intents = [0..<length intents]"
    "list_all (\<lambda>i. intent_validate i = Inr () \<and> oi_transaction_id i = tx) intents"
proof -
  obtain w where w: "build_transaction_entries crc sd tx entries intents w = Inr es"
    using assms by (auto simp: built_ok_def)
  obtain es0 where es0: "push_intents sd tx 0 intents entries = Inr es0"
    using w by (auto simp: build_transaction_entries_def split: sum.splits)
  obtain ps where ps: "es0 = entries @ map (intent_entry tx) ps"
    "list_all2 (\<lambda>i p. sd_enc_intent sd i = Some p) intents ps" "map intent_sequence intents = [0..<length intents]"
    "list_all (\<lambda>i. intent_validate i = Inr () \<and> oi_transaction_id i = tx) intents"
    using push_intents_Inr [OF es0] by auto
  define c where "c = \<lparr> tc_wire_version = WAL_SYNC_WIRE_VERSION, tc_transaction_id = tx,
      intent_count = length intents, tc_batch_checksum = batch_checksum crc es0,
      first_sequence = first_sequence_of entries, entry_count = length entries mod 2 ^ 32 \<rparr>"
  obtain cp ce where cp: "sd_enc_commit sd c = Some cp" "es = es0 @ [ce]" "ce = \<lparr> we_op = OpTransactionCommit,
      we_timestamp = 0, we_payload = cp, we_transaction_id = Some tx, we_mutation_sequence = None \<rparr>"
    using w es0 unfolding build_transaction_entries_def c_def
    by (auto simp: Let_def split: sum.splits if_splits option.splits)
  show ?thesis
    by (rule that [of ps ce cp c]) (use cp ps in \<open>simp_all add: c_def\<close>)
qed

lemma close_batch_ok:
  assumes sd: "serde_ok sd" and b: "built_ok crc sd (tx, entries, intents) (ws @ [ce])"
    and redo: "list_all (\<lambda>w. redo_op (we_op w)) entries"
    and p: "map entry_request pending = reqs ws" and e: "entry_request e = (n, ts, we_payload ce)"
  shows "\<exists>c. close_batch crc sd e pending = Inr c \<and> committed_view c = txn_view (tx, entries, intents)"
proof -
  obtain ps c cp ce' where
    q: "ws @ [ce] = entries @ map (intent_entry tx) ps @ [ce']" "we_op ce' = OpTransactionCommit" "we_payload ce' = cp"
    "sd_enc_commit sd c = Some cp" and
    c: "tc_wire_version c = WAL_SYNC_WIRE_VERSION" "tc_transaction_id c = tx" "intent_count c = length intents"
    "tc_batch_checksum c = batch_checksum crc (entries @ map (intent_entry tx) ps)"
    "entry_count c = length entries mod 2 ^ 32" and
    i: "list_all2 (\<lambda>i p. sd_enc_intent sd i = Some p) intents ps" "map intent_sequence intents = [0..<length intents]"
    "list_all (\<lambda>i. intent_validate i = Inr () \<and> oi_transaction_id i = tx) intents"
    by (rule built_ok_parts [OF b])
  have "ws @ [ce] = (entries @ map (intent_entry tx) ps) @ [ce']" using q(1) by simp
  then have "ws = entries @ map (intent_entry tx) ps \<and> ce = ce'" by (rule append1_eq_conv [THEN iffD1])
  then have ws: "ws = entries @ map (intent_entry tx) ps" "we_payload ce = cp" "sd_enc_commit sd c = Some cp"
    using q(3,4) by auto
  define pr where "pr = take (length entries) pending"
  define pi where "pi = drop (length entries) pending"
  have pend: "pending = pr @ pi" "map entry_request pr = reqs entries"
    "map entry_request pi = reqs (map (intent_entry tx) ps)"
    using p by (simp_all add: pr_def pi_def ws(1) take_map [symmetric] drop_map [symmetric])
  have "split_batch sd tx pending = Inr (pr @ [], intents)"
    unfolding pend(1)
    by (rule split_batch_redo [OF pend(2) redo split_batch_intents [OF sd pend(3) i(1,3)]])
  moreover have "sort_key intent_sequence intents = intents"
    using i(2) by (intro sort_key_id_if_sorted) simp
  moreover have "sd_dec_commit sd (pe_payload e) = Some c"
    using sd ws(2,3) e by (simp add: serde_ok_def entry_request_eq)
  moreover have "parsed_batch_checksum crc pending = Inr (tc_batch_checksum c)"
    using parsed_checksum_input_reqs [OF p] c(4) by (simp add: parsed_batch_checksum_def batch_checksum_def ws(1))
  moreover have "length pr = length entries" using pend(2) by (metis length_map reqs_simps(4))
  ultimately show ?thesis
    using c i(2) pend(2)
    by (simp add: close_batch_def commit_validate_def validate_wire_version_def Let_def contiguous_def
        committed_view_def txn_view_def)
qed

lemma collect_built:
  assumes sd: "serde_ok sd" and b: "built_ok crc sd t ws" and redo: "list_all (\<lambda>w. redo_op (we_op w)) (fst (snd t))"
    and es: "map entry_request es = reqs ws"
  shows "\<exists>c. collect_loop crc sd (es @ rest) [] acc = collect_loop crc sd rest [] (acc @ [c]) \<and>
    committed_view c = txn_view t"
proof -
  obtain tx entries intents where t: "t = (tx, entries, intents)" by (cases t)
  obtain ps ce where ws: "ws = (entries @ map (intent_entry tx) ps) @ [ce]" "we_op ce = OpTransactionCommit"
    using built_ok_parts [OF b [unfolded t]] by (metis append_assoc)
  define ws0 where "ws0 = entries @ map (intent_entry tx) ps"
  obtain es0 e where es0: "es = es0 @ [e]" "map entry_request es0 = reqs ws0"
    "entry_request e = (op_as_u8 (we_op ce), we_timestamp ce, we_payload ce)"
    using es by (cases es rule: rev_cases) (auto simp: ws(1) ws0_def)
  have b': "built_ok crc sd (tx, entries, intents) (ws0 @ [ce])" using b t ws(1) ws0_def by simp
  have redo': "list_all (\<lambda>w. redo_op (we_op w)) entries" using redo t by simp
  have "list_all (\<lambda>w. we_op w \<notin> {OpTransactionCommit, OpTransactionAbort}) ws0"
    using redo t by (auto simp: ws0_def list_all_iff redo_op_def)
  from collect_loop_pending [OF es0(2) this, of crc sd "e # rest" "[]" acc]
  have "collect_loop crc sd (es @ rest) [] acc = collect_loop crc sd (e # rest) es0 acc" by (simp add: es0(1))
  moreover obtain c where c: "close_batch crc sd e es0 = Inr c" "committed_view c = txn_view (tx, entries, intents)"
    using close_batch_ok [OF sd b' redo' es0(2,3)] by blast
  moreover have "op_try_from (h_op_type (pe_header e)) = Inr OpTransactionCommit"
    using es0(3) ws(2) by (simp add: entry_request_eq del: op_as_u8.simps)
  ultimately show ?thesis using t by (intro exI [of _ c]) simp
qed

lemma collect_unfinished:
  assumes b: "built_ok crc sd t ws" and redo: "list_all (\<lambda>w. redo_op (we_op w)) (fst (snd t))"
    and j: "j < length ws" and es: "map entry_request es = take j (reqs ws)"
  shows "collect_loop crc sd es [] acc = Inr acc"
proof -
  obtain tx entries intents where t: "t = (tx, entries, intents)" by (cases t)
  obtain ps ce where ws: "ws = (entries @ map (intent_entry tx) ps) @ [ce]"
    using built_ok_parts [OF b [unfolded t]] by (metis append_assoc)
  define ws0 where "ws0 = take j (entries @ map (intent_entry tx) ps)"
  have "map entry_request es = reqs ws0"
    using es j ws by (simp add: ws0_def to_batch_def take_map)
  moreover have "list_all (\<lambda>w. we_op w \<notin> {OpTransactionCommit, OpTransactionAbort}) ws0"
    using redo t unfolding ws0_def by (auto simp: list_all_iff redo_op_def dest!: in_set_takeD)
  ultimately show ?thesis
    using collect_loop_pending [of es ws0 crc sd "[]" "[]" acc] by simp
qed

lemma collect_prefix:
  "\<lbrakk> serde_ok sd; list_all2 (built_ok crc sd) txs wss; list_all (\<lambda>t. list_all (\<lambda>w. redo_op (we_op w)) (fst (snd t))) txs;
     map entry_request es = take j (concat (map reqs wss)) \<rbrakk> \<Longrightarrow>
   \<exists>cs k. collect_loop crc sd es [] acc = Inr (acc @ cs) \<and> k \<le> length txs \<and>
     map committed_view cs = map txn_view (take k txs) \<and>
     (\<forall>i \<le> length txs. length (concat (take i wss)) \<le> j \<longrightarrow> i \<le> k)"
proof (induction txs wss arbitrary: es j acc rule: list_induct2')
  case 1
  then show ?case by simp
next
  case (4 t txs ws wss)
  show ?case
  proof (cases "j < length ws")
    case True
    then have "map entry_request es = take j (reqs ws)" using "4.prems"(4) by simp
    then have "collect_loop crc sd es [] acc = Inr acc"
      using "4.prems" True by (intro collect_unfinished [of crc sd t ws j]) simp_all
    moreover have "i \<le> 0" if "length (concat (take i (ws # wss))) \<le> j" for i
      using that True by (cases i) simp_all
    ultimately show ?thesis by (intro exI [of _ "[]"] exI [of _ 0]) auto
  next
    case False
    define e1 where "e1 = take (length ws) es"
    define e2 where "e2 = drop (length ws) es"
    have es: "es = e1 @ e2" "map entry_request e1 = reqs ws"
      "map entry_request e2 = take (j - length ws) (concat (map reqs wss))"
      using "4.prems"(4) False by (simp_all add: e1_def e2_def take_map [symmetric] drop_map [symmetric] drop_take)
    obtain c where c: "collect_loop crc sd (e1 @ e2) [] acc = collect_loop crc sd e2 [] (acc @ [c])"
      "committed_view c = txn_view t"
      using collect_built [OF "4.prems"(1) _ _ es(2), of crc t e2 acc] "4.prems"(2,3) by auto
    obtain cs k where ih: "collect_loop crc sd e2 [] (acc @ [c]) = Inr ((acc @ [c]) @ cs)" "k \<le> length txs"
      "map committed_view cs = map txn_view (take k txs)"
      "\<forall>i \<le> length txs. length (concat (take i wss)) \<le> j - length ws \<longrightarrow> i \<le> k"
      using "4.IH" [OF "4.prems"(1) _ _ es(3), of "acc @ [c]"] "4.prems"(2,3) by auto
    have "i \<le> Suc k" if "i \<le> length (t # txs)" "length (concat (take i (ws # wss))) \<le> j" for i
      using that ih(4) by (cases i) auto
    then show ?thesis
      using c ih es(1) by (intro exI [of _ "c # cs"] exI [of _ "Suc k"]) auto
  qed
qed simp_all

subsection \<open>Crash recovery\<close>

fun log_ends :: "codec \<Rightarrow> wal_serde \<Rightarrow> logged_txn list \<Rightarrow> wal_writer \<Rightarrow> nat list" where
  "log_ends co sd [] w = []"
| "log_ends co sd ((tx, es, is) # txs) w =
     (let w1 = snd (append_transaction_batch_no_wait co sd tx es is w)
      in w_file_used w1 # log_ends co sd txs w1)"

lemma build_batch_length: "build_batch co cfg prev es = Inr fs \<Longrightarrow> length fs = length es"
proof (induction es arbitrary: prev fs)
  case (Cons e es)
  then show ?case by (cases e) (auto simp: Let_def split: sum.splits)
qed simp

lemma append_transactions_ok:
  "\<lbrakk> log_rep fh fs w; w_current_lsn w < 2 ^ 64; append_transactions co sd txs w = (Inr (), w') \<rbrakk> \<Longrightarrow>
   \<exists>wss gs. list_all2 (built_ok (co_crc co) sd) txs wss \<and>
     build_batch co (w_config w) (w_current_lsn w) (concat (map to_batch wss)) = Inr gs \<and>
     log_rep fh (fs @ gs) w' \<and>
     (\<forall>i < length txs. log_ends co sd txs w ! i =
        64 + length (batch_bytes fs) + length (batch_bytes (take (length (concat (take (Suc i) wss))) gs)))"
proof (induction txs arbitrary: fs w)
  case Nil
  then show ?case by (intro exI [of _ "[]"]) simp
next
  case (Cons t txs)
  obtain tx entries intents where t: "t = (tx, entries, intents)" by (cases t)
  obtain l w1 where w1: "append_transaction_batch_no_wait co sd tx entries intents w = (Inr l, w1)"
    "append_transactions co sd txs w1 = (Inr (), w')"
    using Cons.prems(3) t by (auto split: sum.splits prod.splits)
  obtain ws where ws: "build_transaction_entries (co_crc co) sd tx entries intents w = Inr ws"
    "\<exists>l'. write_batch_entries co (to_batch ws) w = (Inr l', w1)"
    using w1(1) by (auto simp: append_transaction_batch_no_wait_def split: sum.splits prod.splits)
  obtain gs1 where g1: "build_batch co (w_config w) (w_current_lsn w) (to_batch ws) = Inr gs1"
    "log_rep fh (fs @ gs1) w1" "w_current_lsn w1 = frames_end (w_current_lsn w) gs1" "w_config w1 = w_config w"
    using ws(2) write_batch_ok [OF Cons.prems(1)] frames_end_mod [OF Cons.prems(2)] by fastforce
  have lsn1: "w_current_lsn w1 < 2 ^ 64" using g1(3) frames_end_mod [OF Cons.prems(2)] by simp
  obtain wss gs where ih: "list_all2 (built_ok (co_crc co) sd) txs wss"
    "build_batch co (w_config w1) (w_current_lsn w1) (concat (map to_batch wss)) = Inr gs"
    "log_rep fh ((fs @ gs1) @ gs) w'"
    "\<forall>i < length txs. log_ends co sd txs w1 ! i =
        64 + length (batch_bytes (fs @ gs1)) + length (batch_bytes (take (length (concat (take (Suc i) wss))) gs))"
    using Cons.IH [OF g1(2) lsn1 w1(2)] by blast
  have lg: "length gs1 = length ws" using build_batch_length [OF g1(1)] by simp
  have u: "w_file_used w1 = 64 + length (batch_bytes fs) + length (batch_bytes gs1)"
    using g1(2) by (simp add: log_rep_def)
  have "log_ends co sd (t # txs) w ! i = 64 + length (batch_bytes fs) +
      length (batch_bytes (take (length (concat (take (Suc i) (ws # wss)))) (gs1 @ gs)))" if "i < length (t # txs)" for i
  proof (cases i)
    case 0
    then show ?thesis using u lg w1(1) t by (simp add: Let_def)
  next
    case (Suc k)
    then show ?thesis using ih(4) that lg w1(1) t by (simp add: Let_def)
  qed
  moreover have "list_all2 (built_ok (co_crc co) sd) (t # txs) (ws # wss)"
    using ih(1) ws(1) t by (auto simp: built_ok_def)
  moreover have "build_batch co (w_config w) (w_current_lsn w) (concat (map to_batch (ws # wss))) = Inr (gs1 @ gs)"
    using build_batch_append [OF g1(1), of "concat (map to_batch wss)" gs] ih(2) g1(3,4) by simp
  ultimately show ?case using ih(3) by (intro exI [of _ "ws # wss"] exI [of _ "gs1 @ gs"]) simp
qed

definition loggable :: "codec \<Rightarrow> wal_serde \<Rightarrow> logged_txn \<Rightarrow> bool" where
  "loggable co sd t \<longleftrightarrow> list_all (\<lambda>w. redo_op (we_op w)) (fst (snd t)) \<and>
     (\<forall>es. built_ok (co_crc co) sd t es \<longrightarrow> list_all readable_batch (to_batch es))"

lemma reqs_concat: "concat (map reqs wss) = map batch_request (concat (map to_batch wss))"
  by (induction wss) simp_all

lemma cut_log_recovers:
  assumes co: "codec_ok co" and sd: "serde_ok sd" and fh: "file_header_ok fh" "file_header_is_valid fh"
    and w: "log_rep fh [] w" "w_current_lsn w = fh_start_lsn fh"
    and run: "append_transactions co sd txs w = (Inr (), w')" and txs: "list_all (loggable co sd) txs"
    and lsn: "fh_start_lsn fh + w_file_used w' < 2 ^ 64" and n: "64 \<le> n" "n \<le> w_file_used w'"
  shows "\<exists>r cs k. parse_file co mode verify (take n (the (w_file w'))) = Inr r \<and>
    collect_committed_transactions (co_crc co) sd (rr_entries r) = Inr cs \<and>
    k \<le> length txs \<and> map committed_view cs = map txn_view (take k txs) \<and>
    (\<forall>i < length txs. log_ends co sd txs w ! i \<le> n \<longrightarrow> i < k)"
proof -
  have "w_current_lsn w < 2 ^ 64" using lsn w(2) by simp
  then obtain wss fs where b: "list_all2 (built_ok (co_crc co) sd) txs wss"
    "build_batch co (w_config w) (fh_start_lsn fh) (concat (map to_batch wss)) = Inr fs" "log_rep fh fs w'"
    "\<forall>i < length txs. log_ends co sd txs w ! i = 64 + length (batch_bytes (take (length (concat (take (Suc i) wss))) fs))"
    using append_transactions_ok [OF w(1) _ run] w(2) by auto
  have f: "w_file w' = Some (file_header_as_bytes fh @ batch_bytes fs @ replicate (w_file_size w' - w_file_used w') 0)"
    "w_file_used w' = 64 + length (batch_bytes fs)" "length (file_header_as_bytes fh) = 64"
    using b(3) by (auto simp: log_rep_def length_file_header_as_bytes)
  have tk: "take n (the (w_file w')) = file_header_as_bytes fh @ take (n - 64) (batch_bytes fs)"
    using f n by simp
  have rd: "list_all readable_batch (concat (map to_batch wss))"
    using b(1) txs by (induction rule: list_all2_induct) (simp_all add: loggable_def)
  obtain r j where r: "parse_file co mode verify (file_header_as_bytes fh @ take (n - 64) (batch_bytes fs)) = Inr r"
    "map entry_request (rr_entries r) = map batch_request (take j (concat (map to_batch wss)))"
    "\<forall>m \<le> length (concat (map to_batch wss)). length (batch_bytes (take m fs)) \<le> n - 64 \<longrightarrow> m \<le> j"
    using cut_log_reads_prefix [OF co fh rd b(2), of mode verify "n - 64"] lsn f(2) by auto
  have redo: "list_all (\<lambda>t. list_all (\<lambda>w. redo_op (we_op w)) (fst (snd t))) txs"
    using txs by (simp add: list_all_iff loggable_def)
  have "map entry_request (rr_entries r) = take j (concat (map reqs wss))"
    using r(2) by (simp add: reqs_concat take_map)
  from collect_prefix [OF sd b(1) redo this, of "[]"] obtain cs k where
    k: "collect_loop (co_crc co) sd (rr_entries r) [] [] = Inr cs" "k \<le> length txs"
    "map committed_view cs = map txn_view (take k txs)"
    "\<forall>i \<le> length txs. length (concat (take i wss)) \<le> j \<longrightarrow> i \<le> k" by auto
  have ltx: "length txs = length wss" using b(1) by (rule list_all2_lengthD)
  have "i < k" if i: "i < length txs" "log_ends co sd txs w ! i \<le> n" for i
  proof -
    have "length (concat (take (Suc i) wss)) \<le> length (concat wss)"
      by (metis append_take_drop_id concat_append length_append le_add1)
    also have "length (concat wss) = length (concat (map to_batch wss))" by (induction wss) simp_all
    finally have "length (concat (take (Suc i) wss)) \<le> j" using r(3) b(4) i n(1) by auto
    with k(4) i(1) show ?thesis by (metis Suc_le_eq)
  qed
  with k r(1) tk show ?thesis by (auto simp: collect_committed_transactions_def)
qed

lemma appended_file_nonempty:
  assumes "log_rep fh [] w" "w_current_lsn w = fh_start_lsn fh" "append_transactions co sd txs w = (Inr (), w')"
    "fh_start_lsn fh + w_file_used w' < 2 ^ 64"
  shows "the (w_file w') \<noteq> []"
proof -
  obtain fs where "log_rep fh fs w'" using append_transactions_ok [OF assms(1) _ assms(3)] assms(2,4) by auto
  then have "length (the (w_file w')) \<ge> 64" by (auto simp: log_rep_def length_file_header_as_bytes)
  then show ?thesis by auto
qed

text \<open>
  C1.  Crash recovery is atomic and durable.  Let any transactions be logged on a fresh
  segment (their redo entries being no commit-protocol records, every record within the
  maximal payload length), and let the file be cut at any byte.  A cut inside the file
  header leaves an empty file, which reads as an empty log, or is refused as an invalid
  header.  From the end of the header on the parser reads a valid log in every recovery
  mode, and the committed transactions collected from it are exactly the first ones
  logged, each with all its redo entries and intents and none in part; every transaction
  whose bytes lie before the cut is among them.
\<close>

theorem crash_recovers_committed_prefix:
  assumes co: "codec_ok co" and sd: "serde_ok sd" and fh: "file_header_ok fh" "file_header_is_valid fh"
    and w: "log_rep fh [] w" "w_current_lsn w = fh_start_lsn fh"
    and run: "append_transactions co sd txs w = (Inr (), w')" and txs: "list_all (loggable co sd) txs"
    and lsn: "fh_start_lsn fh + w_file_used w' < 2 ^ 64" and n: "n \<le> w_file_used w'"
  shows "(n = 0 \<longrightarrow> parse_file co mode verify (take n (the (w_file w'))) = Inr recovery_default) \<and>
    (0 < n \<and> n < 64 \<longrightarrow> parse_file co mode verify (take n (the (w_file w'))) = Inl InvalidFileHeader) \<and>
    (64 \<le> n \<longrightarrow> (\<exists>r cs k. parse_file co mode verify (take n (the (w_file w'))) = Inr r \<and>
      collect_committed_transactions (co_crc co) sd (rr_entries r) = Inr cs \<and>
      k \<le> length txs \<and> map committed_view cs = map txn_view (take k txs) \<and>
      (\<forall>i < length txs. log_ends co sd txs w ! i \<le> n \<longrightarrow> i < k)))"
proof (intro conjI impI)
  show "parse_file co mode verify (take n (the (w_file w'))) = Inl InvalidFileHeader" if c: "0 < n \<and> n < 64"
  proof -
    have "take n (the (w_file w')) \<noteq> []" using appended_file_nonempty [OF w run] lsn n c by auto
    moreover have "length (take n (the (w_file w'))) < 64" using c by (simp add: min_less_iff_disj)
    ultimately show ?thesis by (simp only: parse_file_def read_wal_file_def WAL_FILE_HEADER_SIZE_def if_False if_True sum.case)
  qed
qed (use cut_log_recovers [OF co sd fh w run txs lsn _ n] in \<open>simp_all add: parse_file_def read_wal_file_def\<close>)

definition demo_serde :: wal_serde where
  "demo_serde = \<lparr> sd_enc_intent = (\<lambda>i. None), sd_dec_intent = (\<lambda>p. None),
     sd_enc_commit = (\<lambda>c. if list_all (\<lambda>n. n < 256) [tc_wire_version c, tc_transaction_id c, intent_count c,
         tc_batch_checksum c, first_sequence c, entry_count c]
       then Some (map of_nat [tc_wire_version c, tc_transaction_id c, intent_count c, tc_batch_checksum c,
         first_sequence c, entry_count c]) else None),
     sd_dec_commit = (\<lambda>p. case map unat p of
         [v, t, i, b, f, e] \<Rightarrow> Some \<lparr> tc_wire_version = v, tc_transaction_id = t, intent_count = i,
           tc_batch_checksum = b, first_sequence = f, entry_count = e \<rparr>
       | _ \<Rightarrow> None),
     sd_dec_abort = (\<lambda>p. None) \<rparr>"

definition demo_txn :: logged_txn where
  "demo_txn = (7, [\<lparr> we_op = OpInsertVertex, we_timestamp = 5, we_payload = [1, 2],
     we_transaction_id = Some 7, we_mutation_sequence = Some 0 \<rparr>], [])"

lemma demo_serde_ok: "serde_ok demo_serde"
  by (auto simp: serde_ok_def demo_serde_def unat_of_nat split: if_splits)

definition demo_commit_entry :: wal_entry where
  "demo_commit_entry = \<lparr> we_op = OpTransactionCommit, we_timestamp = 0,
     we_payload = map of_nat [WAL_SYNC_WIRE_VERSION, 7, 0, 19, 0, 1],
     we_transaction_id = Some 7, we_mutation_sequence = None \<rparr>"

lemma demo_txn_entries:
  "build_transaction_entries (co_crc demo_codec) demo_serde 7 (fst (snd demo_txn)) [] w =
     (if w_poisoned w then Inl WalPoisoned else Inr (fst (snd demo_txn) @ [demo_commit_entry]))"
  by (simp add: build_transaction_entries_def check_poisoned_def demo_txn_def demo_serde_def demo_codec_def
      batch_checksum_def checksum_entry_def first_sequence_of_def demo_commit_entry_def WAL_SYNC_WIRE_VERSION_def
      List.map_filter_def Let_def)

lemma demo_txn_logged:
  "\<exists>w'. append_transactions demo_codec demo_serde [demo_txn] (demo_writer False) = (Inr (), w') \<and> w_file_used w' = 152"
proof -
  let ?w = "demo_writer False"
  note d = demo_writer_rep [of False]
  have t: "demo_txn = (7, fst (snd demo_txn), [])" by (simp add: demo_txn_def)
  have f: "w_file ?w \<noteq> None" "w_file_used ?w = 64" using d(1) by (auto simp: log_rep_def batch_bytes_def)
  have "\<exists>fs. build_batch demo_codec (w_config ?w) (w_current_lsn ?w) (to_batch (fst (snd demo_txn) @ [demo_commit_entry])) =
      Inr fs \<and> length (batch_bytes fs) = 88"
    using d(4) by (simp add: to_batch_def demo_txn_def demo_commit_entry_def compress_def demo_wal_config_def
        Let_def batch_bytes_def length_serialize_record)
  then show ?thesis using f d(6)
    by (subst t) (auto simp: append_transaction_batch_no_wait_def demo_txn_entries write_batch_entries_def Let_def)
qed

lemma demo_txn_loggable: "loggable demo_codec demo_serde demo_txn"
proof -
  have t: "demo_txn = (7, fst (snd demo_txn), [])" by (simp add: demo_txn_def)
  have "built_ok (co_crc demo_codec) demo_serde demo_txn es \<Longrightarrow> es = fst (snd demo_txn) @ [demo_commit_entry]" for es
    by (subst (asm) t) (auto simp: built_ok_def demo_txn_entries split: if_splits)
  moreover have "list_all readable_batch (to_batch (fst (snd demo_txn) @ [demo_commit_entry]))"
    by (simp add: to_batch_def readable_batch_def demo_txn_def demo_commit_entry_def MAX_PAYLOAD_LENGTH_def)
  ultimately show ?thesis by (auto simp: loggable_def demo_txn_def redo_op_def)
qed

theorem crash_recovers_committed_prefix_witness:
  "\<exists>w' r cs k. append_transactions demo_codec demo_serde [demo_txn] (demo_writer False) = (Inr (), w') \<and>
     parse_file demo_codec AbortOnCorruption True (take 150 (the (w_file w'))) = Inr r \<and>
     collect_committed_transactions (co_crc demo_codec) demo_serde (rr_entries r) = Inr cs \<and>
     map committed_view cs = map txn_view (take k [demo_txn])"
proof -
  obtain w' where w': "append_transactions demo_codec demo_serde [demo_txn] (demo_writer False) = (Inr (), w')"
    "w_file_used w' = 152" using demo_txn_logged by blast
  from crash_recovers_committed_prefix [OF demo_codec_ok demo_serde_ok demo_file_header_ok(1,2) demo_writer_rep(1) _ w'(1),
      of 150 AbortOnCorruption True]
  show ?thesis using w' demo_writer_rep(7) demo_file_header_ok(3) demo_txn_loggable by simp blast
qed

lemma redo_not_envelope:
  assumes "map entry_request es = reqs ws" "list_all (\<lambda>w. redo_op (we_op w)) ws"
  shows "\<not> has_sync_envelope es"
proof -
  have "is_envelope e \<Longrightarrow> entry_request e \<notin> set (reqs ws)" for e
    using assms(2) by (induction ws) (auto simp: is_envelope_def entry_op_is_def redo_op_def entry_request_def)
  then show ?thesis using assms(1) by (metis has_sync_envelope_def imageI image_set list_ex_iff)
qed

lemma no_envelope_replays_all:
  assumes "\<not> has_sync_envelope (rr_entries r)" "rr_entries r \<noteq> []" "\<not> rc_throw cfg"
  shows "fst (replay_wal_entries crc sd cfg ap (apply_dry_replay_filter crc sd cfg r) st g) =
      fst (replay_parsed_entries cfg ap (rr_entries r) st g)"
    "snd (snd (replay_wal_entries crc sd cfg ap (apply_dry_replay_filter crc sd cfg r) st g)) =
      snd (snd (replay_parsed_entries cfg ap (rr_entries r) st g))"
  using assms by (auto simp: replay_wal_entries_def apply_dry_replay_filter_def find_last_consistent_commit_def
      Let_def split: prod.splits sum.splits)

text \<open>
  C32.  A transaction without index intents whose commit record was torn (the cut lying
  in its last 40 bytes) is replayed when it is the first of the log, unless recovery is
  set to throw on replay failures, which it is not by default.  Its entries are read back
  without the commit record and no transaction is
  collected as committed, but since no entry read belongs to the commit protocol the
  log passes for one of the old format: dry replay keeps every entry and recovery
  applies them all.
\<close>

theorem torn_first_transaction_replayed:
  assumes co: "codec_ok co" and fh: "file_header_ok fh" "file_header_is_valid fh"
    and w: "log_rep fh [] w" "w_current_lsn w = fh_start_lsn fh"
    and run: "append_transactions co sd [(tx, entries, [])] w = (Inr (), w')"
    and txs: "loggable co sd (tx, entries, [])" and ne: "entries \<noteq> []"
    and lsn: "fh_start_lsn fh + w_file_used w' < 2 ^ 64"
    and n: "n < w_file_used w'" "w_file_used w' \<le> n + 40" and cfg: "\<not> rc_throw cfg"
  shows "\<exists>r. parse_file co mode verify (take n (the (w_file w'))) = Inr r \<and>
    map entry_request (rr_entries r) = map batch_request (to_batch entries) \<and>
    collect_committed_transactions (co_crc co) sd (rr_entries r) = Inr [] \<and>
    snd (snd (replay_wal_entries (co_crc co) sd cfg ap (apply_dry_replay_filter (co_crc co) sd cfg r) st g)) =
      snd (snd (replay_parsed_entries cfg ap (rr_entries r) st g))"
proof -
  have "w_current_lsn w < 2 ^ 64" using lsn w(2) by simp
  then obtain ws fs where b: "built_ok (co_crc co) sd (tx, entries, []) ws"
    "build_batch co (w_config w) (fh_start_lsn fh) (to_batch ws) = Inr fs" "log_rep fh fs w'"
    using append_transactions_ok [OF w(1) _ run] w(2) by (auto simp: list_all2_Cons1)
  obtain ce where ce: "ws = entries @ [ce]"
    by (rule built_ok_parts [OF b(1)]) simp
  have len: "length fs = length entries + 1" using build_batch_length [OF b(2)] ce by simp
  then obtain fs0 h q where fs: "fs = fs0 @ [(h, q)]" "length fs0 = length entries"
    by (cases fs rule: rev_cases) auto
  have f: "w_file w' = Some (file_header_as_bytes fh @ batch_bytes fs @ replicate (w_file_size w' - w_file_used w') 0)"
    "w_file_used w' = 64 + length (batch_bytes fs)" "length (file_header_as_bytes fh) = 64"
    using b(3) by (auto simp: log_rep_def length_file_header_as_bytes)
  have u: "w_file_used w' = 64 + length (batch_bytes fs0) + 40 + length q"
    using f(2) fs(1) by (simp add: batch_bytes_def length_serialize_record)
  have tk: "take n (the (w_file w')) = file_header_as_bytes fh @ take (n - 64) (batch_bytes fs)"
    using f n u by simp
  obtain r j where r: "parse_file co mode verify (file_header_as_bytes fh @ take (n - 64) (batch_bytes fs)) = Inr r"
    "map entry_request (rr_entries r) = map batch_request (take j (to_batch ws))" "j \<le> length ws"
    "length (batch_bytes (take j fs)) \<le> n - 64"
    "\<forall>m \<le> length ws. length (batch_bytes (take m fs)) \<le> n - 64 \<longrightarrow> m \<le> j"
    using cut_log_reads_prefix [OF co fh _ b(2), of mode verify "n - 64"] lsn f(2) txs b(1)
    by (auto simp: loggable_def)
  have "length entries \<le> j" using r(5) fs u n(2) ce by (auto dest: spec [of _ "length entries"])
  moreover have "j \<noteq> length ws" using r(4) len ce f(2) n u by auto
  ultimately have j: "j = length entries" using r(3) ce by simp
  then have es: "map entry_request (rr_entries r) = reqs entries" using r(2) ce by (simp add: to_batch_def)
  have redo: "list_all (\<lambda>w. redo_op (we_op w)) entries" using txs by (simp add: loggable_def)
  have "list_all (\<lambda>w. we_op w \<notin> {OpTransactionCommit, OpTransactionAbort}) entries"
    using redo by (auto simp: list_all_iff redo_op_def)
  from collect_loop_pending [OF es this, of "co_crc co" sd "[]" "[]" "[]"]
  have "collect_committed_transactions (co_crc co) sd (rr_entries r) = Inr []"
    by (simp add: collect_committed_transactions_def)
  moreover have "rr_entries r \<noteq> []" using es ne by (cases entries) auto
  ultimately show ?thesis
    using r(1) tk es no_envelope_replays_all(2) [OF redo_not_envelope [OF es redo] _ cfg] by auto
qed

definition demo_recovery_config :: recovery_config where
  "demo_recovery_config = \<lparr> rc_mode = AbortOnCorruption, rc_verify_checksum = True, rc_start_lsn = None,
     rc_throw = False \<rparr>"

definition demo_stats :: recovery_stats where
  "demo_stats = \<lparr> rs_replayed = 0, rs_errors = 0, rs_last_lsn = 0, rs_max_timestamp = 0, rs_max_transaction_id = 0 \<rparr>"

definition demo_apply :: "nat replay_op" where
  "demo_apply op p ts n = (Inr (), Suc n)"

theorem torn_first_transaction_replayed_witness:
  "\<exists>w' r. append_transactions demo_codec demo_serde [demo_txn] (demo_writer False) = (Inr (), w') \<and>
     parse_file demo_codec AbortOnCorruption True (take 151 (the (w_file w'))) = Inr r \<and>
     collect_committed_transactions (co_crc demo_codec) demo_serde (rr_entries r) = Inr [] \<and>
     snd (snd (replay_wal_entries (co_crc demo_codec) demo_serde demo_recovery_config demo_apply
       (apply_dry_replay_filter (co_crc demo_codec) demo_serde demo_recovery_config r) demo_stats 0)) = 1"
proof -
  obtain w' where w': "append_transactions demo_codec demo_serde [demo_txn] (demo_writer False) = (Inr (), w')"
    "w_file_used w' = 152" using demo_txn_logged by blast
  define es where "es = fst (snd demo_txn)"
  have t: "demo_txn = (7, es, [])" "es \<noteq> []" "\<not> rc_throw demo_recovery_config"
    by (simp_all add: es_def demo_txn_def demo_recovery_config_def)
  obtain r where r: "parse_file demo_codec AbortOnCorruption True (take 151 (the (w_file w'))) = Inr r"
    "map entry_request (rr_entries r) = reqs es"
    "collect_committed_transactions (co_crc demo_codec) demo_serde (rr_entries r) = Inr []"
    "snd (snd (replay_wal_entries (co_crc demo_codec) demo_serde demo_recovery_config demo_apply
       (apply_dry_replay_filter (co_crc demo_codec) demo_serde demo_recovery_config r) demo_stats 0)) =
     snd (snd (replay_parsed_entries demo_recovery_config demo_apply (rr_entries r) demo_stats 0))"
    using torn_first_transaction_replayed [OF demo_codec_ok demo_file_header_ok(1,2) demo_writer_rep(1) _
        w'(1) [unfolded t(1)] demo_txn_loggable [unfolded t(1)] t(2) _ _ _ t(3), of 151 AbortOnCorruption True demo_apply demo_stats 0]
      w'(2) demo_writer_rep(7) demo_file_header_ok(3) by auto
  obtain e where e: "rr_entries r = [e]" "entry_request e = (0, 5, [1, 2])"
    using r(2) by (auto simp: es_def demo_txn_def)
  have "snd (snd (replay_parsed_entries demo_recovery_config demo_apply (rr_entries r) demo_stats 0)) = 1"
    using e by (simp add: entry_request_eq demo_recovery_config_def demo_apply_def op_try_from_def op_table_def Let_def)
  then show ?thesis using w'(1) r by auto
qed

end
