(* ===== verification/WalOverwrite.thy ===== *)
theory WalOverwrite
  imports WalRecovery
begin

text \<open>
  The two write paths of an asynchronous writer.  Transactions are written directly
  at the writer's own file position (\<open>write_batch_entries\<close>), single entries go to
  the buffer, which is drained at the position of the flush state
  (\<open>writer/local/async_buffer.rs\<close>).  The direct path does not move the second
  position.
\<close>

lemma scan_wrong_prev:
  assumes ok: "frame_ok co prev (h, p)" "prev \<noteq> sc_expected_prev s" and off: "length a = sc_offset s"
  shows "scan_loop env (a @ serialize_record h p @ rest) s = Inl WalCorrupted"
proof -
  have hb: "slice (sc_offset s) 40 (a @ serialize_record h p @ rest) = header_as_bytes h"
    using off slice_prefix [of a _ "header_as_bytes h" 40 "p @ rest"] by (simp add: serialize_record_def)
  have hdr: "header_from_bytes (header_as_bytes h) = Some h" "\<not> is_zero_padding h" "h_prev_lsn h = prev"
    using ok header_roundtrip by (auto simp: frame_ok_def is_zero_padding_def)
  then have "validate_lsn_chain h (sc_expected_prev s) = Inl WalCorrupted"
    using ok(2) by (simp add: validate_lsn_chain_def)
  with hb hdr off show ?thesis
    by (subst scan_loop.simps) (simp add: scan_step_def Let_def WAL_HEADER_SIZE_def length_serialize_record)
qed

lemma async_batch_keeps_flush_state:
  "write_batch_entries co es w = (Inr l, w') \<Longrightarrow>
   w_buffer w' = w_buffer w \<and> w_flush_state w' = w_flush_state w \<and> w_is_open w' = w_is_open w"
  by (auto simp: write_batch_entries_def grow_file_def Let_def split: sum.splits if_splits)

lemma enable_async_flush_fresh:
  assumes "log_rep fh [] w" "w_flush_state w = None" "wc_enable_async_flush (w_config w)"
  shows "log_rep fh [] (enable_async_flush w)" "w_buffer (enable_async_flush w) = Some []"
    "\<exists>n. w_flush_state (enable_async_flush w) = Some \<lparr> fs_offset = 64, fs_file_size = n \<rparr>"
    "w_current_lsn (enable_async_flush w) = w_current_lsn w" "w_config (enable_async_flush w) = w_config w"
  using assms by (auto simp: enable_async_flush_def ensure_flush_state_def log_rep_def)

lemma drain_at_start:
  assumes "w_buffer w = Some bs" "bs \<noteq> []" "w_flush_state w = Some \<lparr> fs_offset = 64, fs_file_size = n \<rparr>"
    "w_file w = Some (hdr @ rest)" "length hdr = 64"
  shows "\<exists>rest'. w_file (snd (flush_buffered_to_file w)) = Some (hdr @ bs @ rest')"
  using assms by (auto simp: flush_buffered_to_file_def ensure_flush_state_def drain_buffer_to_state_def
      syncback_file_used_def write_to_flush_state_def file_write_def set_len_def Let_def)

text \<open>
  C33.  On an asynchronous writer a buffered entry destroys the transactions already
  committed.  A batch written directly on a fresh segment is overwritten from its
  first byte when an entry appended afterwards (a checkpoint marker) is flushed, and
  the segment is then rejected as corrupted in every recovery mode.
\<close>

theorem async_entry_overwrites_batch:
  assumes co: "codec_ok co" and fh: "file_header_ok fh" "file_header_is_valid fh"
    and w: "log_rep fh [] w" "w_flush_state w = None" "w_current_lsn w = fh_start_lsn fh"
      "wc_enable_async_flush (w_config w)" "wc_compression (w_config w) = NoCompression"
    and batch: "write_batch_entries co es (enable_async_flush w) = (Inr l, w1)" "es \<noteq> []"
    and marker: "append_entry co fsync_ok op ts p w1 = (Inr (), w2)" "length p \<le> WAL_MAX_RECORD_SIZE" "ts < 2 ^ 64"
    and lsn: "w_file_used w1 + fh_start_lsn fh + length p < 2 ^ 64"
  shows "parse_file co mode verify (the (w_file (snd (flush_buffered_to_file w2)))) = Inl WalCorrupted"
proof -
  note a = enable_async_flush_fresh [OF w(1,2,4)]
  obtain gs where gs: "build_batch co (w_config w) (fh_start_lsn fh) es = Inr gs" "log_rep fh gs w1"
    "w_current_lsn w1 = (fh_start_lsn fh + length (batch_bytes gs)) mod 2 ^ 64" "w_config w1 = w_config w"
    using write_batch_ok [OF a(1) batch(1)] a(4,5) w(3) by auto
  have "length gs = length es" using build_batch_length [OF gs(1)] .
  then have "40 \<le> length (batch_bytes gs)" using batch(2)
    by (cases gs) (auto simp: length_serialize_record)
  moreover have used: "w_file_used w1 = 64 + length (batch_bytes gs)" using gs(2) by (simp add: log_rep_def)
  ultimately have prev: "w_current_lsn w1 = fh_start_lsn fh + length (batch_bytes gs)"
    "w_current_lsn w1 \<noteq> fh_start_lsn fh" "w_current_lsn w1 + 40 + length p < 2 ^ 64"
    using gs(3) lsn by auto
  let ?h = "build_wal_header co (w_config w) op ts p (w_current_lsn w1) (next_lsn (w_current_lsn w1) p) RFull NoCompression"
  have b1: "w_buffer w1 = Some []" "\<exists>n. w_flush_state w1 = Some \<lparr> fs_offset = 64, fs_file_size = n \<rparr>"
    using async_batch_keeps_flush_state [OF batch(1)] a(2,3) by auto
  then have w2: "w2 = stage_record co op ts p RFull NoCompression w1"
    using marker(1,2) gs(4) w(5) by (auto simp: append_entry_def append_entry_buffered_def compress_def split: sum.splits)
  have b2: "w_buffer w2 = Some (serialize_record ?h p)" "w_file w2 = w_file w1" "w_flush_state w2 = w_flush_state w1"
    using w2 b1(1) gs(4) by (simp_all add: stage_record_def Let_def)
  have "decodes co NoCompression p p" by (simp add: decodes_def)
  then have ok: "frame_ok co (w_current_lsn w1) (?h, p)"
    using build_frame_ok(1) [OF co marker(3) prev(3)] marker(2) max_record_pos(2) by simp
  have "serialize_record ?h p \<noteq> []" using length_serialize_record [of ?h p] by auto
  moreover obtain n where n: "w_flush_state w2 = Some \<lparr> fs_offset = 64, fs_file_size = n \<rparr>" using b1(2) b2(3) by auto
  moreover have "w_file w2 = Some (file_header_as_bytes fh @ batch_bytes gs @ replicate (w_file_size w1 - w_file_used w1) 0)"
    "length (file_header_as_bytes fh) = 64"
    using gs(2) b2(2) by (auto simp: log_rep_def length_file_header_as_bytes)
  ultimately obtain rest where f: "w_file (snd (flush_buffered_to_file w2)) =
      Some (file_header_as_bytes fh @ serialize_record ?h p @ rest)"
    using drain_at_start [OF b2(1)] by blast
  show ?thesis
    using scan_wrong_prev [OF ok, of "scan_init (fh_start_lsn fh)" "file_header_as_bytes fh"] prev(2) f fh(1)
    by (simp add: parse_file_scan [OF fh] parse_wal_file_bytes_def scan_init_def WAL_FILE_HEADER_SIZE_def
        file_header_ok_def length_file_header_as_bytes)
qed

theorem async_entry_overwrites_batch_witness:
  "\<exists>l w1 w2. write_batch_entries demo_codec [(OpInsertVertex, 5, [1, 2])] (enable_async_flush (demo_writer True)) =
       (Inr l, w1) \<and>
     append_entry demo_codec True OpCompact 6 [] w1 = (Inr (), w2) \<and>
     parse_file demo_codec SkipCorruption True (the (w_file (snd (flush_buffered_to_file w2)))) = Inl WalCorrupted"
proof -
  let ?w = "demo_writer True" and ?b = "[(OpInsertVertex, 5, [1, 2])]"
  note d = demo_writer_rep [of True]
  have c: "wc_compression (w_config ?w) = NoCompression" "wc_enable_async_flush (w_config ?w)"
    by (simp_all add: d(4) demo_wal_config_def)
  note a = enable_async_flush_fresh [OF d(1,3) c(2)]
  have "\<exists>gs. build_batch demo_codec (w_config ?w) 0 ?b = Inr gs \<and> length (batch_bytes gs) = 42"
    by (simp add: compress_def c Let_def length_serialize_record)
  moreover have "w_file (enable_async_flush ?w) \<noteq> None" "w_file_used (enable_async_flush ?w) = 64"
    using a(1) by (auto simp: log_rep_def)
  ultimately obtain l w1 where w1: "write_batch_entries demo_codec ?b (enable_async_flush ?w) = (Inr l, w1)"
    "w_file_used w1 = 106" using a(4,5) d(7) by (auto simp: write_batch_entries_def Let_def)
  have "w_is_open (enable_async_flush ?w)" "\<not> w_poisoned (enable_async_flush ?w)"
    using d(5,6) by (simp_all add: enable_async_flush_def ensure_flush_state_def)
  then have k: "w_buffer w1 = Some []" "w_is_open w1" "\<not> w_poisoned w1" "w_config w1 = w_config ?w"
    using async_batch_keeps_flush_state [OF w1(1)] write_batch_ok [OF a(1) w1(1)] a(2,5) by auto
  then obtain w2 where w2: "append_entry demo_codec True OpCompact 6 [] w1 = (Inr (), w2)"
    using c(1) by (auto simp: append_entry_def append_entry_buffered_def check_writable_def check_poisoned_def compress_def)
  from async_entry_overwrites_batch [OF demo_codec_ok demo_file_header_ok(1,2) d(1,3) _ c(2,1) w1(1) _ w2]
  show ?thesis using d(7) demo_file_header_ok(3) w1 w2 by auto
qed

end
