(* ===== verification/WalTotal.thy ===== *)
theory WalTotal
  imports WalLog
begin

text \<open>
  What the scan of \<open>parser/scan.rs\<close> guarantees on arbitrary bytes, damaged ones
  included: it ends, within a bound on the number of rounds of its loop, and every
  entry it returns is well formed.
\<close>

subsection \<open>The loop ends\<close>

fun scan_rounds :: "nat \<Rightarrow> scan_env \<Rightarrow> byte list \<Rightarrow> scan_state \<Rightarrow> (wal_error, recovery_result) result option" where
  "scan_rounds 0 env buffer s = None"
| "scan_rounds (Suc n) env buffer s = (case scan_step env buffer s of
      ScanDone r \<Rightarrow> Some r
    | ScanNext s' \<Rightarrow> scan_rounds n env buffer s')"

lemma scan_rounds_enough:
  "length buffer < sc_offset s + n \<Longrightarrow> scan_rounds n env buffer s = Some (scan_loop env buffer s) \<or> n = 0"
proof (induction n arbitrary: s)
  case (Suc n)
  show ?case
  proof (cases "scan_step env buffer s")
    case (ScanNext s')
    from scan_step_progress [OF this] have p: "sc_offset s < sc_offset s'" "sc_offset s + 40 \<le> length buffer"
      by (simp_all add: WAL_HEADER_SIZE_def)
    have "scan_rounds n env buffer s' = Some (scan_loop env buffer s')"
      using Suc.IH [of s'] Suc.prems p by (cases n) auto
    then show ?thesis using ScanNext by (subst scan_loop.simps) simp
  qed (subst scan_loop.simps, simp)
qed simp

text \<open>
  C15.  Reading a log ends on every input.  Whatever bytes a segment holds, in every
  recovery mode, the scan loop returns within as many rounds as the segment has bytes.
\<close>

theorem wal_scan_terminates:
  "\<exists>n \<le> length buffer. scan_rounds (Suc n) \<lparr> se_codec = co, se_file_start_lsn = start, se_mode = mode, se_verify_checksum = verify \<rparr>
     buffer (scan_init start) = Some (parse_wal_file_bytes co mode verify start buffer)"
  using scan_rounds_enough [of buffer "scan_init start" "Suc (length buffer)"]
  by (intro exI [of _ "length buffer"]) (simp add: parse_wal_file_bytes_def)

subsection \<open>What is returned is well formed\<close>

definition typed_header :: "wal_header \<Rightarrow> bool" where
  "typed_header h \<longleftrightarrow> header_ok h \<and> (\<exists>op. op_try_from (h_op_type h) = Inr op)"

definition typed_entry :: "parsed_entry \<Rightarrow> bool" where
  "typed_entry e \<longleftrightarrow> typed_header (pe_header e) \<and> pe_lsn e = h_lsn (pe_header e) \<and>
     pe_prev_lsn e = h_prev_lsn (pe_header e)"

definition typed_scan :: "fragment_buffer \<Rightarrow> recovery_result \<Rightarrow> bool" where
  "typed_scan fb r \<longleftrightarrow> (\<forall>h. first_header fb = Some h \<longrightarrow> typed_header h) \<and> list_all typed_entry (rr_entries r)"

lemma le_val_slice_less: "le_val (slice off k bs) < 256 ^ k"
proof -
  have "le_val (slice off k bs) < 256 ^ length (slice off k bs)"
    using be_val_bound [of "rev (slice off k bs)"] by (simp add: le_val_def)
  moreover have "length (slice off k bs) \<le> k" by (simp add: slice_def)
  ultimately show ?thesis by (meson less_le_trans one_le_numeral power_increasing)
qed

lemma header_from_bytes_ok: "header_from_bytes bs = Some h \<Longrightarrow> header_ok h"
  using le_val_slice_less [of 0 4 bs] le_val_slice_less [of 8 2 bs] le_val_slice_less [of 10 8 bs]
    le_val_slice_less [of 18 8 bs] le_val_slice_less [of 26 8 bs] le_val_slice_less [of 34 4 bs] unat_bound [of "bs ! 4"]
  by (auto simp: header_from_bytes_def header_ok_def split: if_splits option.splits)

lemma typed_push:
  "typed_scan fb r \<Longrightarrow> typed_header h \<Longrightarrow> typed_scan fb' (push_entry (parsed_of start off h p) r) \<longleftrightarrow>
   (\<forall>h. first_header fb' = Some h \<longrightarrow> typed_header h)"
  by (auto simp: typed_scan_def push_entry_def typed_entry_def parsed_of_def)

lemma typed_add_fragment:
  "\<lbrakk> typed_scan fb r; typed_header h; add_fragment h p fb = (b, fb') \<rbrakk> \<Longrightarrow> typed_scan fb' r"
  by (auto simp: typed_scan_def add_fragment_def fragment_new_def split: record_type.splits if_splits)

lemma typed_absorb:
  assumes t: "typed_scan fb r" "typed_header h" and a: "absorb_record start off h p (fb, r) = (fb', r')"
  shows "typed_scan fb' r'"
proof (cases "h_record_type h = RFull")
  case True
  with a t typed_push [OF t] show ?thesis by (auto simp: absorb_record_def typed_scan_def)
next
  case False
  obtain b fb1 where f: "add_fragment h p fb = (b, fb1)" by force
  have t1: "typed_scan fb1 r" by (rule typed_add_fragment [OF t f])
  then have "typed_header (case first_header fb1 of Some h1 \<Rightarrow> h1 | None \<Rightarrow> h)"
    using t(2) by (auto simp: typed_scan_def split: option.splits)
  with typed_push [OF t1 this, of fragment_new] t1 False f a show ?thesis
    by (cases b) (auto simp: absorb_record_def fragment_new_def)
qed

lemma typed_count [simp]: "typed_scan fb (count_corrupted r) = typed_scan fb r"
  by (simp add: typed_scan_def count_corrupted_def)

lemma typed_scan_step:
  assumes t: "typed_scan (sc_fragments s) (sc_result s)"
  shows "case scan_step env buffer s of
      ScanDone (Inr r) \<Rightarrow> list_all typed_entry (rr_entries r)
    | ScanDone (Inl e) \<Rightarrow> True
    | ScanNext s' \<Rightarrow> typed_scan (sc_fragments s') (sc_result s')"
proof -
  have skip: "case skip_or_abort env e off s of
      ScanDone (Inr r) \<Rightarrow> list_all typed_entry (rr_entries r)
    | ScanDone (Inl e) \<Rightarrow> True
    | ScanNext s' \<Rightarrow> typed_scan (sc_fragments s') (sc_result s')" for e off
    using t by (simp add: skip_or_abort_def)
  have es: "list_all typed_entry (rr_entries (sc_result s))" "list_all typed_entry (rr_entries (count_corrupted (sc_result s)))"
    using t by (simp_all add: typed_scan_def count_corrupted_def)
  show ?thesis
  proof (cases "header_from_bytes (slice (sc_offset s) WAL_HEADER_SIZE buffer)")
    case None
    then show ?thesis using es skip by (simp add: scan_step_def Let_def)
  next
    case (Some h)
    note ok = header_from_bytes_ok [OF Some]
    have "typed_scan fb r" if "op_try_from (h_op_type h) = Inr op"
      "absorb_record start off h p (sc_fragments s, sc_result s) = (fb, r)" for op start off p fb r
      using typed_absorb [OF t _ that(2)] ok that(1) by (simp add: typed_header_def)
    then show ?thesis using es skip Some
      by (auto simp: scan_step_def Let_def split: option.split sum.split prod.split)
  qed
qed

lemma typed_scan_loop:
  "typed_scan (sc_fragments s) (sc_result s) \<Longrightarrow> scan_loop env buffer s = Inr r \<Longrightarrow> list_all typed_entry (rr_entries r)"
proof (induction env buffer s rule: scan_loop.induct)
  case (1 env buffer s)
  note step = typed_scan_step [OF 1(2), of env buffer]
  show ?case
  proof (cases "scan_step env buffer s")
    case (ScanDone x)
    then have "x = Inr r" using 1(3) by (subst (asm) scan_loop.simps) simp
    then show ?thesis using step ScanDone by simp
  next
    case (ScanNext s')
    then have "scan_loop env buffer s' = Inr r" using 1(3) by (subst (asm) scan_loop.simps) simp
    then show ?thesis using 1(1) [OF ScanNext] step ScanNext by simp
  qed
qed

text \<open>
  C40.  Every entry read is well typed.  Whatever bytes a segment holds and whatever the
  decompressor returns, each entry of a successful parse has a header whose fields fit
  their widths and whose operation code is one of the defined operations, and its
  sequence numbers are those of the header.
\<close>

theorem parsed_entries_typed:
  assumes "parse_file co mode verify buffer = Inr r"
  shows "list_all typed_entry (rr_entries r)"
proof -
  have init: "typed_scan (sc_fragments (scan_init start)) (sc_result (scan_init start))" for start
    by (simp add: typed_scan_def scan_init_def fragment_new_def recovery_default_def)
  from assms show ?thesis
    using typed_scan_loop [OF init]
    by (auto simp: parse_file_def parse_wal_file_bytes_def recovery_default_def split: sum.splits option.splits)
qed

theorem parsed_entries_typed_witness:
  "\<exists>bs r. parse_file demo_codec AbortOnCorruption True bs = Inr r \<and> rr_entries r \<noteq> [] \<and>
     list_all typed_entry (rr_entries r)"
proof -
  let ?fh = "with_checksum_enabled True (file_header_new 1 2 3 0 0 0)" and ?es = "[(OpCompact, 5, [1, 2])]"
  obtain fs where fs: "build_batch demo_codec (demo_wal_config False) (fh_start_lsn ?fh) ?es = Inr fs"
    "length (batch_bytes fs) = 42"
    by (simp add: compress_def demo_wal_config_def Let_def length_serialize_record)
  obtain r j where r: "parse_file demo_codec AbortOnCorruption True
      (file_header_as_bytes ?fh @ take 42 (batch_bytes fs)) = Inr r"
    "map entry_request (rr_entries r) = map batch_request (take j ?es)"
    "\<forall>m \<le> length ?es. length (batch_bytes (take m fs)) \<le> 42 \<longrightarrow> m \<le> j"
    using cut_log_reads_prefix [OF demo_codec_ok demo_file_header_ok(1,2) _ fs(1), of AbortOnCorruption True 42]
      demo_file_header_ok(3) fs(2) by (auto simp: readable_batch_def MAX_PAYLOAD_LENGTH_def)
  have "length (batch_bytes (take 1 fs)) \<le> 42"
    using fs(2) by (metis append_take_drop_id batch_bytes_simps(3) le_add1 length_append)
  then have "1 \<le> j" using r(3) by auto
  then have "rr_entries r \<noteq> []" using r(2) by (cases j) auto
  with r(1) parsed_entries_typed [OF r(1)] show ?thesis by blast
qed

end
