(* ===== verification/Certifier.thy ===== *)
theory Certifier
  imports TxnContext
begin

text \<open>
  Write-set certification of \<open>linkrs-transaction/src/certify.rs\<close>: the committed
  write sets, the four conflict indices (\<open>certify/conflict_index.rs\<close>), the read
  locks of serializable transactions (\<open>certify/ssi_tracker.rs\<close>), the pre-check
  (\<open>certify/check.rs\<close>) and publication, forced publication and pruning
  (\<open>certify/publish.rs\<close>).  The table of active transactions is the list in which
  its iterator visits them.  The conflict counter bumped on an error is the one of the
  conflict kind the error carries, so it is not kept apart.
\<close>

subsection \<open>Conflict indices\<close>

datatype conflict_type = WriteWrite | ReadWrite | PhantomConflict | SchemaGeneration | IndexGeneration

datatype cert_error = CertNotFound | CertConflict conflict_type

type_synonym 'r conflict_index = "'r \<rightharpoonup> (timestamp \<times> txn_id) list"

definition conflicts_after :: "'r conflict_index \<Rightarrow> 'r \<Rightarrow> timestamp \<Rightarrow> bool" where
  "conflicts_after idx r since = (case idx r of
      None \<Rightarrow> False
    | Some l \<Rightarrow> list_ex (\<lambda>(ts, _). since < ts) l)"

definition index_add :: "timestamp \<Rightarrow> txn_id \<Rightarrow> (timestamp \<times> txn_id) list option \<Rightarrow> (timestamp \<times> txn_id) list option" where
  "index_add ts t entry = (let l = (case entry of None \<Rightarrow> [] | Some l \<Rightarrow> l)
     in Some (if (ts, t) \<in> set l then l else l @ [(ts, t)]))"

definition index_add_all :: "'r set \<Rightarrow> timestamp \<Rightarrow> txn_id \<Rightarrow> 'r conflict_index \<Rightarrow> 'r conflict_index" where
  "index_add_all rs ts t idx = (\<lambda>r. if r \<in> rs then index_add ts t (idx r) else idx r)"

definition retain_entries :: "('a \<Rightarrow> bool) \<Rightarrow> ('r \<rightharpoonup> 'a list) \<Rightarrow> 'r \<rightharpoonup> 'a list" where
  "retain_entries keep m = (\<lambda>r. case m r of
      None \<Rightarrow> None
    | Some l \<Rightarrow> let l' = filter keep l in if l' = [] then None else Some l')"

definition index_prune :: "timestamp \<Rightarrow> 'r conflict_index \<Rightarrow> 'r conflict_index" where
  "index_prune oldest idx = retain_entries (\<lambda>(ts, _). oldest < ts) idx"

subsection \<open>Read locks\<close>

type_synonym ssi_tracker = "resource_id \<rightharpoonup> (txn_id \<times> timestamp) list"

definition register_txn_reads :: "txn_id \<Rightarrow> timestamp \<Rightarrow> write_set \<Rightarrow> ssi_tracker \<Rightarrow> ssi_tracker" where
  "register_txn_reads t start rs locks = (\<lambda>r. if r \<in> ssi_resources rs
     then Some ((case locks r of None \<Rightarrow> [] | Some l \<Rightarrow> l) @ [(t, start)]) else locks r)"

definition readers :: "ssi_tracker \<Rightarrow> resource_id \<Rightarrow> (txn_id \<times> timestamp) list" where
  "readers locks r = (case locks r of None \<Rightarrow> [] | Some l \<Rightarrow> l)"

definition tracker_unregister_reads :: "txn_id \<Rightarrow> ssi_tracker \<Rightarrow> ssi_tracker" where
  "tracker_unregister_reads t locks = retain_entries (\<lambda>(i, _). i \<noteq> t) locks"

definition tracker_prune :: "timestamp \<Rightarrow> ssi_tracker \<Rightarrow> ssi_tracker" where
  "tracker_prune oldest locks = retain_entries (\<lambda>(_, ts). oldest < ts) locks"

subsection \<open>The certifier\<close>

record certifier =
  committed_write_sets :: "(timestamp, write_set list) bmap"
  vertex_writes :: "vertex_id conflict_index"
  edge_writes :: "edge_identifier conflict_index"
  schema_writes :: "string conflict_index"
  index_writes :: "string conflict_index"
  read_locks :: ssi_tracker
  prune_countdown :: nat

definition PRUNE_INTERVAL :: nat where
  "PRUNE_INTERVAL = 64"

definition certifier_new :: certifier where
  "certifier_new = \<lparr> committed_write_sets = [], vertex_writes = Map.empty, edge_writes = Map.empty,
     schema_writes = Map.empty, index_writes = Map.empty, read_locks = Map.empty, prune_countdown = 1 \<rparr>"

definition committed_after :: "timestamp \<Rightarrow> certifier \<Rightarrow> write_set list" where
  "committed_after start c = concat (map snd (bm_above start (committed_write_sets c)))"

type_synonym 'v active_table = "(txn_id \<times> 'v transaction_context) list"

fun scan_active_transactions ::
  "txn_id \<Rightarrow> 'v transaction_context \<Rightarrow> bool \<Rightarrow> write_set \<Rightarrow> 'v active_table \<Rightarrow> (conflict_type, unit) result" where
  "scan_active_transactions t ctx serializable rs [] = Inr ()"
| "scan_active_transactions t ctx serializable rs ((other, octx) # rest) =
     (if other = t then scan_active_transactions t ctx serializable rs rest
      else if read_only octx then scan_active_transactions t ctx serializable rs rest
      else if \<not> write_validated octx then scan_active_transactions t ctx serializable rs rest
      else if has_conflict_with (txn_write_set ctx) (txn_write_set octx) then Inl WriteWrite
      else if serializable \<and> has_conflict_with rs (txn_write_set octx) then Inl ReadWrite
      else scan_active_transactions t ctx serializable rs rest)"

definition probe_committed_writes :: "timestamp \<Rightarrow> write_set \<Rightarrow> certifier \<Rightarrow> (conflict_type, unit) result" where
  "probe_committed_writes start ws c =
     (if \<exists>v \<in> vertices ws. conflicts_after (vertex_writes c) v start then Inl WriteWrite
      else if \<exists>e \<in> edges ws. conflicts_after (edge_writes c) e start then Inl WriteWrite
      else if \<exists>r \<in> schema_resources ws. conflicts_after (schema_writes c) r start then Inl SchemaGeneration
      else if \<exists>r \<in> index_resources ws. conflicts_after (index_writes c) r start then Inl IndexGeneration
      else Inr ())"

definition probe_committed_reads :: "timestamp \<Rightarrow> write_set \<Rightarrow> certifier \<Rightarrow> (conflict_type, unit) result" where
  "probe_committed_reads start rs c =
     (if \<exists>v \<in> vertices rs. conflicts_after (vertex_writes c) v start then Inl ReadWrite
      else if \<exists>e \<in> edges rs. conflicts_after (edge_writes c) e start then Inl ReadWrite
      else if \<exists>r \<in> schema_resources rs. conflicts_after (schema_writes c) r start then Inl SchemaGeneration
      else if \<exists>r \<in> index_resources rs. conflicts_after (index_writes c) r start then Inl IndexGeneration
      else Inr ())"

definition check_range_phantoms_and_full_scan ::
  "'v transaction_context \<Rightarrow> write_set \<Rightarrow> certifier \<Rightarrow> (conflict_type, unit) result" where
  "check_range_phantoms_and_full_scan ctx rs c = (let newer = committed_after (start_timestamp ctx) c in
     if read_ranges rs \<noteq> [] \<and> list_ex (has_read_range_conflict_with rs) newer then Inl PhantomConflict
     else (case cfg_full_scan_threshold (config ctx) of
       None \<Rightarrow> Inr ()
     | Some limit \<Rightarrow>
         if limit \<le> ws_size rs + length (read_ranges rs) \<and> list_ex (has_read_conflict_with rs) newer
         then Inl PhantomConflict else Inr ()))"

definition detect_dangerous_structures ::
  "txn_id \<Rightarrow> 'v transaction_context \<Rightarrow> write_set \<Rightarrow> 'v active_table \<Rightarrow> certifier \<Rightarrow> (conflict_type, unit) result" where
  "detect_dangerous_structures t ctx ws active c =
     (if \<exists>r \<in> ssi_resources ws. list_ex (\<lambda>(reader, rstart).
          reader \<noteq> t \<and> rstart < start_timestamp ctx \<and>
          (case map_of active reader of
             None \<Rightarrow> False
           | Some rctx \<Rightarrow> \<not> read_only rctx \<and> write_validated rctx \<and>
               (\<exists>q \<in> read_resources (ctx_ssi_state ctx). q \<in> ssi_resources (txn_write_set rctx))))
          (readers (read_locks c) r)
      then Inl ReadWrite else Inr ())"

definition mark_validated :: "txn_id \<Rightarrow> 'v active_table \<Rightarrow> 'v active_table" where
  "mark_validated t active = map (\<lambda>(i, ctx). (i, if i = t then mark_write_validated ctx else ctx)) active"

definition check_write_set_conflict ::
  "txn_id \<Rightarrow> 'v active_table \<Rightarrow> certifier \<Rightarrow> (cert_error, unit) result \<times> 'v active_table \<times> certifier" where
  "check_write_set_conflict t active c = (case map_of active t of
      None \<Rightarrow> (Inl CertNotFound, active, c)
    | Some ctx \<Rightarrow>
        let ws = txn_write_set ctx; rs = txn_read_set ctx;
            serializable = (cfg_isolation_level (config ctx) = Serializable) in
        if read_only ctx \<and> (\<not> serializable \<or> ws_is_empty rs) then (Inr (), active, c)
        else if cfg_concurrency_mode (config ctx) = SingleWriter then (Inr (), mark_validated t active, c)
        else if ws_is_empty ws \<and> (\<not> serializable \<or> ws_is_empty rs) \<and> \<not> read_only ctx then (Inr (), active, c)
        else let c1 = (if serializable
                       then c\<lparr> read_locks := register_txn_reads t (start_timestamp ctx) rs (read_locks c) \<rparr> else c);
                 verdict = bind_result (scan_active_transactions t ctx serializable rs active) (\<lambda>_.
                   bind_result (probe_committed_writes (start_timestamp ctx) ws c1) (\<lambda>_.
                     if serializable
                     then bind_result (probe_committed_reads (start_timestamp ctx) rs c1) (\<lambda>_.
                       bind_result (check_range_phantoms_and_full_scan ctx rs c1) (\<lambda>_.
                         detect_dangerous_structures t ctx ws active c1))
                     else Inr ()))
             in case verdict of
                  Inl k \<Rightarrow> (Inl (CertConflict k), active, c1)
                | Inr _ \<Rightarrow> (Inr (), mark_validated t active, c1))"

subsection \<open>Publication and pruning\<close>

definition index_write_set :: "txn_id \<Rightarrow> timestamp \<Rightarrow> write_set \<Rightarrow> certifier \<Rightarrow> certifier" where
  "index_write_set t ts ws c = c\<lparr>
     vertex_writes := index_add_all (vertices ws) ts t (vertex_writes c),
     edge_writes := index_add_all (edges ws) ts t (edge_writes c),
     schema_writes := index_add_all (schema_resources ws) ts t (schema_writes c),
     index_writes := index_add_all (index_resources ws) ts t (index_writes c) \<rparr>"

definition unregister_reads :: "txn_id \<Rightarrow> certifier \<Rightarrow> certifier" where
  "unregister_reads t c = c\<lparr> read_locks := tracker_unregister_reads t (read_locks c) \<rparr>"

definition push_committed :: "timestamp \<Rightarrow> write_set \<Rightarrow> certifier \<Rightarrow> certifier" where
  "push_committed ts ws c = c\<lparr> committed_write_sets := bm_insert ts
     ((case bm_get (committed_write_sets c) ts of None \<Rightarrow> [] | Some sets \<Rightarrow> sets) @ [ws]) (committed_write_sets c) \<rparr>"

definition review_active :: "txn_id \<Rightarrow> write_set \<Rightarrow> 'v active_table \<Rightarrow> bool" where
  "review_active t ws active \<longleftrightarrow> list_all (\<lambda>(other, octx).
     other = t \<or> read_only octx \<or> \<not> write_validated octx \<or> \<not> has_conflict_with ws (txn_write_set octx)) active"

definition publish ::
  "txn_id \<Rightarrow> timestamp \<Rightarrow> timestamp \<Rightarrow> write_set \<Rightarrow> 'v active_table \<Rightarrow> certifier
   \<Rightarrow> (cert_error, unit) result \<times> certifier" where
  "publish t write_ts start ws active c =
     (if ws_is_empty ws then (Inr (), unregister_reads t c)
      else if \<not> review_active t ws active then (Inl (CertConflict WriteWrite), c)
      else if list_ex (has_conflict_with ws) (committed_after start c) then (Inl (CertConflict WriteWrite), c)
      else (Inr (), unregister_reads t (index_write_set t write_ts ws (push_committed write_ts ws c))))"

definition force_publish :: "txn_id \<Rightarrow> timestamp \<Rightarrow> write_set \<Rightarrow> certifier \<Rightarrow> certifier" where
  "force_publish t commit_ts ws c =
     (if ws_is_empty ws then unregister_reads t c
      else if (case bm_get (committed_write_sets c) commit_ts of None \<Rightarrow> False | Some sets \<Rightarrow> ws \<in> set sets)
      then unregister_reads t c
      else unregister_reads t (index_write_set t commit_ts ws (push_committed commit_ts ws c)))"

definition certifier_prune :: "timestamp \<Rightarrow> certifier \<Rightarrow> certifier" where
  "certifier_prune oldest c = (let previous = prune_countdown c;
       c1 = c\<lparr> prune_countdown := (if previous \<le> 1 then PRUNE_INTERVAL else previous - 1) \<rparr>
     in if previous > 1 then c1
        else c1\<lparr> committed_write_sets := bm_retain (\<lambda>ts _. oldest < ts) (committed_write_sets c1),
                 vertex_writes := index_prune oldest (vertex_writes c1),
                 edge_writes := index_prune oldest (edge_writes c1),
                 schema_writes := index_prune oldest (schema_writes c1),
                 index_writes := index_prune oldest (index_writes c1),
                 read_locks := tracker_prune oldest (read_locks c1) \<rparr>)"

subsection \<open>The indices agree with the committed write sets\<close>

definition index_ok :: "(write_set \<Rightarrow> 'r set) \<Rightarrow> 'r conflict_index \<Rightarrow> (timestamp, write_set list) bmap \<Rightarrow> bool" where
  "index_ok sel idx m \<longleftrightarrow> (\<forall>r ts. (\<exists>t l. idx r = Some l \<and> (ts, t) \<in> set l) \<longleftrightarrow>
     (\<exists>sets ws. bm_get m ts = Some sets \<and> ws \<in> set sets \<and> r \<in> sel ws))"

definition cert_ok :: "certifier \<Rightarrow> bool" where
  "cert_ok c \<longleftrightarrow> bm_ok (committed_write_sets c) \<and>
     index_ok vertices (vertex_writes c) (committed_write_sets c) \<and>
     index_ok edges (edge_writes c) (committed_write_sets c) \<and>
     index_ok schema_resources (schema_writes c) (committed_write_sets c) \<and>
     index_ok index_resources (index_writes c) (committed_write_sets c)"

definition pushed :: "timestamp \<Rightarrow> write_set \<Rightarrow> (timestamp, write_set list) bmap \<Rightarrow> (timestamp, write_set list) bmap" where
  "pushed ts ws m = bm_insert ts ((case bm_get m ts of None \<Rightarrow> [] | Some sets \<Rightarrow> sets) @ [ws]) m"

lemma index_add_mem:
  "(\<exists>l. index_add ts t e = Some l \<and> x \<in> set l) \<longleftrightarrow> x = (ts, t) \<or> (\<exists>l. e = Some l \<and> x \<in> set l)"
  by (cases e) (auto simp: index_add_def Let_def)

lemma index_ok_pushed:
  assumes "index_ok sel idx m"
  shows "index_ok sel (index_add_all (sel ws) ts t idx) (pushed ts ws m)"
proof -
  have "(\<exists>t' l. index_add_all (sel ws) ts t idx r = Some l \<and> (ts', t') \<in> set l) \<longleftrightarrow>
      (r \<in> sel ws \<and> ts' = ts) \<or> (\<exists>t' l. idx r = Some l \<and> (ts', t') \<in> set l)" for r ts'
    using index_add_mem [of ts t "idx r"] by (auto simp: index_add_all_def)
  moreover have "(\<exists>sets u. bm_get (pushed ts ws m) ts' = Some sets \<and> u \<in> set sets \<and> r \<in> sel u) \<longleftrightarrow>
      (r \<in> sel ws \<and> ts' = ts) \<or> (\<exists>sets u. bm_get m ts' = Some sets \<and> u \<in> set sets \<and> r \<in> sel u)" for r ts'
    by (cases "bm_get m ts") (auto simp: pushed_def)
  ultimately show ?thesis using assms by (simp add: index_ok_def)
qed

lemma retain_entries_mem:
  "(\<exists>l. retain_entries keep m r = Some l \<and> x \<in> set l) \<longleftrightarrow> keep x \<and> (\<exists>l. m r = Some l \<and> x \<in> set l)"
  by (cases "m r") (auto simp: retain_entries_def Let_def filter_empty_conv)

lemma index_ok_prune:
  assumes "index_ok sel idx m" "bm_ok m"
  shows "index_ok sel (index_prune oldest idx) (bm_retain (\<lambda>ts _. oldest < ts) m)"
proof -
  have "(\<exists>t l. index_prune oldest idx r = Some l \<and> (ts, t) \<in> set l) \<longleftrightarrow>
      oldest < ts \<and> (\<exists>t l. idx r = Some l \<and> (ts, t) \<in> set l)" for r ts
    using retain_entries_mem [of "\<lambda>(ts, _). oldest < ts" idx r] by (auto simp: index_prune_def)
  then show ?thesis using assms
    by (auto simp: index_ok_def bm_get_retain split: option.splits)
qed

lemma committed_after_iff:
  "bm_ok (committed_write_sets c) \<Longrightarrow> ws \<in> set (committed_after s c) \<longleftrightarrow>
   (\<exists>ts sets. s < ts \<and> bm_get (committed_write_sets c) ts = Some sets \<and> ws \<in> set sets)"
  by (auto simp: committed_after_def bm_above_def bm_ok_get)

lemma conflicts_after_iff:
  assumes "index_ok sel idx (committed_write_sets c)" "bm_ok (committed_write_sets c)"
  shows "conflicts_after idx r s \<longleftrightarrow> (\<exists>ws \<in> set (committed_after s c). r \<in> sel ws)"
proof -
  have "conflicts_after idx r s \<longleftrightarrow> (\<exists>ts. s < ts \<and> (\<exists>t l. idx r = Some l \<and> (ts, t) \<in> set l))"
    by (auto simp: conflicts_after_def list_ex_iff split: option.splits)
  also have "\<dots> \<longleftrightarrow> (\<exists>ts. s < ts \<and> (\<exists>sets ws. bm_get (committed_write_sets c) ts = Some sets \<and> ws \<in> set sets \<and> r \<in> sel ws))"
    using assms(1) by (simp add: index_ok_def)
  finally show ?thesis using committed_after_iff [OF assms(2)] by blast
qed

lemma cert_ok_frame [simp]:
  "cert_ok (c\<lparr> read_locks := l \<rparr>) = cert_ok c" "cert_ok (c\<lparr> prune_countdown := n \<rparr>) = cert_ok c"
  by (simp_all add: cert_ok_def)

lemma cert_ok_unregister [simp]: "cert_ok (unregister_reads t c) = cert_ok c"
  by (simp add: unregister_reads_def)

lemma committed_unregister [simp]: "committed_write_sets (unregister_reads t c) = committed_write_sets c"
  by (simp add: unregister_reads_def)

lemma committed_index_push [simp]:
  "committed_write_sets (index_write_set t ts ws (push_committed ts ws c)) = pushed ts ws (committed_write_sets c)"
  by (simp add: index_write_set_def push_committed_def pushed_def)

lemma bm_ok_pushed [simp]: "bm_ok m \<Longrightarrow> bm_ok (pushed ts ws m)"
  by (simp add: pushed_def)

lemma push_fields [simp]:
  "vertex_writes (index_write_set t ts ws (push_committed ts ws c)) = index_add_all (vertices ws) ts t (vertex_writes c)"
  "edge_writes (index_write_set t ts ws (push_committed ts ws c)) = index_add_all (edges ws) ts t (edge_writes c)"
  "schema_writes (index_write_set t ts ws (push_committed ts ws c)) = index_add_all (schema_resources ws) ts t (schema_writes c)"
  "index_writes (index_write_set t ts ws (push_committed ts ws c)) = index_add_all (index_resources ws) ts t (index_writes c)"
  by (simp_all add: index_write_set_def push_committed_def)

lemma cert_ok_push: "cert_ok c \<Longrightarrow> cert_ok (index_write_set t ts ws (push_committed ts ws c))"
  by (simp add: cert_ok_def index_ok_pushed)

lemma cert_ok_new: "cert_ok certifier_new"
  by (simp add: cert_ok_def certifier_new_def index_ok_def)

lemma cert_ok_publish: "publish t ts s ws active c = (r, c') \<Longrightarrow> cert_ok c \<Longrightarrow> cert_ok c'"
  by (auto simp: publish_def cert_ok_push split: if_splits)

lemma cert_ok_force_publish: "cert_ok c \<Longrightarrow> cert_ok (force_publish t ts ws c)"
  by (simp add: force_publish_def cert_ok_push)

lemma cert_ok_prune: "cert_ok c \<Longrightarrow> cert_ok (certifier_prune oldest c)"
  by (simp add: cert_ok_def certifier_prune_def Let_def index_ok_prune)

lemma check_changes_locks_only:
  "check_write_set_conflict t active c = (r, active', c') \<Longrightarrow> \<exists>l. c' = c\<lparr> read_locks := l \<rparr>"
  by (auto simp: check_write_set_conflict_def Let_def split: option.splits if_splits sum.splits
      intro: exI [of _ "read_locks c"])

subsection \<open>Runs of the certifier\<close>

inductive cert_run ::
  "timestamp \<Rightarrow> (timestamp \<times> timestamp \<times> write_set) list \<Rightarrow> 'v active_table \<Rightarrow> certifier \<Rightarrow> bool" where
  cert_start: "cert_run 0 [] [] certifier_new"
| cert_active: "cert_run low h active c \<Longrightarrow> cert_run low h active' c"
| cert_check: "\<lbrakk> cert_run low h active c; check_write_set_conflict t active c = (r, active', c') \<rbrakk> \<Longrightarrow>
     cert_run low h active' c'"
| cert_publish: "\<lbrakk> cert_run low h active c; publish t commit_ts start ws active c = (Inr (), c'); ws_wf ws;
     low \<le> start; start < commit_ts \<rbrakk> \<Longrightarrow> cert_run low (h @ [(start, commit_ts, ws)]) active c'"
| cert_reject: "\<lbrakk> cert_run low h active c; publish t commit_ts start ws active c = (Inl e, c') \<rbrakk> \<Longrightarrow>
     cert_run low h active c'"
| cert_force: "cert_run low h active c \<Longrightarrow> cert_run low h active (force_publish t commit_ts ws c)"
| cert_unregister: "cert_run low h active c \<Longrightarrow> cert_run low h active (unregister_reads t c)"
| cert_prune: "cert_run low h active c \<Longrightarrow> cert_run (max low oldest) h active (certifier_prune oldest c)"

definition history_kept :: "timestamp \<Rightarrow> (timestamp \<times> timestamp \<times> write_set) list \<Rightarrow> certifier \<Rightarrow> bool" where
  "history_kept low h c \<longleftrightarrow> (\<forall>(s, ts, ws) \<in> set h. s < ts \<and> (ws_wf ws \<and> ws_is_empty ws \<or> ts \<le> low \<or>
     (\<exists>sets. bm_get (committed_write_sets c) ts = Some sets \<and> ws \<in> set sets)))"

lemma pushed_keeps:
  "bm_get m ts' = Some sets \<Longrightarrow> u \<in> set sets \<Longrightarrow> \<exists>sets'. bm_get (pushed ts ws m) ts' = Some sets' \<and> u \<in> set sets'"
  "\<exists>sets'. bm_get (pushed ts ws m) ts = Some sets' \<and> ws \<in> set sets'"
  by (auto simp: pushed_def split: option.splits)

lemma history_kept_pushed:
  "history_kept low h c \<Longrightarrow> committed_write_sets c' = pushed ts ws (committed_write_sets c) \<Longrightarrow> history_kept low h c'"
  using pushed_keeps(1) by (fastforce simp: history_kept_def)

lemma history_kept_same:
  "history_kept low h c \<Longrightarrow> committed_write_sets c' = committed_write_sets c \<Longrightarrow> history_kept low h c'"
  by (simp add: history_kept_def)

lemma history_kept_snoc:
  "history_kept low (h @ [(s, ts, ws)]) c \<longleftrightarrow> history_kept low h c \<and> history_kept low [(s, ts, ws)] c"
  by (auto simp: history_kept_def)

lemma history_kept_publish:
  assumes "history_kept low h c" "publish t ts s ws active c = (Inr (), c')" "ws_wf ws" "s < ts"
  shows "history_kept low (h @ [(s, ts, ws)]) c'"
proof (cases "ws_is_empty ws")
  case True
  with assms show ?thesis by (auto simp: publish_def history_kept_snoc history_kept_same) (simp add: history_kept_def)
next
  case False
  then have c': "committed_write_sets c' = pushed ts ws (committed_write_sets c)"
    using assms(2) by (auto simp: publish_def split: if_splits)
  then have "history_kept low [(s, ts, ws)] c'" using assms(4) pushed_keeps(2) by (simp add: history_kept_def)
  with history_kept_pushed [OF assms(1) c'] show ?thesis by (simp add: history_kept_snoc)
qed

lemma history_kept_force_publish:
  "history_kept low h c \<Longrightarrow> history_kept low h (force_publish t ts ws c)"
  by (auto simp: force_publish_def intro: history_kept_same history_kept_pushed)

lemma history_kept_prune:
  assumes "history_kept low h c" "bm_ok (committed_write_sets c)"
  shows "history_kept (max low oldest) h (certifier_prune oldest c)"
proof -
  have "\<exists>sets. bm_get (committed_write_sets (certifier_prune oldest c)) ts = Some sets \<and> ws \<in> set sets"
    if "bm_get (committed_write_sets c) ts = Some sets" "ws \<in> set sets" "oldest < ts" for ts ws sets
    using that assms(2) by (simp add: certifier_prune_def Let_def bm_get_retain)
  then show ?thesis using assms(1) by (fastforce simp: history_kept_def)
qed

lemma cert_run_inv: "cert_run low h active c \<Longrightarrow> cert_ok c \<and> history_kept low h c"
proof (induction rule: cert_run.induct)
  case cert_start
  then show ?case by (simp add: cert_ok_new history_kept_def)
next
  case (cert_check low h active c t r active' c')
  then show ?case using check_changes_locks_only [OF cert_check(2)] by (auto simp: history_kept_def)
next
  case (cert_publish low h active c t commit_ts start ws c')
  then show ?case using cert_ok_publish history_kept_publish by blast
next
  case (cert_reject low h active c t commit_ts start ws e c')
  then show ?case by (auto simp: publish_def split: if_splits)
next
  case (cert_force low h active c t commit_ts ws)
  then show ?case using cert_ok_force_publish history_kept_force_publish by blast
next
  case (cert_prune low h active c oldest)
  then show ?case using cert_ok_prune history_kept_prune by (auto simp: cert_ok_def)
qed (auto simp: history_kept_def)

lemma ssi_disjoint_iff:
  "ssi_resources a \<inter> ssi_resources b = {} \<longleftrightarrow> vertices a \<inter> vertices b = {} \<and> edges a \<inter> edges b = {} \<and>
   schema_resources a \<inter> schema_resources b = {} \<and> index_resources a \<inter> index_resources b = {}"
  by (auto simp: ssi_resources_def)

lemma probe_index:
  assumes "index_ok sel idx (committed_write_sets c)" "bm_ok (committed_write_sets c)"
  shows "(\<exists>r \<in> S. conflicts_after idx r s) \<longleftrightarrow> (\<exists>u \<in> set (committed_after s c). S \<inter> sel u \<noteq> {})"
  using conflicts_after_iff [OF assms] by blast

lemma probe_iff:
  assumes "cert_ok c"
  shows "probe_committed_writes s ws c = Inr () \<longleftrightarrow>
      list_all (\<lambda>u. ssi_resources ws \<inter> ssi_resources u = {}) (committed_after s c)"
    "probe_committed_reads s ws c = Inr () \<longleftrightarrow>
      list_all (\<lambda>u. ssi_resources ws \<inter> ssi_resources u = {}) (committed_after s c)"
proof -
  have "(\<exists>r \<in> vertices ws. conflicts_after (vertex_writes c) r s) \<longleftrightarrow>
      (\<exists>u \<in> set (committed_after s c). vertices ws \<inter> vertices u \<noteq> {})"
    "(\<exists>r \<in> edges ws. conflicts_after (edge_writes c) r s) \<longleftrightarrow>
      (\<exists>u \<in> set (committed_after s c). edges ws \<inter> edges u \<noteq> {})"
    "(\<exists>r \<in> schema_resources ws. conflicts_after (schema_writes c) r s) \<longleftrightarrow>
      (\<exists>u \<in> set (committed_after s c). schema_resources ws \<inter> schema_resources u \<noteq> {})"
    "(\<exists>r \<in> index_resources ws. conflicts_after (index_writes c) r s) \<longleftrightarrow>
      (\<exists>u \<in> set (committed_after s c). index_resources ws \<inter> index_resources u \<noteq> {})"
    using assms by (simp_all add: cert_ok_def probe_index)
  note eqs = this
  show "probe_committed_writes s ws c = Inr () \<longleftrightarrow>
      list_all (\<lambda>u. ssi_resources ws \<inter> ssi_resources u = {}) (committed_after s c)"
    unfolding probe_committed_writes_def eqs ssi_disjoint_iff list_all_iff by auto
  show "probe_committed_reads s ws c = Inr () \<longleftrightarrow>
      list_all (\<lambda>u. ssi_resources ws \<inter> ssi_resources u = {}) (committed_after s c)"
    unfolding probe_committed_reads_def eqs ssi_disjoint_iff list_all_iff by auto
qed

subsection \<open>A sample run\<close>

definition sample_vid :: "byte \<Rightarrow> vertex_id" where
  "sample_vid b = \<lparr> vid_data = [b], vid_len = 1, vid_kind_tag = 1 \<rparr>"

definition sample_edge :: edge_identifier where
  "sample_edge = \<lparr> src_label = 0, src_vid = sample_vid 1, dst_label = 0, dst_vid = sample_vid 2, edge_label = 0, rank = 0 \<rparr>"

definition sample_delete :: write_set where
  "sample_delete = record_vertex_delete (sample_vid 1) write_set_new"

definition sample_insert :: write_set where
  "sample_insert = record_edge sample_edge write_set_new"

definition sample_read :: write_set where
  "sample_read = record_vertex (sample_vid 3) write_set_new"

definition sample_certifier :: certifier where
  "sample_certifier = snd (publish 7 5 2 sample_delete ([] :: nat active_table) certifier_new)"

lemmas sample_defs = sample_delete_def sample_insert_def sample_read_def sample_edge_def sample_vid_def record_vertex_delete_def
  record_edge_def record_vertex_def write_set_new_def

lemma sample_publish:
  "publish 7 5 2 sample_delete (active :: 'v active_table) certifier_new =
     (if review_active 7 sample_delete active then (Inr (), sample_certifier) else (Inl (CertConflict WriteWrite), certifier_new))"
  by (simp add: sample_certifier_def publish_def review_active_def committed_after_def bm_above_def certifier_new_def
      ws_is_empty_def sample_defs)

lemma sample_run: "cert_run 0 [(2, 5, sample_delete)] ([] :: 'v active_table) sample_certifier"
proof -
  have "ws_wf sample_delete" by (simp add: sample_delete_def ws_wf_record ws_wf_new)
  then show ?thesis
    using cert_publish [OF cert_start, of 7 5 2 sample_delete sample_certifier] by (simp add: sample_publish review_active_def)
qed

lemma sample_committed: "committed_after s sample_certifier = (if s < 5 then [sample_delete] else [])"
  by (simp add: sample_certifier_def publish_def review_active_def committed_after_def bm_above_def certifier_new_def
      ws_is_empty_def unregister_reads_def index_write_set_def push_committed_def sample_defs)

subsection \<open>Properties\<close>

text \<open>
  C3.  First committer wins.  In every run of the certifier (pre-checks, publications
  with their final review, forced publications, prunes at or below the start of the
  transactions that publish later, any change of the active table) two published
  transactions of which the later committer started before the other committed have
  write sets without conflict.
\<close>

theorem certified_first_committer_wins:
  assumes "cert_run low h active c" "(s1, c1, w1) \<in> set h" "(s2, c2, w2) \<in> set h" "s2 < c1" "c1 < c2"
  shows "\<not> has_conflict_with w1 w2"
proof -
  have "cr.fcw h" using assms(1)
  proof (induction rule: cert_run.induct)
    case (cert_publish low h active c t commit_ts start ws c')
    have inv: "cert_ok c" "history_kept low h c" using cert_run_inv [OF cert_publish(1)] by auto
    have "\<not> has_conflict_with ws u" if "(s, ts, u) \<in> set h" "start < ts" for s ts u
    proof (cases "ws_is_empty ws \<or> ws_wf u \<and> ws_is_empty u")
      case True
      then show ?thesis using cert_publish(3) empty_no_conflict has_conflict_sym by blast
    next
      case False
      then have "u \<in> set (committed_after start c)"
        using inv that cert_publish(4) by (fastforce simp: history_kept_def cert_ok_def committed_after_iff)
      then show ?thesis using cert_publish(2) False by (auto simp: publish_def list_ex_iff split: if_splits)
    qed
    then show ?case by (rule cr.fcw_add [OF cert_publish.IH]) (use cert_publish in auto)
  qed simp_all
  then show ?thesis using assms(2-5) by (fastforce simp: cr.fcw_def)
qed

theorem certified_first_committer_wins_witness:
  "\<exists>h c. cert_run 0 h ([] :: nat active_table) c \<and> (2, 5, sample_delete) \<in> set h \<and> (3, 6, sample_read) \<in> set h \<and>
     \<not> has_conflict_with sample_delete sample_read"
proof -
  have p: "publish 8 6 3 sample_read ([] :: nat active_table) sample_certifier =
      (Inr (), snd (publish 8 6 3 sample_read ([] :: nat active_table) sample_certifier))" (is "_ = (_, ?c)")
    by (auto simp: publish_def review_active_def sample_committed has_conflict_with_def sample_defs)
  have "ws_wf sample_read" by (simp add: sample_read_def ws_wf_record ws_wf_new)
  then have r: "cert_run 0 ([(2, 5, sample_delete)] @ [(3, 6, sample_read)]) ([] :: nat active_table) ?c"
    by (intro cert_publish [OF sample_run p]) simp_all
  from certified_first_committer_wins [OF this, of 2 5 sample_delete 3 6 sample_read] r show ?thesis by force
qed

text \<open>
  C20.  The indexed probe finds exactly the conflicts a scan finds.  In every run the
  lookup in the four conflict indices accepts a write set exactly when no write set
  committed after its start, scanned in the committed list, shares a vertex, an edge,
  a schema or an index resource with it.
\<close>

theorem index_probe_exact:
  assumes "cert_run low h active c"
  shows "probe_committed_writes s ws c = Inr () \<longleftrightarrow>
    list_all (\<lambda>u. ssi_resources ws \<inter> ssi_resources u = {}) (committed_after s c)"
  using probe_iff(1) cert_run_inv [OF assms] by simp

theorem index_probe_exact_witness:
  "cert_run 0 [(2, 5, sample_delete)] ([] :: nat active_table) sample_certifier \<and>
   probe_committed_writes 3 sample_delete sample_certifier \<noteq> Inr () \<and>
   probe_committed_writes 3 sample_read sample_certifier = Inr ()"
proof -
  note e = index_probe_exact [OF sample_run, of 3]
  have "ssi_resources sample_delete \<inter> ssi_resources sample_delete \<noteq> {}"
    "ssi_resources sample_read \<inter> ssi_resources sample_delete = {}"
    by (auto simp: ssi_resources_def sample_defs)
  with e [of sample_delete] e [of sample_read] sample_run show ?thesis by (simp add: sample_committed)
qed

text \<open>
  C21.  A serializable transaction of the optimistic concurrency mode that passes the
  pre-check has read nothing stale (single-writer transactions skip the check).  In
  every run, no write set committed after its start touches a vertex, an edge, a schema
  or an index resource it read, nor falls in a range it scanned.
\<close>

theorem serializable_check_reads_current:
  assumes run: "cert_run low h active c" and ctx: "map_of active t = Some ctx"
    and ser: "cfg_isolation_level (config ctx) = Serializable" "cfg_concurrency_mode (config ctx) = Optimistic"
    and check: "check_write_set_conflict t active c = (Inr (), active', c')"
    and u: "u \<in> set (committed_after (start_timestamp ctx) c)"
  shows "\<not> has_read_conflict_with (txn_read_set ctx) u"
proof (cases "ws_is_empty (txn_read_set ctx)")
  case True
  then show ?thesis by (auto simp: has_read_conflict_with_def ws_is_empty_def has_read_range_conflict_with_def)
next
  case False
  let ?c = "c\<lparr> read_locks := register_txn_reads t (start_timestamp ctx) (txn_read_set ctx) (read_locks c) \<rparr>"
  have same: "committed_after s ?c = committed_after s c" "cert_ok ?c" for s
    using cert_run_inv [OF run] by (simp_all add: committed_after_def)
  have "probe_committed_reads (start_timestamp ctx) (txn_read_set ctx) ?c = Inr ()"
    "check_range_phantoms_and_full_scan ctx (txn_read_set ctx) ?c = Inr ()"
    using check ctx ser False by (auto simp: check_write_set_conflict_def Let_def bind_result_Inr split: sum.splits if_splits)
  then have "ssi_resources (txn_read_set ctx) \<inter> ssi_resources u = {}"
    "\<not> has_read_range_conflict_with (txn_read_set ctx) u"
    using probe_iff(2) [OF same(2)] u same(1)
    by (auto simp: list_all_iff list_ex_iff check_range_phantoms_and_full_scan_def has_read_range_conflict_with_def
        Let_def split: if_splits)
  then show ?thesis by (auto simp: has_read_conflict_with_def ssi_resources_def)
qed

definition sample_serializable :: "nat transaction_context" where
  "sample_serializable = (context_new 0 9 3 (demo_config\<lparr> cfg_isolation_level := Serializable \<rparr>))
     \<lparr> txn_read_set := sample_read, read_only := True \<rparr>"

theorem serializable_check_reads_current_witness:
  "\<exists>active' c'. check_write_set_conflict 9 [(9, sample_serializable)] sample_certifier = (Inr (), active', c') \<and>
     sample_delete \<in> set (committed_after (start_timestamp sample_serializable) sample_certifier) \<and>
     \<not> has_read_conflict_with (txn_read_set sample_serializable) sample_delete"
proof -
  let ?a = "[(9, sample_serializable)]"
  have f: "start_timestamp sample_serializable = 3" "txn_read_set sample_serializable = sample_read"
    "txn_write_set sample_serializable = write_set_new" "cfg_isolation_level (config sample_serializable) = Serializable"
    "cfg_concurrency_mode (config sample_serializable) = Optimistic" "cfg_full_scan_threshold (config sample_serializable) = None"
    by (simp_all add: sample_serializable_def context_new_def demo_config_def)
  have run: "cert_run 0 [(2, 5, sample_delete)] ?a sample_certifier" by (rule cert_active [OF sample_run])
  let ?c = "sample_certifier\<lparr> read_locks := register_txn_reads 9 3 sample_read (read_locks sample_certifier) \<rparr>"
  have k: "cert_ok ?c" "committed_after 3 ?c = [sample_delete]"
    using cert_run_inv [OF run] sample_committed [of 3] by (simp_all add: committed_after_def)
  have d: "ssi_resources write_set_new \<inter> ssi_resources sample_delete = {}"
    "ssi_resources sample_read \<inter> ssi_resources sample_delete = {}" "read_ranges sample_read = []" "\<not> ws_is_empty sample_read"
    by (auto simp: ssi_resources_def ws_is_empty_def sample_defs)
  then have "probe_committed_writes 3 write_set_new ?c = Inr ()" "probe_committed_reads 3 sample_read ?c = Inr ()"
    by (simp_all add: probe_iff [OF k(1)] k(2))
  then obtain active' c' where c: "check_write_set_conflict 9 ?a sample_certifier = (Inr (), active', c')"
    using f d(3,4) by (auto simp: check_write_set_conflict_def Let_def check_range_phantoms_and_full_scan_def
        detect_dangerous_structures_def ssi_resources_def write_set_new_def)
  have m: "map_of ?a 9 = Some sample_serializable" by simp
  from serializable_check_reads_current [OF run m f(4,5) c] c f(1) sample_committed [of 3] show ?thesis by auto
qed

text \<open>
  C38.  The pre-check misses conflicts the final review finds.  An optimistic, not
  serializable transaction, the only active one, that adds
  an edge to a vertex deleted by a commit newer than its start, and shares no resource
  with newer commits, passes the pre-check, after which its log record is written, and
  is then rejected by the publication review.
\<close>

theorem precheck_misses_endpoint_conflict:
  assumes run: "cert_run low h [(t, ctx)] c" and ctx: "\<not> read_only ctx"
      "cfg_isolation_level (config ctx) \<noteq> Serializable" "cfg_concurrency_mode (config ctx) = Optimistic"
    and u: "u \<in> set (committed_after (start_timestamp ctx) c)"
      "deleted_vertices u \<inter> edge_endpoints (txn_write_set ctx) \<noteq> {}"
    and free: "list_all (\<lambda>u. ssi_resources (txn_write_set ctx) \<inter> ssi_resources u = {}) (committed_after (start_timestamp ctx) c)"
    and ne: "\<not> ws_is_empty (txn_write_set ctx)"
  shows "\<exists>active'. check_write_set_conflict t [(t, ctx)] c = (Inr (), active', c) \<and>
    publish t commit_ts (start_timestamp ctx) (txn_write_set ctx) active' c = (Inl (CertConflict WriteWrite), c)"
proof -
  have "probe_committed_writes (start_timestamp ctx) (txn_write_set ctx) c = Inr ()"
    using probe_iff(1) cert_run_inv [OF run] free by blast
  then have "check_write_set_conflict t [(t, ctx)] c = (Inr (), mark_validated t [(t, ctx)], c)"
    using ctx ne by (simp add: check_write_set_conflict_def Let_def)
  moreover have "list_ex (has_conflict_with (txn_write_set ctx)) (committed_after (start_timestamp ctx) c)"
    using u by (auto simp: list_ex_iff has_conflict_with_def)
  ultimately show ?thesis using ne by (auto simp: publish_def)
qed

definition sample_writer :: "nat transaction_context" where
  "sample_writer = (context_new 0 9 3 demo_config)\<lparr> txn_write_set := sample_insert \<rparr>"

theorem precheck_misses_endpoint_conflict_witness:
  "\<exists>active'. check_write_set_conflict 9 [(9, sample_writer)] sample_certifier = (Inr (), active', sample_certifier) \<and>
     publish 9 6 3 sample_insert active' sample_certifier = (Inl (CertConflict WriteWrite), sample_certifier)"
proof -
  have f: "start_timestamp sample_writer = 3" "txn_write_set sample_writer = sample_insert" "\<not> read_only sample_writer"
    "cfg_isolation_level (config sample_writer) \<noteq> Serializable" "cfg_concurrency_mode (config sample_writer) = Optimistic"
    by (simp_all add: sample_writer_def context_new_def demo_config_def)
  have "deleted_vertices sample_delete \<inter> edge_endpoints sample_insert \<noteq> {}"
    "ssi_resources sample_insert \<inter> ssi_resources sample_delete = {}" "\<not> ws_is_empty sample_insert"
    by (auto simp: ssi_resources_def ws_is_empty_def sample_defs)
  then show ?thesis
    using precheck_misses_endpoint_conflict [OF cert_active [OF sample_run], of sample_writer sample_delete 9 6] f
    by (simp add: sample_committed)
qed

end
