(* ===== verification/CheckpointGate.thy ===== *)
theory CheckpointGate
  imports Prelude
begin

text \<open>
  The checkpoint gate of \<open>linkrs-transaction/src/checkpoint.rs\<close>.  Writers and the
  checkpoint thread meet on atomics without a common lock, so each atomic access is a
  step of its own and the threads interleave freely.  A writer is idle, admitted (it
  has read the pause flag), counted (it has incremented the counter) or holding a
  write slot; the checkpoint is off, at the head of the drain loop, past a look at a
  non-zero counter, waiting on the condition variable, drained, or in its storage
  phase.
\<close>

subsection \<open>The gate\<close>

record checkpoint_gate =
  writing_paused :: bool
  checkpoint_active :: bool
  in_storage_phase :: bool
  active_writes :: nat

datatype gate_error = CheckpointBusy | DrainTimeout nat

definition gate_new :: checkpoint_gate where
  "gate_new = \<lparr> writing_paused = False, checkpoint_active = False, in_storage_phase = False, active_writes = 0 \<rparr>"

definition fetch_add_writes :: "checkpoint_gate \<Rightarrow> checkpoint_gate" where
  "fetch_add_writes g = g\<lparr> active_writes := (active_writes g + 1) mod 2 ^ 64 \<rparr>"

definition fetch_sub_writes :: "checkpoint_gate \<Rightarrow> checkpoint_gate" where
  "fetch_sub_writes g = g\<lparr> active_writes := (active_writes g + (2 ^ 64 - 1)) mod 2 ^ 64 \<rparr>"

definition acquire_write :: "checkpoint_gate \<Rightarrow> (gate_error, unit) result \<times> checkpoint_gate" where
  "acquire_write g = (if writing_paused g then (Inl CheckpointBusy, g)
     else let g1 = fetch_add_writes g in
       if writing_paused g1 then (Inl CheckpointBusy, fetch_sub_writes g1) else (Inr (), g1))"

definition release_write :: "checkpoint_gate \<Rightarrow> bool \<times> checkpoint_gate" where
  "release_write g = (active_writes g = 1, fetch_sub_writes g)"

definition pause_writes :: "checkpoint_gate \<Rightarrow> checkpoint_gate" where
  "pause_writes g = g\<lparr> writing_paused := True, checkpoint_active := True, in_storage_phase := False \<rparr>"

definition drain_expired :: "checkpoint_gate \<Rightarrow> checkpoint_gate" where
  "drain_expired g = g\<lparr> writing_paused := False, checkpoint_active := False \<rparr>"

definition resume_writes :: "checkpoint_gate \<Rightarrow> checkpoint_gate" where
  "resume_writes g = g\<lparr> writing_paused := False, checkpoint_active := False, in_storage_phase := False \<rparr>"

definition release_write_gate_early :: "checkpoint_gate \<Rightarrow> checkpoint_gate" where
  "release_write_gate_early g = g\<lparr> writing_paused := False, in_storage_phase := True \<rparr>"

definition complete_checkpoint :: "checkpoint_gate \<Rightarrow> checkpoint_gate" where
  "complete_checkpoint g = g\<lparr> writing_paused := False, checkpoint_active := False, in_storage_phase := False \<rparr>"

subsection \<open>Interleaved threads\<close>

datatype writer_phase = WIdle | WAdmitted | WCounted | WHolding

datatype drain_phase = DOff | DLoop | DLooked | DWaiting | DDrained | DStorage

record gate_system =
  gs_gate :: checkpoint_gate
  gs_writers :: "writer_phase list"
  gs_drain :: drain_phase

definition gate_system_new :: "nat \<Rightarrow> gate_system" where
  "gate_system_new n = \<lparr> gs_gate = gate_new, gs_writers = replicate n WIdle, gs_drain = DOff \<rparr>"

definition notify_all :: "bool \<Rightarrow> drain_phase \<Rightarrow> drain_phase" where
  "notify_all b d = (if b \<and> d = DWaiting then DLoop else d)"

inductive gate_step :: "gate_system \<Rightarrow> gate_system \<Rightarrow> bool" where
  w_load: "\<lbrakk> i < length ws; ws ! i = WIdle; \<not> writing_paused g \<rbrakk> \<Longrightarrow>
     gate_step \<lparr> gs_gate = g, gs_writers = ws, gs_drain = d \<rparr>
               \<lparr> gs_gate = g, gs_writers = ws[i := WAdmitted], gs_drain = d \<rparr>"
| w_count: "\<lbrakk> i < length ws; ws ! i = WAdmitted \<rbrakk> \<Longrightarrow>
     gate_step \<lparr> gs_gate = g, gs_writers = ws, gs_drain = d \<rparr>
               \<lparr> gs_gate = fetch_add_writes g, gs_writers = ws[i := WCounted], gs_drain = d \<rparr>"
| w_enter: "\<lbrakk> i < length ws; ws ! i = WCounted; \<not> writing_paused g \<rbrakk> \<Longrightarrow>
     gate_step \<lparr> gs_gate = g, gs_writers = ws, gs_drain = d \<rparr>
               \<lparr> gs_gate = g, gs_writers = ws[i := WHolding], gs_drain = d \<rparr>"
| w_bail: "\<lbrakk> i < length ws; ws ! i = WCounted; writing_paused g \<rbrakk> \<Longrightarrow>
     gate_step \<lparr> gs_gate = g, gs_writers = ws, gs_drain = d \<rparr>
               \<lparr> gs_gate = fetch_sub_writes g, gs_writers = ws[i := WIdle], gs_drain = d \<rparr>"
| w_release: "\<lbrakk> i < length ws; ws ! i = WHolding; release_write g = (last_one, g') \<rbrakk> \<Longrightarrow>
     gate_step \<lparr> gs_gate = g, gs_writers = ws, gs_drain = d \<rparr>
               \<lparr> gs_gate = g', gs_writers = ws[i := WIdle], gs_drain = notify_all last_one d \<rparr>"
| d_pause: "gate_step \<lparr> gs_gate = g, gs_writers = ws, gs_drain = DOff \<rparr>
               \<lparr> gs_gate = pause_writes g, gs_writers = ws, gs_drain = DLoop \<rparr>"
| d_done: "active_writes g = 0 \<Longrightarrow>
     gate_step \<lparr> gs_gate = g, gs_writers = ws, gs_drain = DLoop \<rparr>
               \<lparr> gs_gate = g, gs_writers = ws, gs_drain = DDrained \<rparr>"
| d_look: "active_writes g \<noteq> 0 \<Longrightarrow>
     gate_step \<lparr> gs_gate = g, gs_writers = ws, gs_drain = DLoop \<rparr>
               \<lparr> gs_gate = g, gs_writers = ws, gs_drain = DLooked \<rparr>"
| d_elapsed: "gate_step \<lparr> gs_gate = g, gs_writers = ws, gs_drain = DLooked \<rparr>
               \<lparr> gs_gate = drain_expired g, gs_writers = ws, gs_drain = DOff \<rparr>"
| d_wait: "gate_step \<lparr> gs_gate = g, gs_writers = ws, gs_drain = DLooked \<rparr>
               \<lparr> gs_gate = g, gs_writers = ws, gs_drain = DWaiting \<rparr>"
| d_timeout: "gate_step \<lparr> gs_gate = g, gs_writers = ws, gs_drain = DWaiting \<rparr>
               \<lparr> gs_gate = drain_expired g, gs_writers = ws, gs_drain = DOff \<rparr>"
| d_early: "gate_step \<lparr> gs_gate = g, gs_writers = ws, gs_drain = DDrained \<rparr>
               \<lparr> gs_gate = release_write_gate_early g, gs_writers = ws, gs_drain = DStorage \<rparr>"
| d_complete: "d = DDrained \<or> d = DStorage \<Longrightarrow>
     gate_step \<lparr> gs_gate = g, gs_writers = ws, gs_drain = d \<rparr>
               \<lparr> gs_gate = complete_checkpoint g, gs_writers = ws, gs_drain = DOff \<rparr>"

definition gate_reachable :: "nat \<Rightarrow> gate_system \<Rightarrow> bool" where
  "gate_reachable n s \<longleftrightarrow> gate_step\<^sup>*\<^sup>* (gate_system_new n) s"

lemma acquire_write_steps:
  assumes "i < length ws" "ws ! i = WIdle"
  shows "gate_step\<^sup>*\<^sup>* \<lparr> gs_gate = g, gs_writers = ws, gs_drain = d \<rparr>
    \<lparr> gs_gate = snd (acquire_write g),
       gs_writers = ws[i := if fst (acquire_write g) = Inr () then WHolding else WIdle], gs_drain = d \<rparr>"
proof (cases "writing_paused g")
  case True
  then show ?thesis using assms by (simp add: acquire_write_def list_update_same_conv [THEN iffD2])
next
  case False
  let ?g = "fetch_add_writes g"
  have np: "\<not> writing_paused ?g" using False by (simp add: fetch_add_writes_def)
  have "gate_step \<lparr> gs_gate = g, gs_writers = ws, gs_drain = d \<rparr> \<lparr> gs_gate = g, gs_writers = ws[i := WAdmitted], gs_drain = d \<rparr>"
    by (rule w_load [OF assms False])
  moreover have "gate_step \<lparr> gs_gate = g, gs_writers = ws[i := WAdmitted], gs_drain = d \<rparr>
      \<lparr> gs_gate = ?g, gs_writers = ws[i := WCounted], gs_drain = d \<rparr>"
    using w_count [of i "ws[i := WAdmitted]" g d] assms(1) by simp
  moreover have "gate_step \<lparr> gs_gate = ?g, gs_writers = ws[i := WCounted], gs_drain = d \<rparr>
      \<lparr> gs_gate = ?g, gs_writers = ws[i := WHolding], gs_drain = d \<rparr>"
    using w_enter [of i "ws[i := WCounted]" ?g d] assms(1) np by simp
  ultimately show ?thesis using False np by (simp add: acquire_write_def Let_def)
qed

subsection \<open>Invariant\<close>

definition counted :: "writer_phase \<Rightarrow> bool" where
  "counted p \<longleftrightarrow> p = WCounted \<or> p = WHolding"

abbreviation counted_writers :: "writer_phase list \<Rightarrow> nat" where
  "counted_writers ws \<equiv> length (filter counted ws)"

definition gate_inv :: "nat \<Rightarrow> gate_system \<Rightarrow> bool" where
  "gate_inv n s \<longleftrightarrow> length (gs_writers s) = n \<and>
     active_writes (gs_gate s) = counted_writers (gs_writers s) \<and>
     (gs_drain s \<in> {DLoop, DLooked, DWaiting, DDrained} \<longrightarrow> writing_paused (gs_gate s)) \<and>
     (gs_drain s = DDrained \<longrightarrow> WHolding \<notin> set (gs_writers s))"

lemma counted_writers_update:
  "i < length ws \<Longrightarrow> counted_writers (ws[i := p]) + (if counted (ws ! i) then 1 else 0) =
     counted_writers ws + (if counted p then 1 else 0)"
proof (induction ws arbitrary: i)
  case (Cons w ws)
  then show ?case by (cases i) auto
qed simp

lemma counted_simps [simp]: "counted WCounted" "counted WHolding" "\<not> counted WIdle" "\<not> counted WAdmitted"
  by (simp_all add: counted_def)

lemma counted_writers_le: "counted_writers ws \<le> length ws"
  by simp

lemma fetch_fields [simp]:
  "writing_paused (fetch_add_writes g) = writing_paused g" "writing_paused (fetch_sub_writes g) = writing_paused g"
  by (simp_all add: fetch_add_writes_def fetch_sub_writes_def)

lemma gate_fields [simp]:
  "active_writes (pause_writes g) = active_writes g" "active_writes (drain_expired g) = active_writes g"
  "active_writes (release_write_gate_early g) = active_writes g" "active_writes (complete_checkpoint g) = active_writes g"
  "writing_paused (pause_writes g)"
  by (simp_all add: pause_writes_def drain_expired_def release_write_gate_early_def complete_checkpoint_def)

lemma holding_counted: "WHolding \<in> set ws \<Longrightarrow> counted_writers ws \<noteq> 0"
  by (induction ws) auto

lemma holding_update: "WHolding \<notin> set ws \<Longrightarrow> p \<noteq> WHolding \<Longrightarrow> WHolding \<notin> set (ws[i := p])"
  using set_update_subset_insert [of ws i p] by auto

lemma fetch_add_count:
  assumes "active_writes g = counted_writers ws" "i < length ws" "ws ! i = WAdmitted" "length ws < 2 ^ 64"
  shows "active_writes (fetch_add_writes g) = counted_writers (ws[i := WCounted])"
proof -
  have "counted_writers (ws[i := WCounted]) = counted_writers ws + 1"
    using counted_writers_update [OF assms(2), of WCounted] assms(3) by simp
  moreover have "counted_writers (ws[i := WCounted]) \<le> length ws"
    using counted_writers_le [of "ws[i := WCounted]"] by simp
  ultimately show ?thesis using assms(1,4) by (simp add: fetch_add_writes_def)
qed

lemma fetch_sub_count:
  assumes "active_writes g = counted_writers ws" "i < length ws" "counted (ws ! i)" "length ws < 2 ^ 64"
  shows "active_writes (fetch_sub_writes g) = counted_writers (ws[i := WIdle])"
proof -
  have "counted_writers ws = counted_writers (ws[i := WIdle]) + 1"
    using counted_writers_update [OF assms(2), of WIdle] assms(3) by simp
  moreover have "counted_writers (ws[i := WIdle]) < 2 ^ 64"
    using counted_writers_le [of "ws[i := WIdle]"] assms(4) by simp
  ultimately show ?thesis using assms(1) by (simp add: fetch_sub_writes_def)
qed

lemma gate_step_inv: "gate_step s s' \<Longrightarrow> n < 2 ^ 64 \<Longrightarrow> gate_inv n s \<Longrightarrow> gate_inv n s'"
proof (induction rule: gate_step.induct)
  case (w_load i ws g d)
  then show ?case using counted_writers_update [OF w_load(1), of WAdmitted] by (auto simp: gate_inv_def holding_update)
next
  case (w_count i ws g d)
  then show ?case using fetch_add_count [of g ws i] by (auto simp: gate_inv_def holding_update)
next
  case (w_enter i ws g d)
  then show ?case using counted_writers_update [OF w_enter(1), of WHolding] by (auto simp: gate_inv_def)
next
  case (w_bail i ws g d)
  then show ?case using fetch_sub_count [of g ws i] by (auto simp: gate_inv_def holding_update)
next
  case (w_release i ws g last_one g' d)
  then show ?case using fetch_sub_count [of g ws i]
    by (auto simp: gate_inv_def holding_update release_write_def notify_all_def split: if_splits)
next
  case (d_done g ws)
  then show ?case using holding_counted [of ws] by (auto simp: gate_inv_def)
qed (auto simp: gate_inv_def)

lemma gate_reachable_inv: "gate_reachable n s \<Longrightarrow> n < 2 ^ 64 \<Longrightarrow> gate_inv n s"
proof -
  assume r: "gate_reachable n s" and n: "n < 2 ^ 64"
  have "gate_inv n (gate_system_new n)"
    by (simp add: gate_inv_def gate_system_new_def gate_new_def)
  with r n show ?thesis unfolding gate_reachable_def
    by (induction rule: rtranclp_induct) (auto intro: gate_step_inv)
qed

subsection \<open>Properties\<close>

text \<open>
  C10.  A drained gate excludes writers.  Whatever way the accesses of up to 2^64 - 1
  writers and of the checkpoint interleave, once the drain has returned no writer
  holds a write slot until the checkpoint releases the gate, and the counter is the
  number of writers between their increment and their release.
\<close>

theorem drained_gate_excludes_writers:
  assumes "gate_reachable n s" "n < 2 ^ 64"
  shows "active_writes (gs_gate s) = counted_writers (gs_writers s) \<and>
    (gs_drain s = DDrained \<longrightarrow> WHolding \<notin> set (gs_writers s))"
  using gate_reachable_inv [OF assms] by (simp add: gate_inv_def)

lemma reach_step: "gate_reachable n s \<Longrightarrow> gate_step s s' \<Longrightarrow> gate_reachable n s'"
  by (simp add: gate_reachable_def)

lemma reach_new: "gate_reachable n \<lparr> gs_gate = gate_new, gs_writers = replicate n WIdle, gs_drain = DOff \<rparr>"
  by (simp add: gate_reachable_def gate_system_new_def)

lemma reach_holding:
  "gate_reachable 1 \<lparr> gs_gate = gate_new\<lparr> active_writes := 1 \<rparr>, gs_writers = [WHolding], gs_drain = DOff \<rparr>"
proof -
  have 1: "gate_reachable 1 \<lparr> gs_gate = gate_new, gs_writers = [WAdmitted], gs_drain = DOff \<rparr>"
    using reach_step [OF reach_new [of 1] w_load [of 0]] by (simp add: gate_new_def)
  have 2: "gate_reachable 1 \<lparr> gs_gate = gate_new\<lparr> active_writes := 1 \<rparr>, gs_writers = [WCounted], gs_drain = DOff \<rparr>"
    using reach_step [OF 1 w_count [of 0]] by (simp add: gate_new_def fetch_add_writes_def)
  show ?thesis using reach_step [OF 2 w_enter [of 0]] by (simp add: gate_new_def)
qed

theorem drained_gate_excludes_writers_witness:
  "\<exists>s. gate_reachable 1 s \<and> gs_drain s = DDrained \<and> WHolding \<notin> set (gs_writers s)"
proof -
  have 1: "gate_reachable 1 \<lparr> gs_gate = pause_writes gate_new, gs_writers = [WIdle], gs_drain = DLoop \<rparr>"
    using reach_step [OF reach_new [of 1] d_pause] by simp
  have 2: "gate_reachable 1 \<lparr> gs_gate = pause_writes gate_new, gs_writers = [WIdle], gs_drain = DDrained \<rparr>"
    by (rule reach_step [OF 1 d_done]) (simp add: gate_new_def)
  from drained_gate_excludes_writers [OF this] 2 show ?thesis by auto
qed

text \<open>
  C39.  The drain can miss its wake-up.  A writer that releases the last slot between
  the drain's look at the counter and its wait notifies nobody: the checkpoint then
  waits with no writer left, no writer step can wake it, and only the timeout ends the
  wait, although every write has completed.
\<close>

theorem drain_misses_wakeup:
  "\<exists>s. gate_reachable 1 s \<and> gs_drain s = DWaiting \<and> active_writes (gs_gate s) = 0 \<and> gs_writers s = [WIdle] \<and>
     gs_drain ` {s'. gate_step s s'} = {DOff}"
proof -
  let ?g = "\<lparr> writing_paused = True, checkpoint_active = True, in_storage_phase = False, active_writes = 1 \<rparr>"
  have 1: "gate_reachable 1 \<lparr> gs_gate = ?g, gs_writers = [WHolding], gs_drain = DLoop \<rparr>"
    using reach_step [OF reach_holding d_pause] by (simp add: gate_new_def pause_writes_def)
  have 2: "gate_reachable 1 \<lparr> gs_gate = ?g, gs_writers = [WHolding], gs_drain = DLooked \<rparr>"
    by (rule reach_step [OF 1 d_look]) simp
  have 3: "gate_reachable 1 \<lparr> gs_gate = ?g\<lparr> active_writes := 0 \<rparr>, gs_writers = [WIdle], gs_drain = DLooked \<rparr>"
    using reach_step [OF 2 w_release [of 0]] by (simp add: release_write_def fetch_sub_writes_def notify_all_def)
  have 4: "gate_reachable 1 \<lparr> gs_gate = ?g\<lparr> active_writes := 0 \<rparr>, gs_writers = [WIdle], gs_drain = DWaiting \<rparr>" (is "gate_reachable _ ?s")
    by (rule reach_step [OF 3 d_wait])
  have "gs_drain s' = DOff" if "gate_step ?s s'" for s'
    using that by (cases rule: gate_step.cases) (auto simp: less_Suc_eq)
  then have sub: "gs_drain ` {s'. gate_step ?s s'} \<subseteq> {DOff}" by (simp add: image_subset_iff)
  have ne: "gs_drain ` {s'. gate_step ?s s'} \<noteq> {}" using d_timeout [of "?g\<lparr> active_writes := 0 \<rparr>" "[WIdle]"] by blast
  from subset_singletonD [OF sub] ne have "gs_drain ` {s'. gate_step ?s s'} = {DOff}" by argo
  with 4 show ?thesis by (intro exI [of _ ?s]) simp
qed

subsection \<open>Progress of the drain\<close>

definition writer_step :: "gate_system \<Rightarrow> gate_system \<Rightarrow> bool" where
  "writer_step s s' \<longleftrightarrow> gate_step s s' \<and> gs_writers s' \<noteq> gs_writers s"

definition draining :: "gate_system \<Rightarrow> bool" where
  "draining s \<longleftrightarrow> writing_paused (gs_gate s) \<and> set (gs_writers s) \<subseteq> {WIdle, WHolding} \<and>
     active_writes (gs_gate s) = counted_writers (gs_writers s) \<and> length (gs_writers s) < 2 ^ 64 \<and>
     gs_drain s = (if active_writes (gs_gate s) = 0 then DLoop else DWaiting)"

lemma draining_step:
  assumes "writer_step s s'" "draining s"
  shows "draining s' \<and> active_writes (gs_gate s) = Suc (active_writes (gs_gate s'))"
proof -
  have "gate_step s s'" "gs_writers s' \<noteq> gs_writers s" using assms(1) by (simp_all add: writer_step_def)
  then show ?thesis using assms(2)
  proof (cases rule: gate_step.cases)
    case (w_release i ws g last_one g' d)
    then have len: "active_writes g = counted_writers ws" "length ws < 2 ^ 64" "set ws \<subseteq> {WIdle, WHolding}" "writing_paused g"
      "d = (if active_writes g = 0 then DLoop else DWaiting)"
      using assms(2) by (simp_all add: draining_def)
    have g': "last_one = (active_writes g = 1)" "g' = fetch_sub_writes g"
      using w_release(5) by (simp_all add: release_write_def)
    have sub: "active_writes g' = counted_writers (ws[i := WIdle])"
      using fetch_sub_count [OF len(1) w_release(3) _ len(2)] w_release(4) g'(2) by simp
    moreover have "counted_writers ws = counted_writers (ws[i := WIdle]) + 1"
      using counted_writers_update [OF w_release(3), of WIdle] w_release(4) by simp
    moreover have "set (ws[i := WIdle]) \<subseteq> {WIdle, WHolding}" using set_update_subset_insert [of ws i WIdle] len(3) by auto
    ultimately show ?thesis using w_release(1,2) len g' by (simp add: draining_def notify_all_def)
  next
    case (w_count i ws g d)
    then have "ws ! i \<in> {WIdle, WHolding}" using assms(2) nth_mem [of i ws] by (auto simp: draining_def)
    with w_count show ?thesis by simp
  next
    case (w_bail i ws g d)
    then have "ws ! i \<in> {WIdle, WHolding}" using assms(2) nth_mem [of i ws] by (auto simp: draining_def)
    with w_bail show ?thesis by simp
  next
    case (w_enter i ws g d)
    then show ?thesis using assms(2) by (simp add: draining_def)
  next
    case (w_load i ws g d)
    then show ?thesis using assms(2) by (simp add: draining_def)
  qed simp_all
qed

lemma draining_run:
  "(writer_step ^^ m) s s' \<Longrightarrow> draining s \<Longrightarrow> draining s' \<and> active_writes (gs_gate s) = m + active_writes (gs_gate s')"
proof (induction m arbitrary: s')
  case (Suc m)
  then obtain s1 where "(writer_step ^^ m) s s1" "writer_step s1 s'" by auto
  with Suc draining_step show ?case by fastforce
qed simp

lemma draining_progress:
  assumes "draining s" "active_writes (gs_gate s) \<noteq> 0"
  shows "\<exists>s'. writer_step s s'"
proof -
  obtain g ws d where s: "s = \<lparr> gs_gate = g, gs_writers = ws, gs_drain = d \<rparr>" by (cases s)
  have "\<exists>i < length ws. ws ! i = WHolding"
    using assms s by (auto simp: draining_def filter_empty_conv in_set_conv_nth)
  then obtain i where i: "i < length ws" "ws ! i = WHolding" by blast
  then have "ws[i := WIdle] \<noteq> ws" by (metis nth_list_update_eq writer_phase.distinct(5))
  then show ?thesis using w_release [OF i, of g] s unfolding writer_step_def
    by (cases "release_write g") fastforce
qed

text \<open>
  C17.  A waiting drain is woken once the writers are done.  While the checkpoint waits,
  every writer is idle or holds its slot and at least one slot is held, each execution of the writers makes at
  most as many steps as there are writers, it can always go on until no slot is held,
  and when it cannot the drain is back in its loop with a counter of zero, so its next
  step returns success.
\<close>

theorem waiting_drain_completes:
  assumes r: "gate_reachable n s" "n < 2 ^ 64" and d: "gs_drain s = DWaiting" "set (gs_writers s) \<subseteq> {WIdle, WHolding}"
      "WHolding \<in> set (gs_writers s)" and run: "(writer_step ^^ m) s s'"
  shows "m \<le> n \<and> ((\<exists>s''. writer_step s' s'') \<or>
    gate_step s' \<lparr> gs_gate = gs_gate s', gs_writers = gs_writers s', gs_drain = DDrained \<rparr>)"
proof -
  have inv: "gate_inv n s" by (rule gate_reachable_inv [OF r])
  then have dr: "draining s" using d r(2) holding_counted [OF d(3)] by (auto simp: draining_def gate_inv_def)
  note e = draining_run [OF run dr]
  have "active_writes (gs_gate s) \<le> n" using inv counted_writers_le [of "gs_writers s"] by (simp add: gate_inv_def)
  then have "m \<le> n" using e by simp
  moreover have "gate_step s' \<lparr> gs_gate = gs_gate s', gs_writers = gs_writers s', gs_drain = DDrained \<rparr>"
    if z: "active_writes (gs_gate s') = 0"
  proof -
    have "gs_drain s' = DLoop" using e z by (simp add: draining_def)
    then show ?thesis using d_done [OF z, of "gs_writers s'"] by (cases s') simp
  qed
  ultimately show ?thesis using draining_progress e by blast
qed

theorem waiting_drain_completes_witness:
  "\<exists>s s'. gate_reachable 1 s \<and> gs_drain s = DWaiting \<and> (writer_step ^^ 1) s s' \<and>
     ((\<exists>s''. writer_step s' s'') \<or>
      gate_step s' \<lparr> gs_gate = gs_gate s', gs_writers = gs_writers s', gs_drain = DDrained \<rparr>)"
proof -
  let ?g = "\<lparr> writing_paused = True, checkpoint_active = True, in_storage_phase = False, active_writes = 1 \<rparr>"
  have 1: "gate_reachable 1 \<lparr> gs_gate = ?g, gs_writers = [WHolding], gs_drain = DLoop \<rparr>"
    using reach_step [OF reach_holding d_pause] by (simp add: gate_new_def pause_writes_def)
  have 2: "gate_reachable 1 \<lparr> gs_gate = ?g, gs_writers = [WHolding], gs_drain = DLooked \<rparr>"
    by (rule reach_step [OF 1 d_look]) simp
  have 3: "gate_reachable 1 \<lparr> gs_gate = ?g, gs_writers = [WHolding], gs_drain = DWaiting \<rparr>" (is "gate_reachable _ ?s")
    by (rule reach_step [OF 2 d_wait])
  let ?t = "\<lparr> gs_gate = ?g\<lparr> active_writes := 0 \<rparr>, gs_writers = [WIdle], gs_drain = DLoop \<rparr>"
  have "gate_step ?s ?t"
    using w_release [of 0 "[WHolding]" ?g _ _ DWaiting] by (simp add: release_write_def fetch_sub_writes_def notify_all_def)
  then have w: "(writer_step ^^ 1) ?s ?t" by (simp add: writer_step_def eq_OO)
  show ?thesis
    by (rule exI [of _ ?s], rule exI [of _ ?t]) (use waiting_drain_completes [OF 3 _ _ _ _ w] 3 w in simp)
qed

end
