(* ===== verification/TxnManager.thy ===== *)
theory TxnManager
  imports Certifier CheckpointGate VersionManager
begin

text \<open>
  The transaction manager of \<open>linkrs-transaction/src/manager.rs\<close> and its
  \<open>manager/*.rs\<close> parts: admission, the commit protocol, the abort protocol,
  recovery of durable but unfinalized commits, cleanup and shutdown.  It composes the
  version manager, the certifier, the checkpoint gate and the transaction contexts.
  Budget warnings are not reported.  The storage side of a commit (\<open>TransactionCommitSink\<close>), the index rollback of the
  sync manager and the registered vetoes are fields of an environment; \<open>'k\<close> is the
  state they work on.  Sleeps between retries, logging and statistics are left out;
  events are appended to a list.
\<close>

subsection \<open>State and environment\<close>

record manager_config =
  mc_default_timeout :: duration
  mc_max_concurrent :: nat
  mc_auto_cleanup :: bool
  mc_commit_retries :: nat
  mc_abort_retries :: nat
  mc_txn_config :: transaction_config
  mc_in_memory :: bool
  mc_auto_checkpoint :: bool
  mc_checkpoint_threshold :: nat
  mc_lease_ttl :: duration
  mc_max_live_leases :: nat
  mc_max_pin_secs :: nat

record 'k commit_sink =
  sk_commit :: "transaction_commit_descriptor \<Rightarrow> 'k \<Rightarrow> (unit, nat) result \<times> 'k"
  sk_finalize :: "transaction_commit_descriptor \<Rightarrow> nat \<Rightarrow> 'k \<Rightarrow> (unit, unit) result \<times> 'k"
  sk_abort :: "txn_id \<Rightarrow> timestamp \<Rightarrow> 'k \<Rightarrow> (unit, unit) result \<times> 'k"
  sk_checkpoint :: "'k \<Rightarrow> 'k"

record ('v, 'k) manager_env =
  me_sink :: "'k commit_sink option"
  me_sync_rollback :: "(txn_id \<Rightarrow> 'k \<Rightarrow> (unit, unit) result \<times> 'k) option"
  me_vetoes :: "('v transaction_context \<Rightarrow> bool) list"

datatype txn_event =
    EvCommitted txn_id timestamp timestamp bool
  | EvDurableUnfinalized txn_id timestamp nat
  | EvAborted txn_id timestamp

record long_read_lease =
  ll_holder :: txn_id
  ll_floor_ts :: timestamp
  ll_deadline :: instant

record 'v txn_manager =
  tm_vm :: version_manager
  tm_config :: manager_config
  tm_active :: "'v active_table"
  tm_next_id :: nat
  tm_gate :: checkpoint_gate
  tm_certifier :: certifier
  tm_write_owner :: txn_id
  tm_pending :: "(txn_id, transaction_commit_descriptor \<times> timestamp \<times> nat) bmap"
  tm_shutdown :: bool
  tm_commits_since_checkpoint :: nat
  tm_long_reads :: "(txn_id, long_read_lease) bmap"
  tm_events :: "txn_event list"

definition manager_new :: "version_manager \<Rightarrow> manager_config \<Rightarrow> 'v txn_manager" where
  "manager_new vm cfg = \<lparr> tm_vm = vm, tm_config = cfg, tm_active = [], tm_next_id = 1, tm_gate = gate_new,
     tm_certifier = certifier_new, tm_write_owner = 0, tm_pending = [], tm_shutdown = False,
     tm_commits_since_checkpoint = 0, tm_long_reads = [], tm_events = [] \<rparr>"

type_synonym ('v, 'k) mgr_op = "unit txn_result \<times> 'v txn_manager \<times> 'k"

definition emit :: "txn_event \<Rightarrow> 'v txn_manager \<Rightarrow> 'v txn_manager" where
  "emit e m = m\<lparr> tm_events := tm_events m @ [e] \<rparr>"

definition set_ctx :: "txn_id \<Rightarrow> 'v transaction_context \<Rightarrow> 'v txn_manager \<Rightarrow> 'v txn_manager" where
  "set_ctx t c m = m\<lparr> tm_active := map (\<lambda>(i, x). (i, if i = t then c else x)) (tm_active m) \<rparr>"

definition remove_ctx :: "txn_id \<Rightarrow> 'v txn_manager \<Rightarrow> 'v txn_manager" where
  "remove_ctx t m = m\<lparr> tm_active := filter (\<lambda>(i, _). i \<noteq> t) (tm_active m) \<rparr>"

fun retry :: "nat \<Rightarrow> ('k \<Rightarrow> (unit, 'a) result \<times> 'k) \<Rightarrow> 'k \<Rightarrow> (unit, 'a) result \<times> 'k" where
  "retry 0 f k = f k"
| "retry (Suc n) f k = (case f k of (Inr a, k1) \<Rightarrow> (Inr a, k1) | (Inl _, k1) \<Rightarrow> retry n f k1)"

subsection \<open>Leases\<close>

definition release_write_lease :: "txn_id \<Rightarrow> 'v txn_manager \<Rightarrow> 'v txn_manager" where
  "release_write_lease t m = (case map_of (tm_active m) t of
      None \<Rightarrow> m
    | Some c \<Rightarrow> (case mark_resources_released c of
        (False, _) \<Rightarrow> m
      | (True, c1) \<Rightarrow> let m1 = set_ctx t c1 m in
          if txn_type c \<noteq> TyWrite then m1
          else m1\<lparr> tm_write_owner := (if pessimistic_lock_held c then 0 else tm_write_owner m),
                   tm_gate := (if mc_in_memory (tm_config m) then tm_gate m else snd (release_write (tm_gate m))) \<rparr>))"

definition release_statement_pin :: "txn_id \<Rightarrow> 'v txn_manager \<Rightarrow> 'v txn_manager" where
  "release_statement_pin t m = (case map_of (tm_active m) t of
      None \<Rightarrow> m
    | Some c \<Rightarrow> (case take_statement_snapshot_pin c of
        (None, _) \<Rightarrow> m
      | (Some ts, c1) \<Rightarrow> set_ctx t c1
          (m\<lparr> tm_vm := (tm_vm m)\<lparr> tracker := release_ignoring ts (tracker (tm_vm m)) \<rparr> \<rparr>)))"

definition release_long_read :: "txn_id \<Rightarrow> 'v txn_manager \<Rightarrow> 'v txn_manager" where
  "release_long_read t m = m\<lparr> tm_long_reads := bm_remove t (tm_long_reads m) \<rparr>"

definition rollback_context_timestamp :: "'v transaction_context \<Rightarrow> version_manager \<Rightarrow> version_manager" where
  "rollback_context_timestamp c vm = (if txn_type c = TyReadOnly then release_read_timestamp_at (start_timestamp c) vm
     else if txn_type c = TyWrite then abort_write_timestamp (start_timestamp c) vm else vm)"

definition release_dead_write_owner :: "'v txn_manager \<Rightarrow> 'v txn_manager" where
  "release_dead_write_owner m = (let w = tm_write_owner m in
     if w = 0 then m
     else if (case map_of (tm_active m) w of
                None \<Rightarrow> False | Some c \<Rightarrow> pessimistic_lock_held c \<and> state_can_execute (txn_state c))
     then m else m\<lparr> tm_write_owner := 0 \<rparr>)"

definition prune_committed_write_sets :: "timestamp \<Rightarrow> 'v txn_manager \<Rightarrow> 'v txn_manager" where
  "prune_committed_write_sets ts m = m\<lparr> tm_certifier := certifier_prune ts (tm_certifier m) \<rparr>"

subsection \<open>Abort\<close>

definition finalize_abort_resources :: "txn_id \<Rightarrow> 'v transaction_context \<Rightarrow> 'v txn_manager \<Rightarrow> 'v txn_manager" where
  "finalize_abort_resources t c m =
     (let m1 = m\<lparr> tm_vm := rollback_context_timestamp c (tm_vm m) \<rparr>;
          m2 = release_write_lease t m1;
          m3 = m2\<lparr> tm_certifier := unregister_reads t (tm_certifier m2) \<rparr>;
          m4 = release_long_read t (release_statement_pin t m3);
          m5 = remove_ctx t m4
      in (case transition_to TxAborted (snd (clear_undo_logs c)) of
            (Inl _, _) \<Rightarrow> m5
          | (Inr _, _) \<Rightarrow> emit (EvAborted t (start_timestamp c)) m5))"

definition sink_rollback ::
  "('v, 'k) manager_env \<Rightarrow> txn_id \<Rightarrow> 'v transaction_context \<Rightarrow> manager_config \<Rightarrow> 'k \<Rightarrow> transaction_error_kind option \<times> 'k" where
  "sink_rollback env t c cfg k =
     (if mc_in_memory cfg \<or> \<not> is_user_transaction (txn_type c) then (None, k)
      else case me_sink env of
        Some sk \<Rightarrow> (case retry (mc_abort_retries cfg) (sk_abort sk t (start_timestamp c)) k of
            (Inr _, k1) \<Rightarrow> (None, k1) | (Inl _, k1) \<Rightarrow> (Some RollbackFailed, k1))
      | None \<Rightarrow> (case me_sync_rollback env of
            None \<Rightarrow> (None, k)
          | Some f \<Rightarrow> (case retry (mc_abort_retries cfg) (f t) k of
              (Inr _, k1) \<Rightarrow> (None, k1) | (Inl _, k1) \<Rightarrow> (Some SyncFailed, k1))))"

definition execute_abort_internal ::
  "('v, 'k) manager_env \<Rightarrow> txn_id \<Rightarrow> 'v transaction_context \<Rightarrow> 'v txn_manager \<Rightarrow> 'k \<Rightarrow> ('v, 'k) mgr_op" where
  "execute_abort_internal env t c m k = (case sink_rollback env t c (tm_config m) k of
      (Some e, k1) \<Rightarrow> (Inl e, finalize_abort_resources t c m, k1)
    | (None, k1) \<Rightarrow> let m1 = finalize_abort_resources t c m
        in (Inr (), prune_committed_write_sets (get_safe_gc_timestamp (tm_vm m1)) m1, k1))"

type_synonym ('v, 'k) local_undo =
  "('v transaction_context \<Rightarrow> 'k \<Rightarrow> unit txn_result \<times> 'v transaction_context \<times> 'k) option"

definition abort_common ::
  "('v, 'k) manager_env \<Rightarrow> ('v, 'k) local_undo \<Rightarrow> txn_id \<Rightarrow> 'v txn_manager \<Rightarrow> 'k \<Rightarrow> ('v, 'k) mgr_op" where
  "abort_common env undo t m k = (case map_of (tm_active m) t of
      None \<Rightarrow> (Inl TransactionNotFound, m, k)
    | Some c0 \<Rightarrow>
        if commit_published c0 then (Inl CommitFailed, m, k)
        else case transition_to TxAborting c0 of
          (Inl e, _) \<Rightarrow> (Inl e, m, k)
        | (Inr _, c) \<Rightarrow>
            (case (undo, me_sink env) of
               (Some run, None) \<Rightarrow> (case run c k of
                   (Inl e, c1, k1) \<Rightarrow> (case execute_abort_internal env t c1 (set_ctx t c1 m) k1 of (_, m2, k2) \<Rightarrow> (Inl e, m2, k2))
                 | (Inr _, c1, k1) \<Rightarrow> execute_abort_internal env t c1 (set_ctx t c1 m) k1)
             | _ \<Rightarrow> execute_abort_internal env t c (set_ctx t c m) k))"

definition abort_transaction_with ::
  "('v, 'k) manager_env \<Rightarrow> ('v, 'k) local_undo \<Rightarrow> txn_id \<Rightarrow> 'v txn_manager \<Rightarrow> 'k \<Rightarrow> ('v, 'k) mgr_op" where
  "abort_transaction_with env undo t m k = (case map_of (tm_active m) t of
      None \<Rightarrow> (Inl TransactionNotFound, m, k)
    | Some c \<Rightarrow>
        if \<not> state_can_abort (txn_state c) then (Inl InvalidStateForAbort, m, k)
        else if commit_published c then (Inl CommitFailed, m, k)
        else abort_common env undo t m k)"

abbreviation abort_transaction ::
  "('v, 'k) manager_env \<Rightarrow> txn_id \<Rightarrow> 'v txn_manager \<Rightarrow> 'k \<Rightarrow> ('v, 'k) mgr_op" where
  "abort_transaction env \<equiv> abort_transaction_with env None"

fun abort_all :: "('v, 'k) manager_env \<Rightarrow> txn_id list \<Rightarrow> 'v txn_manager \<Rightarrow> 'k \<Rightarrow> 'v txn_manager \<times> 'k" where
  "abort_all env [] m k = (m, k)"
| "abort_all env (t # ts) m k = (case abort_transaction env t m k of (_, m1, k1) \<Rightarrow> abort_all env ts m1 k1)"

definition cleanup_expired_transactions ::
  "('v, 'k) manager_env \<Rightarrow> instant \<Rightarrow> 'v txn_manager \<Rightarrow> 'k \<Rightarrow> 'v txn_manager \<times> 'k" where
  "cleanup_expired_transactions env now m k =
     (let owned = set (map (\<lambda>(_, c). start_timestamp c) (filter (\<lambda>(_, c). \<not> read_only c) (tm_active m)));
          vm = snd (reap_expired_write_timestamps now (write_reap_timeout (vm_config (tm_vm m))) owned (tm_vm m));
          expired = map fst (filter (\<lambda>(_, c). state_can_execute (txn_state c) \<and>
                      (is_expired now c \<or> is_idle_timeout now c)) (tm_active m))
      in case abort_all env expired (m\<lparr> tm_vm := vm \<rparr>) k of (m1, k1) \<Rightarrow> (release_dead_write_owner m1, k1))"

definition manager_shutdown :: "('v, 'k) manager_env \<Rightarrow> 'v txn_manager \<Rightarrow> 'k \<Rightarrow> 'v txn_manager \<times> 'k" where
  "manager_shutdown env m k = abort_all env
     (map fst (filter (\<lambda>(_, c). txn_state c \<noteq> TxCommitted) (tm_active m))) (m\<lparr> tm_shutdown := True \<rparr>) k"

subsection \<open>Begin\<close>

definition maybe_cleanup ::
  "('v, 'k) manager_env \<Rightarrow> instant \<Rightarrow> 'v txn_manager \<Rightarrow> 'k \<Rightarrow> 'v txn_manager \<times> 'k" where
  "maybe_cleanup env now m k = (if mc_auto_cleanup (tm_config m) then cleanup_expired_transactions env now m k else (m, k))"

definition begin_config :: "transaction_options \<Rightarrow> manager_config \<Rightarrow> transaction_config" where
  "begin_config opts cfg = (mc_txn_config cfg)\<lparr>
     cfg_timeout := (case opt_timeout opts of Some d \<Rightarrow> d | None \<Rightarrow> mc_default_timeout cfg),
     cfg_durability := opt_durability opts, cfg_isolation_level := opt_isolation_level opts,
     cfg_query_timeout := opt_query_timeout opts, cfg_statement_timeout := opt_statement_timeout opts,
     cfg_idle_timeout := opt_idle_timeout opts \<rparr>"

definition next_txn_id :: "'v txn_manager \<Rightarrow> txn_id \<times> 'v txn_manager" where
  "next_txn_id m = (tm_next_id m, m\<lparr> tm_next_id := (tm_next_id m + 1) mod 2 ^ 64 \<rparr>)"

definition begin_read_transaction ::
  "('v, 'k) manager_env \<Rightarrow> instant \<Rightarrow> transaction_options \<Rightarrow> 'v txn_manager \<Rightarrow> 'k
   \<Rightarrow> txn_id txn_result \<times> 'v txn_manager \<times> 'k" where
  "begin_read_transaction env now opts m0 k0 = (if tm_shutdown m0 then (Inl Internal, m0, k0)
     else case maybe_cleanup env now m0 k0 of (m, k) \<Rightarrow>
       if length (tm_active m) \<ge> mc_max_concurrent (tm_config m) then (Inl transaction_error_kind.TooManyTransactions, m, k)
       else case next_txn_id m of (t, m1) \<Rightarrow>
         (case acquire_read_timestamp now (tm_vm m1) of
            None \<Rightarrow> (Inl Internal, m1, k)
          | Some (ts, vm) \<Rightarrow> (Inr t, m1\<lparr> tm_vm := vm,
              tm_active := tm_active m1 @ [(t, context_new_readonly now t ts (begin_config opts (tm_config m1)))] \<rparr>, k)))"

definition release_gate_slot :: "'v txn_manager \<Rightarrow> 'v txn_manager" where
  "release_gate_slot m = (if mc_in_memory (tm_config m) then m else m\<lparr> tm_gate := snd (release_write (tm_gate m)) \<rparr>)"

definition acquire_gate_slot :: "'v txn_manager \<Rightarrow> unit txn_result \<times> 'v txn_manager" where
  "acquire_gate_slot m = (if mc_in_memory (tm_config m) then (Inr (), m)
     else case acquire_write (tm_gate m) of
       (Inl _, g) \<Rightarrow> (Inl CheckpointInProgress, m\<lparr> tm_gate := g \<rparr>)
     | (Inr _, g) \<Rightarrow> (Inr (), m\<lparr> tm_gate := g \<rparr>))"

definition begin_insert_transaction ::
  "('v, 'k) manager_env \<Rightarrow> instant \<Rightarrow> transaction_options \<Rightarrow> 'v txn_manager \<Rightarrow> 'k
   \<Rightarrow> txn_id txn_result \<times> 'v txn_manager \<times> 'k" where
  "begin_insert_transaction env now opts m0 k0 = (if tm_shutdown m0 then (Inl Internal, m0, k0)
     else case acquire_gate_slot m0 of
       (Inl e, ma) \<Rightarrow> (Inl e, ma, k0)
     | (Inr _, ma) \<Rightarrow> (case maybe_cleanup env now ma k0 of (m, k) \<Rightarrow>
         if length (tm_active m) \<ge> mc_max_concurrent (tm_config m) then (Inl transaction_error_kind.TooManyTransactions, release_gate_slot m, k)
         else case next_txn_id m of (t, m1) \<Rightarrow>
           (case acquire_insert_timestamp now (tm_vm m1) of
              Inl _ \<Rightarrow> (Inl Internal, release_gate_slot m1, k)
            | Inr (ts, vm) \<Rightarrow>
                let m2 = m1\<lparr> tm_vm := vm \<rparr>; c = context_new now t ts (begin_config opts (tm_config m1)) in
                if cfg_concurrency_mode (config c) = SingleWriter \<and> tm_write_owner m2 \<noteq> 0
                then (Inl WriteTransactionConflict,
                      release_gate_slot (m2\<lparr> tm_vm := abort_write_timestamp ts (tm_vm m2) \<rparr>), k)
                else if cfg_concurrency_mode (config c) = SingleWriter
                then (Inr t, m2\<lparr> tm_write_owner := t, tm_active := tm_active m2 @ [(t, set_pessimistic_lock c)] \<rparr>, k)
                else (Inr t, m2\<lparr> tm_active := tm_active m2 @ [(t, c)] \<rparr>, k))))"

subsection \<open>Commit\<close>

definition record_pending ::
  "transaction_commit_descriptor \<Rightarrow> timestamp \<Rightarrow> nat \<Rightarrow> 'v txn_manager \<Rightarrow> 'v txn_manager" where
  "record_pending d ts lsn m = m\<lparr> tm_pending := bm_insert (cd_transaction_id d) (d, ts, lsn) (tm_pending m) \<rparr>"

definition abort_then ::
  "('v, 'k) manager_env \<Rightarrow> transaction_error_kind \<Rightarrow> txn_id \<Rightarrow> 'v txn_manager \<Rightarrow> 'k \<Rightarrow> ('v, 'k) mgr_op" where
  "abort_then env e t m k = (case abort_common env None t m k of (_, m1, k1) \<Rightarrow> (Inl e, m1, k1))"

definition cert_error_kind :: "cert_error \<Rightarrow> transaction_error_kind" where
  "cert_error_kind e = (case e of CertNotFound \<Rightarrow> TransactionNotFound | CertConflict _ \<Rightarrow> SerializationFailed)"

definition commit_admission ::
  "('v, 'k) manager_env \<Rightarrow> instant \<Rightarrow> txn_id \<Rightarrow> 'v txn_manager \<Rightarrow> 'k
   \<Rightarrow> (transaction_error_kind, 'v transaction_context) result \<times> 'v txn_manager \<times> 'k" where
  "commit_admission env now t m k = (case map_of (tm_active m) t of
      None \<Rightarrow> (Inl TransactionNotFound, m, k)
    | Some c \<Rightarrow>
        if \<not> state_can_commit (txn_state c) then (Inl InvalidStateForCommit, m, k)
        else if rollback_only c then (Inl InvalidStateForCommit, m, k)
        else if check_timeouts now c \<noteq> Inr ()
        then (case abort_then env TransactionTimeout t m k of (_, m1, k1) \<Rightarrow> (Inl TransactionTimeout, m1, k1))
        else case (if is_user_transaction (txn_type c) then check_write_set_conflict t (tm_active m) (tm_certifier m)
                   else (Inr (), tm_active m, tm_certifier m)) of
          (Inl e, act, ce) \<Rightarrow>
            (case abort_then env (cert_error_kind e) t (m\<lparr> tm_active := act, tm_certifier := ce \<rparr>) k of
               (_, m1, k1) \<Rightarrow> (Inl (cert_error_kind e), m1, k1))
        | (Inr _, act, ce) \<Rightarrow>
            let m1 = m\<lparr> tm_active := act, tm_certifier := ce \<rparr> in
            if txn_type c = TyRecovery \<or> txn_type c = TyDummy then (Inl InvalidStateForCommit, m1, k)
            else if list_ex (\<lambda>veto. veto c) (me_vetoes env) then (Inl CommitVetoed, m1, k)
            else case map_of act t of
              None \<Rightarrow> (Inl TransactionNotFound, m1, k)
            | Some c1 \<Rightarrow> (case transition_to TxCommitting c1 of
                (Inl e, _) \<Rightarrow> (Inl e, m1, k)
              | (Inr _, c2) \<Rightarrow> (Inr c2, set_ctx t c2 m1, k)))"

definition commit_durable ::
  "('v, 'k) manager_env \<Rightarrow> 'v transaction_context \<Rightarrow> txn_id \<Rightarrow> 'v txn_manager \<Rightarrow> 'k \<Rightarrow> nat txn_result \<times> 'v txn_manager \<times> 'k" where
  "commit_durable env c t m k = (if \<not> is_user_transaction (txn_type c) then (Inr 0, m, k)
     else if mc_in_memory (tm_config m) then (Inr (start_timestamp c), set_ctx t (clear_derived_wal c) m, k)
     else case me_sink env of
       None \<Rightarrow> (Inr 0, m, k)
     | Some sk \<Rightarrow> (case retry (mc_commit_retries (tm_config m)) (sk_commit sk (build_commit_descriptor c)) k of
         (Inr lsn, k1) \<Rightarrow> (Inr lsn, m, k1)
       | (Inl _, k1) \<Rightarrow> (case abort_then env CommitFailed t m k1 of (_, m1, k2) \<Rightarrow> (Inl CommitFailed, m1, k2))))"

definition commit_reserve ::
  "instant \<Rightarrow> transaction_commit_descriptor \<Rightarrow> nat \<Rightarrow> 'v transaction_context \<Rightarrow> txn_id \<Rightarrow> 'v txn_manager
   \<Rightarrow> timestamp txn_result \<times> 'v txn_manager" where
  "commit_reserve now d lsn c t m = (if txn_type c = TyReadOnly
     then (Inr 0, release_statement_pin t (m\<lparr> tm_vm := release_read_timestamp_at (start_timestamp c) (tm_vm m) \<rparr>))
     else if txn_type c = TyWrite
     then let m1 = release_write_lease t (prune_committed_write_sets (get_safe_gc_timestamp (tm_vm m)) m)
       in (case reserve_commit_timestamp now (start_timestamp c) (tm_vm m1) of
             Inr (ts, vm) \<Rightarrow> (Inr ts, m1\<lparr> tm_vm := vm \<rparr>)
           | Inl _ \<Rightarrow> (Inl CommitFailed, emit (EvDurableUnfinalized t (start_timestamp c) lsn) (record_pending d 0 lsn m1)))
     else (Inr 0, m))"

definition commit_review ::
  "('v, 'k) manager_env \<Rightarrow> transaction_commit_descriptor \<Rightarrow> timestamp \<Rightarrow> 'v transaction_context \<Rightarrow> txn_id \<Rightarrow> 'v txn_manager \<Rightarrow> 'k
   \<Rightarrow> ('v, 'k) mgr_op" where
  "commit_review env d ts c t m k = (if txn_type c \<noteq> TyWrite then (Inr (), m, k)
     else if ws_is_empty (cd_write_set d) then (Inr (), m\<lparr> tm_certifier := unregister_reads t (tm_certifier m) \<rparr>, k)
     else case publish t ts (start_timestamp c) (cd_write_set d) (tm_active m) (tm_certifier m) of
       (Inr _, ce) \<Rightarrow> (Inr (), m\<lparr> tm_certifier := ce \<rparr>, k)
     | (Inl e, ce) \<Rightarrow> abort_then env (cert_error_kind e) t
         (m\<lparr> tm_certifier := ce, tm_vm := abort_write_timestamp ts (tm_vm m) \<rparr>) k)"

definition commit_finalize ::
  "('v, 'k) manager_env \<Rightarrow> transaction_commit_descriptor \<Rightarrow> nat \<Rightarrow> timestamp \<Rightarrow> 'v transaction_context \<Rightarrow> txn_id \<Rightarrow> 'v txn_manager \<Rightarrow> 'k
   \<Rightarrow> ('v, 'k) mgr_op" where
  "commit_finalize env d lsn ts c t m k = (if \<not> is_user_transaction (txn_type c) \<or> mc_in_memory (tm_config m) then (Inr (), m, k)
     else case me_sink env of
       None \<Rightarrow> (Inr (), m, k)
     | Some sk \<Rightarrow> (case retry (mc_commit_retries (tm_config m)) (sk_finalize sk d lsn) k of
         (Inr _, k1) \<Rightarrow> (Inr (), m, k1)
       | (Inl _, k1) \<Rightarrow>
           let m1 = emit (EvDurableUnfinalized t (start_timestamp c) lsn) (record_pending d 0 lsn m);
               vm1 = abort_write_timestamp (start_timestamp c) (tm_vm m1);
               vm2 = (if ts \<noteq> 0 then abort_write_timestamp ts vm1 else vm1)
           in (Inl CommitFailed, m1\<lparr> tm_vm := vm2, tm_certifier := unregister_reads t (tm_certifier m1) \<rparr>, k1)))"

definition should_auto_checkpoint :: "'v txn_manager \<Rightarrow> bool" where
  "should_auto_checkpoint m \<longleftrightarrow> mc_auto_checkpoint (tm_config m) \<and> \<not> mc_in_memory (tm_config m) \<and>
     max (mc_checkpoint_threshold (tm_config m)) 1 \<le> tm_commits_since_checkpoint m"

definition commit_settle ::
  "('v, 'k) manager_env \<Rightarrow> instant \<Rightarrow> transaction_commit_descriptor \<Rightarrow> nat \<Rightarrow> timestamp \<Rightarrow> txn_id \<Rightarrow> 'v txn_manager \<Rightarrow> 'k
   \<Rightarrow> ('v, 'k) mgr_op" where
  "commit_settle env now d lsn ts t m k = (case map_of (tm_active m) t of
      None \<Rightarrow> (Inl TransactionNotFound, m, k)
    | Some c \<Rightarrow>
        let m1 = (if txn_type c = TyWrite
                  then release_statement_pin t (set_ctx t (ctx_publish_commit_timestamp ts (set_commit_timestamp ts c))
                         (m\<lparr> tm_vm := publish_reserved_commit now (start_timestamp c) ts (tm_vm m) \<rparr>))
                  else m);
            c1 = (case map_of (tm_active m1) t of Some x \<Rightarrow> x | None \<Rightarrow> c);
            first = clear_undo_logs c1;
            cleared = (if fst first = Inr () then first else clear_undo_logs (snd first))
        in if fst cleared \<noteq> Inr ()
           then (Inr (), emit (EvDurableUnfinalized t (start_timestamp c) lsn)
                  (release_long_read t (remove_ctx t
                    (record_pending (d\<lparr> cd_commit_timestamp := ts \<rparr>) ts lsn m1))), k)
           else case transition_to TxCommitted (snd cleared) of
             (Inl e, _) \<Rightarrow> (Inl e, m1, k)
           | (Inr _, _) \<Rightarrow>
               let m2 = emit (EvCommitted t (start_timestamp c) ts False) (release_long_read t (remove_ctx t m1));
                   m3 = (if txn_type c = TyWrite
                         then m2\<lparr> tm_commits_since_checkpoint := tm_commits_since_checkpoint m2 + 1 \<rparr> else m2)
               in (Inr (), m3,
                   if should_auto_checkpoint m3 \<and> txn_type c = TyWrite
                   then (case me_sink env of None \<Rightarrow> k | Some sk \<Rightarrow> sk_checkpoint sk k) else k))"

definition commit_transaction ::
  "('v, 'k) manager_env \<Rightarrow> instant \<Rightarrow> txn_id \<Rightarrow> 'v txn_manager \<Rightarrow> 'k \<Rightarrow> ('v, 'k) mgr_op" where
  "commit_transaction env now t m k = (case commit_admission env now t m k of
      (Inl e, m1, k1) \<Rightarrow> (Inl e, m1, k1)
    | (Inr c, m1, k1) \<Rightarrow> let d = build_commit_descriptor c in
      (case commit_durable env c t m1 k1 of
        (Inl e, m2, k2) \<Rightarrow> (Inl e, m2, k2)
      | (Inr lsn, m2, k2) \<Rightarrow>
      (case commit_reserve now d lsn c t m2 of
        (Inl e, m3) \<Rightarrow> (Inl e, m3, k2)
      | (Inr ts, m3) \<Rightarrow>
      (case commit_review env d ts c t m3 k2 of
        (Inl e, m4, k4) \<Rightarrow> (Inl e, m4, k4)
      | (Inr _, m4, k4) \<Rightarrow>
        (let m5 = (case map_of (tm_active m4) t of None \<Rightarrow> m4 | Some x \<Rightarrow> set_ctx t (mark_commit_published lsn x) m4)
         in case commit_finalize env d lsn ts c t m5 k4 of
              (Inl e, m6, k6) \<Rightarrow> (Inl e, m6, k6)
            | (Inr _, m6, k6) \<Rightarrow> commit_settle env now d lsn ts t m6 k6)))))"

subsection \<open>Recovery of unfinalized commits\<close>

definition take_pending ::
  "txn_id \<Rightarrow> 'v txn_manager \<Rightarrow> (transaction_commit_descriptor \<times> timestamp \<times> nat) option \<times> 'v txn_manager" where
  "take_pending t m = (bm_get (tm_pending m) t, m\<lparr> tm_pending := bm_remove t (tm_pending m) \<rparr>)"

definition force_publish_known ::
  "txn_id \<Rightarrow> timestamp \<Rightarrow> write_set \<Rightarrow> 'v txn_manager \<Rightarrow> 'v txn_manager" where
  "force_publish_known t ts ws m = (if ts \<noteq> 0 \<and> \<not> ws_is_empty ws
     then m\<lparr> tm_certifier := force_publish t ts ws (tm_certifier m) \<rparr> else m)"

definition recovery_timestamp ::
  "instant \<Rightarrow> timestamp \<Rightarrow> 'v transaction_context \<Rightarrow> version_manager
   \<Rightarrow> (transaction_error_kind, timestamp \<times> 'v transaction_context \<times> version_manager) result" where
  "recovery_timestamp now pending_ts c vm = (if pending_ts = 0 \<and> commit_timestamp c = 0
     then (case allocate_commit_timestamp now (start_timestamp c) vm of
        Inl _ \<Rightarrow> Inl CommitFailed
      | Inr (ts, vm1) \<Rightarrow> Inr (ts, ctx_publish_commit_timestamp ts (set_commit_timestamp ts c), vm1))
     else let ts = max (commit_timestamp c) pending_ts
       in Inr (ts, if commit_timestamp c = 0 \<and> ts \<noteq> 0
                   then ctx_publish_commit_timestamp ts (set_commit_timestamp ts c) else c, vm))"

definition recover_pending_finalization ::
  "('v, 'k) manager_env \<Rightarrow> instant \<Rightarrow> txn_id \<Rightarrow> 'v txn_manager \<Rightarrow> 'k \<Rightarrow> ('v, 'k) mgr_op" where
  "recover_pending_finalization env now t m0 k = (case take_pending t m0 of
      (None, _) \<Rightarrow> (Inl TransactionNotFound, m0, k)
    | (Some (d, pts, lsn), m) \<Rightarrow>
      let requeue = record_pending d pts lsn;
          finalize = (\<lambda>sk. sk_finalize sk d lsn) in
      case map_of (tm_active m) t of
        None \<Rightarrow> (Inr (), force_publish_known t pts (cd_write_set d) m,
          (if mc_in_memory (tm_config m) then k
           else case me_sink env of None \<Rightarrow> k | Some sk \<Rightarrow> snd (finalize sk k)))
      | Some c \<Rightarrow>
        if txn_state c \<noteq> TxCommitting \<or> \<not> commit_published c then (Inl InvalidStateForCommit, requeue m, k)
        else case (if mc_in_memory (tm_config m) then (Inr (), k)
                   else case me_sink env of
                     None \<Rightarrow> (Inr (), k) | Some sk \<Rightarrow> retry (mc_commit_retries (tm_config m)) (finalize sk) k) of
          (Inl _, k1) \<Rightarrow> (Inl CommitFailed, requeue m, k1)
        | (Inr _, k1) \<Rightarrow> (case recovery_timestamp now pts c (tm_vm m) of
            Inl e \<Rightarrow> (Inl e, requeue m, k1)
          | Inr (ts, c1, vm1) \<Rightarrow>
              let m1 = release_statement_pin t (force_publish_known t ts (cd_write_set d) (set_ctx t c1 (m\<lparr> tm_vm := vm1 \<rparr>)))
              in case clear_undo_logs c1 of
                   (Inl _, c2) \<Rightarrow> (Inl RollbackFailed, requeue (set_ctx t c2 m1), k1)
                 | (Inr _, c2) \<Rightarrow> (case transition_to TxCommitted c2 of
                     (Inl e, _) \<Rightarrow> (Inl e, m1, k1)
                   | (Inr _, _) \<Rightarrow>
                       let m2 = release_long_read t (remove_ctx t m1);
                           m3 = m2\<lparr> tm_certifier := unregister_reads t (tm_certifier m2) \<rparr>
                       in (Inr (), emit (EvCommitted t (start_timestamp c) ts True) m3, k1))))"

end
