(* ===== verification/TxnLeases.thy ===== *)
theory TxnLeases
  imports TxnManager
begin

text \<open>
  The write leases of the transaction manager: the counter of the checkpoint gate and
  the single-writer exclusion are held by exactly the write transactions of the active
  table whose resources are not released, through every path of begin, commit, abort,
  cleanup, shutdown and recovery.
\<close>

subsection \<open>Invariant\<close>

definition write_held :: "'v transaction_context \<Rightarrow> bool" where
  "write_held c \<longleftrightarrow> txn_type c = TyWrite \<and> \<not> resources_released c"

abbreviation held_count :: "'v active_table \<Rightarrow> nat" where
  "held_count a \<equiv> length (filter (\<lambda>(i, c). write_held c) a)"

definition leases_ok :: "nat \<Rightarrow> 'v txn_manager \<Rightarrow> bool" where
  "leases_ok e m \<longleftrightarrow> 0 < tm_next_id m \<and> tm_next_id m < 2 ^ 64 \<and> distinct (map fst (tm_active m)) \<and> (\<forall>i \<in> fst ` set (tm_active m). 0 < i \<and> i < tm_next_id m) \<and>
     length (tm_active m) \<le> mc_max_concurrent (tm_config m) \<and> mc_max_concurrent (tm_config m) + 1 < 2 ^ 64 \<and>
     (\<not> mc_in_memory (tm_config m) \<longrightarrow> active_writes (tm_gate m) = held_count (tm_active m) + e) \<and>
     (\<forall>(i, c) \<in> set (tm_active m). write_held c \<and> pessimistic_lock_held c \<longrightarrow> i = tm_write_owner m)"

definition idle_ok :: "'v transaction_context \<Rightarrow> bool" where
  "idle_ok c \<longleftrightarrow> (write_held c \<longrightarrow> txn_state c = TxActive \<and> \<not> commit_published c)"

definition busy_ok :: "'v transaction_context \<Rightarrow> bool" where
  "busy_ok c \<longleftrightarrow> (write_held c \<longrightarrow> txn_state c \<in> {TxActive, TxCommitting} \<and> \<not> commit_published c)"

definition all_idle :: "'v txn_manager \<Rightarrow> bool" where
  "all_idle m \<longleftrightarrow> (\<forall>(i, c) \<in> set (tm_active m). idle_ok c)"

definition all_idle_but :: "txn_id \<Rightarrow> 'v txn_manager \<Rightarrow> bool" where
  "all_idle_but t m \<longleftrightarrow> (\<forall>(i, c) \<in> set (tm_active m). i \<noteq> t \<longrightarrow> idle_ok c)"

lemma all_idle_weaken: "all_idle m \<Longrightarrow> all_idle_but t m"
  by (auto simp: all_idle_def all_idle_but_def)

lemma leases_frame [simp]:
  "leases_ok e (m\<lparr> tm_vm := x1 \<rparr>) = leases_ok e m" "leases_ok e (m\<lparr> tm_certifier := x2 \<rparr>) = leases_ok e m"
  "leases_ok e (m\<lparr> tm_pending := x3 \<rparr>) = leases_ok e m" "leases_ok e (m\<lparr> tm_shutdown := x4 \<rparr>) = leases_ok e m"
  "leases_ok e (m\<lparr> tm_commits_since_checkpoint := x5 \<rparr>) = leases_ok e m"
  "leases_ok e (m\<lparr> tm_long_reads := x6 \<rparr>) = leases_ok e m" "leases_ok e (m\<lparr> tm_events := x7 \<rparr>) = leases_ok e m"
  by (simp_all add: leases_ok_def)

lemma idle_frame [simp]:
  "all_idle (m\<lparr> tm_vm := x1 \<rparr>) = all_idle m" "all_idle (m\<lparr> tm_certifier := x2 \<rparr>) = all_idle m"
  "all_idle (m\<lparr> tm_pending := x3 \<rparr>) = all_idle m" "all_idle (m\<lparr> tm_shutdown := x4 \<rparr>) = all_idle m"
  "all_idle (m\<lparr> tm_commits_since_checkpoint := x5 \<rparr>) = all_idle m" "all_idle (m\<lparr> tm_long_reads := x6 \<rparr>) = all_idle m"
  "all_idle (m\<lparr> tm_events := x7 \<rparr>) = all_idle m" "all_idle (m\<lparr> tm_gate := x8 \<rparr>) = all_idle m"
  "all_idle (m\<lparr> tm_write_owner := x9 \<rparr>) = all_idle m" "all_idle (m\<lparr> tm_next_id := x10 \<rparr>) = all_idle m"
  "all_idle_but t (m\<lparr> tm_vm := x1 \<rparr>) = all_idle_but t m" "all_idle_but t (m\<lparr> tm_certifier := x2 \<rparr>) = all_idle_but t m"
  "all_idle_but t (m\<lparr> tm_gate := x8 \<rparr>) = all_idle_but t m" "all_idle_but t (m\<lparr> tm_write_owner := x9 \<rparr>) = all_idle_but t m"
  by (simp_all add: all_idle_def all_idle_but_def)

subsection \<open>The table\<close>

definition same_lease :: "'v transaction_context \<Rightarrow> 'v transaction_context \<Rightarrow> bool" where
  "same_lease c c' \<longleftrightarrow> write_held c' = write_held c \<and>
     (write_held c \<longrightarrow> pessimistic_lock_held c' = pessimistic_lock_held c)"

lemma map_of_upd: "map_of (map (\<lambda>(i, x). (i, if i = t then c else x)) a) j =
    (if j = t then map_option (\<lambda>_. c) (map_of a t) else map_of a j)"
  by (induction a) auto

lemma set_ctx_fields [simp]:
  "tm_vm (set_ctx t c m) = tm_vm m" "tm_config (set_ctx t c m) = tm_config m" "tm_gate (set_ctx t c m) = tm_gate m"
  "tm_certifier (set_ctx t c m) = tm_certifier m" "tm_write_owner (set_ctx t c m) = tm_write_owner m"
  "tm_next_id (set_ctx t c m) = tm_next_id m" "map fst (tm_active (set_ctx t c m)) = map fst (tm_active m)"
  "length (tm_active (set_ctx t c m)) = length (tm_active m)"
  by (simp_all add: set_ctx_def comp_def case_prod_beta)

lemma set_ctx_lookup [simp]:
  "map_of (tm_active (set_ctx t c m)) j = (if j = t then map_option (\<lambda>_. c) (map_of (tm_active m) t) else map_of (tm_active m) j)"
  by (simp add: set_ctx_def map_of_upd)

lemma set_ctx_mem:
  "(i, x) \<in> set (tm_active (set_ctx t c m)) \<longleftrightarrow>
   (if i = t then x = c \<and> t \<in> fst ` set (tm_active m) else (i, x) \<in> set (tm_active m))"
proof -
  have "(i, x) \<in> set (map (\<lambda>(i, x). (i, if i = t then c else x)) a) \<longleftrightarrow>
      (if i = t then x = c \<and> t \<in> fst ` set a else (i, x) \<in> set a)" for a
    by (induction a) auto
  then show ?thesis by (simp add: set_ctx_def del: set_map)
qed

lemma set_ctx_keys [simp]: "fst ` set (tm_active (set_ctx t c m)) = fst ` set (tm_active m)"
  by (metis list.set_map set_ctx_fields(7))

lemma held_count_upd:
  "\<lbrakk> distinct (map fst a); map_of a t = Some c \<rbrakk> \<Longrightarrow>
   held_count (map (\<lambda>(i, x). (i, if i = t then c' else x)) a) + (if write_held c then 1 else 0) =
   held_count a + (if write_held c' then 1 else 0)"
proof (induction a)
  case (Cons x a)
  obtain i d where x: "x = (i, d)" by force
  show ?case
  proof (cases "i = t")
    case True
    then have "map (\<lambda>(i, x). (i, if i = t then c' else x)) a = a"
      using Cons.prems x by (intro map_idI) (force simp: image_iff)
    then show ?thesis using True Cons.prems x by simp
  next
    case False
    then show ?thesis using Cons x by simp
  qed
qed simp

lemma leases_set_ctx:
  assumes "leases_ok e m" "map_of (tm_active m) t = Some c" "same_lease c c'"
  shows "leases_ok e (set_ctx t c' m)"
proof -
  have d: "distinct (map fst (tm_active m))" using assms(1) by (simp add: leases_ok_def)
  have h: "write_held c' = write_held c" "write_held c \<longrightarrow> pessimistic_lock_held c' = pessimistic_lock_held c"
    using assms(3) by (simp_all add: same_lease_def)
  have "held_count (tm_active (set_ctx t c' m)) = held_count (tm_active m)"
    using held_count_upd [OF d assms(2), of c'] h(1) by (auto simp: set_ctx_def split: if_splits)
  moreover have "(t, c) \<in> set (tm_active m)" by (rule map_of_SomeD [OF assms(2)])
  moreover have "write_held x \<and> pessimistic_lock_held x \<longrightarrow> i = tm_write_owner m"
    if "(i, x) \<in> set (tm_active (set_ctx t c' m))" for i x
    using that assms(1) h \<open>(t, c) \<in> set (tm_active m)\<close> by (fastforce simp: leases_ok_def set_ctx_mem split: if_splits)
  ultimately show ?thesis using assms(1) unfolding leases_ok_def by (simp add: Ball_def)
qed

lemma idle_set_ctx:
  "all_idle_but t m \<Longrightarrow> all_idle_but t (set_ctx t c m)"
  "all_idle_but t m \<Longrightarrow> idle_ok c \<Longrightarrow> all_idle (set_ctx t c m)"
  by (auto simp: all_idle_def all_idle_but_def set_ctx_mem split: if_splits)

lemma remove_ctx_fields [simp]:
  "tm_vm (remove_ctx t m) = tm_vm m" "tm_config (remove_ctx t m) = tm_config m" "tm_gate (remove_ctx t m) = tm_gate m"
  "tm_write_owner (remove_ctx t m) = tm_write_owner m" "tm_next_id (remove_ctx t m) = tm_next_id m"
  "set (tm_active (remove_ctx t m)) = {(i, c). (i, c) \<in> set (tm_active m) \<and> i \<noteq> t}"
  "map_of (tm_active (remove_ctx t m)) t = None"
  by (auto simp: remove_ctx_def map_of_eq_None_iff)

lemma held_count_remove:
  assumes "distinct (map fst a)" "map_of a t = Some c" "\<not> write_held c"
  shows "held_count (filter (\<lambda>(i, _). i \<noteq> t) a) = held_count a"
proof -
  have "filter (\<lambda>(i, c). write_held c) (filter (\<lambda>(i, _). i \<noteq> t) a) = filter (\<lambda>(i, c). write_held c) a"
    using assms by (auto simp: filter_filter intro!: filter_cong)
      (metis eq_key_imp_eq_value map_of_SomeD map_of_is_SomeI option.sel)+
  then show ?thesis by simp
qed

lemma leases_remove:
  assumes "leases_ok e m" "\<And>c. map_of (tm_active m) t = Some c \<Longrightarrow> \<not> write_held c"
  shows "leases_ok e (remove_ctx t m)"
proof -
  have d: "distinct (map fst (tm_active m))" using assms(1) by (simp add: leases_ok_def)
  have h: "held_count (tm_active (remove_ctx t m)) = held_count (tm_active m)"
  proof (cases "map_of (tm_active m) t")
    case None
    then have "filter (\<lambda>(i, _). i \<noteq> t) (tm_active m) = tm_active m"
      by (intro filter_True) (force simp: map_of_eq_None_iff)
    then show ?thesis by (simp add: remove_ctx_def)
  next
    case (Some c)
    then show ?thesis using held_count_remove [OF d Some assms(2) [OF Some]] by (simp add: remove_ctx_def)
  qed
  have "distinct (map fst (tm_active (remove_ctx t m)))" using d by (simp add: remove_ctx_def distinct_map_filter)
  moreover have "length (tm_active (remove_ctx t m)) \<le> length (tm_active m)" by (simp add: remove_ctx_def)
  moreover have "fst ` set (tm_active (remove_ctx t m)) \<subseteq> fst ` set (tm_active m)" by auto
  ultimately show ?thesis using assms(1) h unfolding leases_ok_def by auto
qed

lemma idle_remove: "all_idle_but t m \<Longrightarrow> all_idle (remove_ctx t m)"
  by (auto simp: all_idle_def all_idle_but_def)

lemma release_write_count:
  assumes "active_writes g = Suc n" "Suc n < 2 ^ 64"
  shows "active_writes (snd (release_write g)) = n"
proof -
  have "(Suc n + (2 ^ 64 - 1)) mod 2 ^ 64 = n" using assms(2) by simp
  then show ?thesis using assms(1) by (simp add: release_write_def fetch_sub_writes_def)
qed

lemma held_bound: "leases_ok e m \<Longrightarrow> held_count (tm_active m) \<le> mc_max_concurrent (tm_config m)"
proof -
  assume "leases_ok e m"
  then have "length (tm_active m) \<le> mc_max_concurrent (tm_config m)" by (simp add: leases_ok_def)
  with length_filter_le [of "\<lambda>(i, c). write_held c" "tm_active m"] show ?thesis by (rule order_trans)
qed

lemma leases_release:
  assumes ok: "leases_ok e m" "e \<le> 1"
  shows "leases_ok e (release_write_lease t m)"
    and "\<And>c. map_of (tm_active (release_write_lease t m)) t = Some c \<Longrightarrow> \<not> write_held c"
proof -
  let ?m = "release_write_lease t m"
  have "leases_ok e ?m \<and> (\<forall>c. map_of (tm_active ?m) t = Some c \<longrightarrow> \<not> write_held c)"
  proof (cases "map_of (tm_active m) t")
    case None
    then show ?thesis using ok by (simp add: release_write_lease_def)
  next
    case (Some c)
    show ?thesis
    proof (cases "write_held c")
      case False
      then show ?thesis using ok Some leases_set_ctx [OF ok(1) Some]
        by (auto simp: release_write_lease_def mark_resources_released_def write_held_def same_lease_def Let_def)
    next
      case True
      let ?c = "c\<lparr> resources_released := True \<rparr>"
      have m: "?m = (set_ctx t ?c m)\<lparr> tm_write_owner := (if pessimistic_lock_held c then 0 else tm_write_owner m),
          tm_gate := (if mc_in_memory (tm_config m) then tm_gate m else snd (release_write (tm_gate m))) \<rparr>"
        using Some True by (simp add: release_write_lease_def mark_resources_released_def write_held_def Let_def)
      have d: "distinct (map fst (tm_active m))" using ok by (simp add: leases_ok_def)
      have nh: "\<not> write_held ?c" by (simp add: write_held_def)
      have h: "held_count (tm_active (set_ctx t ?c m)) + 1 = held_count (tm_active m)"
        using held_count_upd [OF d Some, of ?c] True nh by (simp add: set_ctx_def)
      have "held_count (tm_active (set_ctx t ?c m)) + e + 1 < 2 ^ 64"
        using held_bound [OF ok(1)] h ok by (simp add: leases_ok_def)
      then have g: "\<not> mc_in_memory (tm_config m) \<longrightarrow>
          active_writes (tm_gate ?m) = held_count (tm_active (set_ctx t ?c m)) + e"
        using m h ok(1) release_write_count [of "tm_gate m" "held_count (tm_active (set_ctx t ?c m)) + e"]
        by (simp add: leases_ok_def)
      have tc: "(t, c) \<in> set (tm_active m)" by (rule map_of_SomeD [OF Some])
      have own: "i = tm_write_owner ?m" if "(i, x) \<in> set (tm_active (set_ctx t ?c m))" "write_held x" "pessimistic_lock_held x" for i x
      proof -
        have i: "i \<noteq> t" "(i, x) \<in> set (tm_active m)" using that nh by (auto simp: set_ctx_mem split: if_splits)
        have "i = tm_write_owner m" using ok(1) i(2) that by (auto simp: leases_ok_def)
        moreover have "pessimistic_lock_held c \<Longrightarrow> t = tm_write_owner m" using ok(1) tc True by (auto simp: leases_ok_def)
        ultimately show ?thesis using i(1) m by auto
      qed
      have "leases_ok e ?m" using ok(1) g own unfolding leases_ok_def m by (auto simp: Ball_def)
      moreover have "map_of (tm_active ?m) t = Some ?c" using m Some by simp
      ultimately show ?thesis using nh by simp
    qed
  qed
  then show "leases_ok e ?m" "\<And>c. map_of (tm_active ?m) t = Some c \<Longrightarrow> \<not> write_held c" by auto
qed

lemma not_held_idle: "\<not> write_held c \<Longrightarrow> idle_ok c"
  by (simp add: idle_ok_def)

lemma idle_but_iff:
  "distinct (map fst (tm_active m)) \<Longrightarrow> all_idle_but t m \<Longrightarrow>
   (\<And>c. map_of (tm_active m) t = Some c \<Longrightarrow> idle_ok c) \<Longrightarrow> all_idle m"
  by (fastforce simp: all_idle_def all_idle_but_def split: if_splits)

lemma idle_release:
  assumes ok: "leases_ok e m" "e \<le> 1" and idle: "all_idle_but t m"
  shows "all_idle (release_write_lease t m)"
proof -
  have "all_idle_but t (release_write_lease t m)"
    using idle idle_set_ctx(1) [OF idle]
    by (auto simp: release_write_lease_def mark_resources_released_def Let_def split: option.splits)
  then show ?thesis
    using idle_but_iff leases_release [OF ok, of t] not_held_idle by (metis leases_ok_def)
qed

lemma release_pin_cases:
  "release_statement_pin t m = m \<or>
   (\<exists>c vm. map_of (tm_active m) t = Some c \<and>
      release_statement_pin t m = set_ctx t (c\<lparr> statement_snapshot_pin := None \<rparr>) (m\<lparr> tm_vm := vm \<rparr>))"
  by (auto simp: release_statement_pin_def take_statement_snapshot_pin_def split: option.splits)

lemma ctx_pin_view [simp]:
  "same_lease c (c\<lparr> statement_snapshot_pin := p \<rparr>)" "idle_ok (c\<lparr> statement_snapshot_pin := p \<rparr>) = idle_ok c"
  "busy_ok (c\<lparr> statement_snapshot_pin := p \<rparr>) = busy_ok c" "write_held (c\<lparr> statement_snapshot_pin := p \<rparr>) = write_held c"
  by (simp_all add: same_lease_def idle_ok_def busy_ok_def write_held_def)

lemma leases_pin: "leases_ok e m \<Longrightarrow> leases_ok e (release_statement_pin t m)"
  using release_pin_cases [of t m] leases_set_ctx [of e "m\<lparr> tm_vm := _ \<rparr>" t] by fastforce

lemma idle_pin: "all_idle m \<Longrightarrow> all_idle (release_statement_pin t m)"
proof -
  assume i: "all_idle m"
  show ?thesis
  proof (cases "release_statement_pin t m = m")
    case False
    then obtain c vm where c: "map_of (tm_active m) t = Some c"
      "release_statement_pin t m = set_ctx t (c\<lparr> statement_snapshot_pin := None \<rparr>) (m\<lparr> tm_vm := vm \<rparr>)"
      using release_pin_cases [of t m] by blast
    have "idle_ok c" using i map_of_SomeD [OF c(1)] by (auto simp: all_idle_def)
    then show ?thesis unfolding c(2) by (intro idle_set_ctx(2)) (use i in \<open>simp_all add: all_idle_weaken\<close>)
  qed (use i in simp)
qed

lemma pin_lookup:
  "map_of (tm_active (release_statement_pin t m)) t = Some c \<Longrightarrow> \<exists>c0. map_of (tm_active m) t = Some c0 \<and> write_held c = write_held c0"
  using release_pin_cases [of t m] by auto

lemma emit_frame [simp]:
  "leases_ok e (emit ev m) = leases_ok e m" "all_idle (emit ev m) = all_idle m" "tm_active (emit ev m) = tm_active m"
  by (simp_all add: emit_def)

lemma long_read_frame [simp]:
  "leases_ok e (release_long_read t m) = leases_ok e m" "all_idle (release_long_read t m) = all_idle m"
  "tm_active (release_long_read t m) = tm_active m"
  by (simp_all add: release_long_read_def)

lemma prune_frame [simp]:
  "leases_ok e (prune_committed_write_sets ts m) = leases_ok e m" "all_idle (prune_committed_write_sets ts m) = all_idle m"
  "all_idle_but t (prune_committed_write_sets ts m) = all_idle_but t m"
  by (simp_all add: prune_committed_write_sets_def all_idle_but_def)

lemma finalize_abort_ok:
  assumes ok: "leases_ok e m" "e \<le> 1" and idle: "all_idle_but t m"
  shows "leases_ok e (finalize_abort_resources t c m) \<and> all_idle (finalize_abort_resources t c m)"
proof -
  let ?m1 = "m\<lparr> tm_vm := rollback_context_timestamp c (tm_vm m) \<rparr>"
  let ?m2 = "release_write_lease t ?m1"
  let ?m3 = "?m2\<lparr> tm_certifier := unregister_reads t (tm_certifier ?m2) \<rparr>"
  let ?m4 = "release_long_read t (release_statement_pin t ?m3)"
  have l1: "leases_ok e ?m1" using ok(1) by simp
  have 2: "leases_ok e ?m2" "all_idle ?m2" "\<And>x. map_of (tm_active ?m2) t = Some x \<Longrightarrow> \<not> write_held x"
    using leases_release [OF l1 ok(2), of t] idle_release [OF l1 ok(2), of t] idle by auto
  have 4: "leases_ok e ?m4" "all_idle ?m4" using 2 leases_pin [of e ?m3 t] idle_pin [of ?m3 t] by auto
  have "\<not> write_held x" if "map_of (tm_active ?m4) t = Some x" for x
    using that 2(3) pin_lookup [of t ?m3 x] by auto
  then have "leases_ok e (remove_ctx t ?m4)" using leases_remove [OF 4(1), of t] by blast
  moreover have "all_idle (remove_ctx t ?m4)" using idle_remove all_idle_weaken 4(2) by blast
  ultimately show ?thesis by (simp add: finalize_abort_resources_def Let_def split: prod.split sum.split)
qed

lemma execute_abort_ok:
  assumes "leases_ok e m" "e \<le> 1" "all_idle_but t m" "execute_abort_internal env t c m k = (r, m', k')"
  shows "leases_ok e m' \<and> all_idle m'"
  using assms(4) finalize_abort_ok [OF assms(1-3), of c]
  by (auto simp: execute_abort_internal_def Let_def split: prod.splits option.splits)

definition undo_keeps :: "('v, 'k) local_undo \<Rightarrow> bool" where
  "undo_keeps undo \<longleftrightarrow> (\<forall>run c k. undo = Some run \<longrightarrow> same_lease c (fst (snd (run c k))))"

lemma transition_view:
  "transition_to st c = (Inr (), c') \<Longrightarrow> same_lease c c' \<and> commit_published c' = commit_published c \<and> txn_state c' = st \<and>
     txn_type c' = txn_type c"
  by (auto simp: transition_to_def same_lease_def write_held_def split: if_splits)

lemma abort_common_ok:
  assumes ok: "leases_ok e m" "e \<le> 1" and idle: "all_idle_but t m" and undo: "undo_keeps undo"
    and busy: "\<And>c. map_of (tm_active m) t = Some c \<Longrightarrow> busy_ok c"
    and run: "abort_common env undo t m k = (r, m', k')"
  shows "leases_ok e m' \<and> all_idle m'"
proof (cases "map_of (tm_active m) t")
  case None
  then have "all_idle m" using idle_but_iff idle ok(1) by (metis leases_ok_def option.distinct(1))
  then show ?thesis using None run ok(1) by (simp add: abort_common_def)
next
  case (Some c0)
  have d: "distinct (map fst (tm_active m))" using ok(1) by (simp add: leases_ok_def)
  show ?thesis
  proof (cases "commit_published c0 \<or> fst (transition_to TxAborting c0) \<noteq> Inr ()")
    case True
    then have "\<not> write_held c0" using busy [OF Some] by (auto simp: busy_ok_def transition_to_def)
    then have "all_idle m" using idle_but_iff [OF d idle] Some not_held_idle by auto
    moreover have "m' = m" using True run Some by (auto simp: abort_common_def split: prod.splits sum.splits if_splits)
    ultimately show ?thesis using ok(1) by simp
  next
    case False
    then obtain c where c: "transition_to TxAborting c0 = (Inr (), c)"
      by (cases "transition_to TxAborting c0") (auto simp: transition_to_def split: if_splits)
    have sl: "same_lease c0 c" using transition_view [OF c] by simp
    have fin: "leases_ok e m1 \<and> all_idle m1"
      if "same_lease c0 c1" "execute_abort_internal env t c1 (set_ctx t c1 m) k1 = (r1, m1, k2)" for c1 k1 r1 m1 k2
      using execute_abort_ok [OF leases_set_ctx [OF ok(1) Some that(1)] ok(2) idle_set_ctx(1) [OF idle] that(2)] .
    have run_keeps: "same_lease c0 (fst (snd (f c k)))" if "undo = Some f" for f k
      using undo that sl by (fastforce simp: undo_keeps_def same_lease_def)
    show ?thesis
    proof (cases "\<exists>f. undo = Some f \<and> me_sink env = None")
      case True
      then obtain f where f: "undo = Some f" "me_sink env = None" by blast
      obtain r1 c1 k1 where fc: "f c k = (r1, c1, k1)" by (metis prod_cases3)
      obtain r2 m2 k2 where x: "execute_abort_internal env t c1 (set_ctx t c1 m) k1 = (r2, m2, k2)" by (metis prod_cases3)
      have "m' = m2" using run Some False c f fc x by (cases r1) (auto simp: abort_common_def)
      then show ?thesis using fin [OF _ x] run_keeps [OF f(1), of k] fc by simp
    next
      case no: False
      then have "execute_abort_internal env t c (set_ctx t c m) k = (r, m', k')"
        using run Some False c by (auto simp: abort_common_def split: option.splits)
      then show ?thesis using fin [OF sl] by blast
    qed
  qed
qed

lemma idle_lookup: "all_idle m \<Longrightarrow> map_of (tm_active m) t = Some c \<Longrightarrow> idle_ok c"
  by (auto simp: all_idle_def dest: map_of_SomeD)

lemma idle_ok_busy: "idle_ok c \<Longrightarrow> busy_ok c"
  by (auto simp: idle_ok_def busy_ok_def)

lemma abort_idle_ok:
  assumes "leases_ok e m" "e \<le> 1" "all_idle m" "undo_keeps undo" "abort_common env undo t m k = (r, m', k')"
  shows "leases_ok e m' \<and> all_idle m'"
  using abort_common_ok [OF assms(1,2) all_idle_weaken [OF assms(3)] assms(4) _ assms(5)] idle_lookup [OF assms(3)]
    idle_ok_busy by blast

lemma abort_transaction_ok:
  assumes "leases_ok e m" "e \<le> 1" "all_idle m" "undo_keeps undo" "abort_transaction_with env undo t m k = (r, m', k')"
  shows "leases_ok e m' \<and> all_idle m'"
  using assms abort_idle_ok [OF assms(1-4), of env t k r m' k'] by (auto simp: abort_transaction_with_def split: option.splits if_splits)

lemma undo_keeps_None [simp]: "undo_keeps None"
  by (simp add: undo_keeps_def)

lemma abort_all_ok:
  "\<lbrakk> leases_ok e m; e \<le> 1; all_idle m; abort_all env ts m k = (m', k') \<rbrakk> \<Longrightarrow> leases_ok e m' \<and> all_idle m'"
proof (induction ts arbitrary: m k)
  case (Cons t ts)
  obtain r m1 k1 where a: "abort_transaction env t m k = (r, m1, k1)" by (metis prod_cases3)
  show ?case using abort_transaction_ok [OF Cons.prems(1-3) undo_keeps_None a] Cons.IH [of m1 k1] Cons.prems a by simp
qed simp

lemma dead_owner_ok:
  assumes ok: "leases_ok e m" and idle: "all_idle m"
  shows "leases_ok e (release_dead_write_owner m) \<and> all_idle (release_dead_write_owner m)"
proof (cases "release_dead_write_owner m = m")
  case False
  then have new: "release_dead_write_owner m = m\<lparr> tm_write_owner := 0 \<rparr>"
    "\<And>c. map_of (tm_active m) (tm_write_owner m) = Some c \<Longrightarrow> \<not> (pessimistic_lock_held c \<and> txn_state c = TxActive)"
    by (auto simp: release_dead_write_owner_def Let_def state_can_execute_def split: if_splits option.splits)
  have d: "distinct (map fst (tm_active m))" using ok by (simp add: leases_ok_def)
  have "\<not> (write_held c \<and> pessimistic_lock_held c)" if "(i, c) \<in> set (tm_active m)" for i c
  proof
    assume w: "write_held c \<and> pessimistic_lock_held c"
    then have "i = tm_write_owner m" using ok that by (auto simp: leases_ok_def)
    then have "map_of (tm_active m) (tm_write_owner m) = Some c" using that d by simp
    moreover have "txn_state c = TxActive" using idle that w by (auto simp: all_idle_def idle_ok_def)
    ultimately show False using new(2) w by blast
  qed
  then show ?thesis using ok idle unfolding new(1) by (auto simp: leases_ok_def)
qed (use assms in simp)

lemma cleanup_ok:
  assumes "leases_ok e m" "e \<le> 1" "all_idle m" "cleanup_expired_transactions env now m k = (m', k')"
  shows "leases_ok e m' \<and> all_idle m'"
proof -
  obtain ts vm m1 where a: "abort_all env ts (m\<lparr> tm_vm := vm \<rparr>) k = (m1, k')" "m' = release_dead_write_owner m1"
    using assms(4) by (auto simp: cleanup_expired_transactions_def Let_def split: prod.splits)
  from abort_all_ok [OF _ assms(2) _ a(1)] assms(1,3) have "leases_ok e m1 \<and> all_idle m1" by simp
  then show ?thesis unfolding a(2) using dead_owner_ok [of e m1] by simp
qed

lemma shutdown_ok:
  assumes "leases_ok e m" "e \<le> 1" "all_idle m" "manager_shutdown env m k = (m', k')"
  shows "leases_ok e m' \<and> all_idle m'"
  using abort_all_ok [OF _ assms(2) _ assms(4) [unfolded manager_shutdown_def]] assms(1,3) by simp

lemma maybe_cleanup_ok:
  assumes "leases_ok e m" "e \<le> 1" "all_idle m" "maybe_cleanup env now m k = (m', k')"
  shows "leases_ok e m' \<and> all_idle m'"
  using assms cleanup_ok [OF assms(1-3), of env now k m' k'] by (auto simp: maybe_cleanup_def split: if_splits)

subsection \<open>Begin\<close>

lemma context_new_view [simp]:
  "write_held (context_new now t ts cfg)" "\<not> write_held (context_new_readonly now t ts cfg)"
  "idle_ok (context_new now t ts cfg)" "\<not> pessimistic_lock_held (context_new now t ts cfg)"
  "write_held (set_pessimistic_lock c) = write_held c" "idle_ok (set_pessimistic_lock c) = idle_ok c"
  "pessimistic_lock_held (set_pessimistic_lock c)"
  by (simp_all add: write_held_def context_new_def context_new_readonly_def idle_ok_def set_pessimistic_lock_def)

lemma id_no_wrap: "n < 2 ^ 64 \<Longrightarrow> (n + 1) mod 2 ^ 64 \<noteq> 0 \<Longrightarrow> n + 1 < (2 :: nat) ^ 64"
  by (cases "n + 1 = 2 ^ 64") auto

lemma leases_next_id:
  assumes "leases_ok e m" "(tm_next_id m + 1) mod 2 ^ 64 \<noteq> 0"
  shows "leases_ok e (m\<lparr> tm_next_id := (tm_next_id m + 1) mod 2 ^ 64 \<rparr>)"
proof -
  have "tm_next_id m + 1 < 2 ^ 64" using id_no_wrap [OF _ assms(2)] assms(1) by (simp add: leases_ok_def)
  then show ?thesis using assms(1) unfolding leases_ok_def by auto
qed

lemma leases_insert:
  assumes ok: "leases_ok e m" and room: "length (tm_active m) < mc_max_concurrent (tm_config m)"
    and id: "(tm_next_id m + 1) mod 2 ^ 64 \<noteq> 0"
    and e': "e' = (if write_held c then e - 1 else e)" "write_held c \<longrightarrow> 0 < e"
    and own: "write_held c \<and> pessimistic_lock_held c \<longrightarrow>
      w = tm_next_id m \<and> tm_write_owner m = 0" "\<not> (write_held c \<and> pessimistic_lock_held c) \<longrightarrow> w = tm_write_owner m"
  shows "leases_ok e' (m\<lparr> tm_next_id := (tm_next_id m + 1) mod 2 ^ 64, tm_vm := vm, tm_write_owner := w,
     tm_active := tm_active m @ [(tm_next_id m, c)] \<rparr>)"
proof -
  have keys: "\<forall>i \<in> fst ` set (tm_active m). 0 < i \<and> i < tm_next_id m" using ok by (simp add: leases_ok_def)
  then have fresh: "tm_next_id m \<notin> fst ` set (tm_active m)" by blast
  have none: "\<not> (write_held x \<and> pessimistic_lock_held x)" if "(i, x) \<in> set (tm_active m)" "tm_write_owner m = 0" for i x
    using ok that keys by (fastforce simp: leases_ok_def)
  have "i = w" if "(i, x) \<in> set (tm_active m)" "write_held x" "pessimistic_lock_held x" for i x
  proof (cases "write_held c \<and> pessimistic_lock_held c")
    case True
    then show ?thesis using none [OF that(1)] that(2,3) own(1) by simp
  next
    case False
    then show ?thesis using ok that own(2) by (fastforce simp: leases_ok_def)
  qed
  then have o: "\<forall>(i, x) \<in> set (tm_active m @ [(tm_next_id m, c)]). write_held x \<and> pessimistic_lock_held x \<longrightarrow> i = w"
    using own(1) by auto
  have "tm_next_id m + 1 < 2 ^ 64" using id_no_wrap [OF _ id] ok by (simp add: leases_ok_def)
  then show ?thesis using ok room e' keys fresh o unfolding leases_ok_def by (simp add: less_Suc_eq)
qed

lemma release_slot_ok:
  assumes "leases_ok 1 m"
  shows "leases_ok 0 (release_gate_slot m)"
proof (cases "mc_in_memory (tm_config m)")
  case True
  then show ?thesis using assms by (simp add: release_gate_slot_def leases_ok_def)
next
  case False
  have "active_writes (tm_gate m) = Suc (held_count (tm_active m))" using assms False by (simp add: leases_ok_def)
  moreover have "Suc (held_count (tm_active m)) < 2 ^ 64"
    using held_bound [OF assms] assms by (simp add: leases_ok_def)
  ultimately have "active_writes (snd (release_write (tm_gate m))) = held_count (tm_active m)"
    by (rule release_write_count)
  then show ?thesis using assms False unfolding leases_ok_def release_gate_slot_def by simp
qed

lemma acquire_slot_ok:
  assumes "leases_ok 0 m" "acquire_gate_slot m = (r, m')"
  shows "leases_ok (if r = Inr () then 1 else 0) m' \<and> tm_active m' = tm_active m"
proof -
  consider (mem) "mc_in_memory (tm_config m)" | (paused) "\<not> mc_in_memory (tm_config m)" "writing_paused (tm_gate m)"
    | (free) "\<not> (mc_in_memory (tm_config m) \<or> writing_paused (tm_gate m))" by blast
  then show ?thesis
  proof cases
    case mem
    then have "leases_ok 1 m" using assms(1) by (simp add: leases_ok_def)
    then show ?thesis using assms mem by (simp add: acquire_gate_slot_def)
  next
    case paused
    then have "r = Inl CheckpointInProgress" "m' = m" using assms(2) by (auto simp: acquire_gate_slot_def acquire_write_def)
    then show ?thesis using assms(1) by simp
  next
    case free
    note False = free
    have "held_count (tm_active m) + 1 < 2 ^ 64"
      using held_bound [OF assms(1)] assms(1) by (simp add: leases_ok_def)
    moreover have "active_writes (tm_gate m) = held_count (tm_active m)" using assms(1) False by (simp add: leases_ok_def)
    ultimately have "active_writes (fetch_add_writes (tm_gate m)) = held_count (tm_active m) + 1"
      by (simp add: fetch_add_writes_def)
    moreover have "r = Inr ()" "m' = m\<lparr> tm_gate := fetch_add_writes (tm_gate m) \<rparr>"
      using assms(2) False by (simp_all add: acquire_gate_slot_def acquire_write_def Let_def)
    ultimately show ?thesis using assms(1) False unfolding leases_ok_def by simp
  qed
qed

lemma idle_append: "all_idle (m\<lparr> tm_active := a @ [(t, c)] \<rparr>) \<longleftrightarrow> all_idle (m\<lparr> tm_active := a \<rparr>) \<and> idle_ok c"
  by (auto simp: all_idle_def)

lemma begin_read_ok:
  assumes ok: "leases_ok 0 m" "all_idle m" and run: "begin_read_transaction env now opts m k = (r, m', k')"
    and id: "tm_next_id m' \<noteq> 0"
  shows "leases_ok 0 m' \<and> all_idle m'"
proof (cases "tm_shutdown m")
  case True
  then show ?thesis using ok run by (simp add: begin_read_transaction_def)
next
  case False
  obtain m1 k1 where c: "maybe_cleanup env now m k = (m1, k1)" by force
  have ok1: "leases_ok 0 m1" "all_idle m1" using maybe_cleanup_ok [OF ok(1) _ ok(2) c] by auto
  show ?thesis
  proof (cases "length (tm_active m1) \<ge> mc_max_concurrent (tm_config m1)")
    case True
    then show ?thesis using run False c ok1 by (simp add: begin_read_transaction_def)
  next
    case room: False
    show ?thesis
    proof (cases "acquire_read_timestamp now (tm_vm m1)")
      case None
      then have "m' = m1\<lparr> tm_next_id := (tm_next_id m1 + 1) mod 2 ^ 64 \<rparr>"
        using run False c room by (simp add: begin_read_transaction_def next_txn_id_def)
      then show ?thesis using leases_next_id ok1 id by simp
    next
      case (Some p)
      obtain ts vm where p: "p = (ts, vm)" by force
      let ?c = "context_new_readonly now (tm_next_id m1) ts (begin_config opts (tm_config m1))"
      have m': "m' = m1\<lparr> tm_next_id := (tm_next_id m1 + 1) mod 2 ^ 64, tm_vm := vm, tm_write_owner := tm_write_owner m1,
          tm_active := tm_active m1 @ [(tm_next_id m1, ?c)] \<rparr>"
        using run False c room Some p by (simp add: begin_read_transaction_def next_txn_id_def)
      have "leases_ok 0 m'" unfolding m'
        by (rule leases_insert [OF ok1(1)]) (use room id m' in simp_all)
      moreover have "all_idle m'" using ok1(2) unfolding m' by (auto simp: all_idle_def not_held_idle)
      ultimately show ?thesis by simp
    qed
  qed
qed

lemma begin_insert_ok:
  assumes ok: "leases_ok 0 m" "all_idle m" and run: "begin_insert_transaction env now opts m k = (r, m', k')"
    and id: "tm_next_id m' \<noteq> 0"
  shows "leases_ok 0 m' \<and> all_idle m'"
proof (cases "tm_shutdown m")
  case True
  then show ?thesis using ok run by (simp add: begin_insert_transaction_def)
next
  case False
  obtain r0 ma where a: "acquire_gate_slot m = (r0, ma)" by force
  have oka: "leases_ok (if r0 = Inr () then 1 else 0) ma" "all_idle ma"
    using acquire_slot_ok [OF ok(1) a] ok(2) by (simp_all add: all_idle_def)
  show ?thesis
  proof (cases r0)
    case (Inl e)
    then show ?thesis using run False a oka by (simp add: begin_insert_transaction_def)
  next
    case (Inr u)
    obtain m1 k1 where c: "maybe_cleanup env now ma k = (m1, k1)" by force
    have ok1: "leases_ok 1 m1" "all_idle m1" using maybe_cleanup_ok [OF _ _ oka(2) c, of 1] oka(1) Inr by auto
    let ?n = "m1\<lparr> tm_next_id := (tm_next_id m1 + 1) mod 2 ^ 64 \<rparr>"
    have slot: "tm_next_id (release_gate_slot x) = tm_next_id x" "all_idle (release_gate_slot x) = all_idle x" for x :: "'a txn_manager"
      by (simp_all add: release_gate_slot_def)
    consider (full) "length (tm_active m1) \<ge> mc_max_concurrent (tm_config m1)" "m' = release_gate_slot m1"
      | (none) "m' = release_gate_slot ?n"
      | (busy) vm where "m' = release_gate_slot (?n\<lparr> tm_vm := vm \<rparr>)"
      | (optimistic) ts vm where "length (tm_active m1) < mc_max_concurrent (tm_config m1)"
          "m' = ?n\<lparr> tm_vm := vm, tm_active := tm_active m1 @
             [(tm_next_id m1, context_new now (tm_next_id m1) ts (begin_config opts (tm_config m1)))] \<rparr>"
      | (single) ts vm where "length (tm_active m1) < mc_max_concurrent (tm_config m1)" "tm_write_owner m1 = 0"
          "m' = ?n\<lparr> tm_vm := vm, tm_write_owner := tm_next_id m1, tm_active := tm_active m1 @
             [(tm_next_id m1, set_pessimistic_lock (context_new now (tm_next_id m1) ts (begin_config opts (tm_config m1))))] \<rparr>"
      using run False a Inr c
      by (auto simp: begin_insert_transaction_def next_txn_id_def Let_def not_le split: if_splits sum.splits prod.splits)
    then show ?thesis
    proof cases
      case full
      then show ?thesis using release_slot_ok ok1 slot by auto
    next
      case none
      then have "leases_ok 1 ?n" using leases_next_id [OF ok1(1)] id slot by simp
      then show ?thesis using release_slot_ok ok1(2) slot none by simp
    next
      case (busy vm)
      then have "leases_ok 1 ?n" using leases_next_id [OF ok1(1)] id slot by simp
      then show ?thesis using release_slot_ok [of "?n\<lparr> tm_vm := vm \<rparr>"] ok1(2) slot busy by simp
    next
      case (optimistic ts vm)
      then have m': "m' = ?n\<lparr> tm_vm := vm, tm_write_owner := tm_write_owner m1, tm_active := tm_active m1 @
             [(tm_next_id m1, context_new now (tm_next_id m1) ts (begin_config opts (tm_config m1)))] \<rparr>" by simp
      have "leases_ok 0 m'" unfolding m'
        by (rule leases_insert [OF ok1(1) optimistic(1)]) (use id m' in simp_all)
      moreover have "all_idle m'" using ok1(2) unfolding m' by (auto simp: all_idle_def)
      ultimately show ?thesis by simp
    next
      case (single ts vm)
      have "leases_ok 0 m'" unfolding single(3)
        by (rule leases_insert [OF ok1(1) single(1)]) (use id single in simp_all)
      moreover have "all_idle m'" using ok1(2) unfolding single(3) by (auto simp: all_idle_def)
      ultimately show ?thesis by simp
    qed
  qed
qed

subsection \<open>Commit\<close>

lemma mark_validated_upd:
  "distinct (map fst a) \<Longrightarrow> map_of a t = Some c \<Longrightarrow>
   mark_validated t a = map (\<lambda>(i, x). (i, if i = t then mark_write_validated c else x)) a"
proof (induction a)
  case (Cons x a)
  obtain i d where x: "x = (i, d)" by force
  show ?case
  proof (cases "i = t")
    case True
    then have "t \<notin> fst ` set a" using Cons.prems x by auto
    then have "mark_validated t a = a" "map (\<lambda>(i, x). (i, if i = t then mark_write_validated c else x)) a = a"
      by (auto simp: mark_validated_def intro!: map_idI split: prod.splits) force+
    then show ?thesis using True Cons.prems x by (simp add: mark_validated_def)
  next
    case False
    then show ?thesis using Cons x by (simp add: mark_validated_def)
  qed
qed simp

lemma check_active:
  assumes "check_write_set_conflict t a ce = (r, a', ce')"
  shows "a' = a \<or> a' = mark_validated t a"
  using assms by (auto simp: check_write_set_conflict_def Let_def split: option.splits if_splits sum.splits)

lemma validated_view [simp]:
  "write_held (mark_write_validated c) = write_held c" "same_lease c (mark_write_validated c)"
  "idle_ok (mark_write_validated c) = idle_ok c" "busy_ok (mark_write_validated c) = busy_ok c"
  by (simp_all add: mark_write_validated_def write_held_def same_lease_def idle_ok_def busy_ok_def)

lemma check_ok:
  assumes ok: "leases_ok 0 m" "all_idle m" and c: "map_of (tm_active m) t = Some c"
    and chk: "check_write_set_conflict t (tm_active m) ce = (r, a', ce')"
  shows "leases_ok 0 (m\<lparr> tm_active := a' \<rparr>)" "all_idle (m\<lparr> tm_active := a' \<rparr>)"
proof -
  have d: "distinct (map fst (tm_active m))" using ok(1) by (simp add: leases_ok_def)
  have "m\<lparr> tm_active := a' \<rparr> = m \<or> m\<lparr> tm_active := a' \<rparr> = set_ctx t (mark_write_validated c) m"
    using check_active [OF chk] mark_validated_upd [OF d c] by (auto simp: set_ctx_def)
  moreover have "leases_ok 0 (set_ctx t (mark_write_validated c) m)" by (rule leases_set_ctx [OF ok(1) c]) simp
  moreover have "all_idle (set_ctx t (mark_write_validated c) m)"
    using idle_set_ctx(2) [OF all_idle_weaken [OF ok(2)]] idle_lookup [OF ok(2) c] by simp
  ultimately show "leases_ok 0 (m\<lparr> tm_active := a' \<rparr>)" "all_idle (m\<lparr> tm_active := a' \<rparr>)" using ok by auto
qed

definition committing :: "txn_id \<Rightarrow> 'v transaction_context \<Rightarrow> 'v txn_manager \<Rightarrow> bool" where
  "committing t c m \<longleftrightarrow> leases_ok 0 m \<and> all_idle_but t m \<and>
     (\<exists>x. map_of (tm_active m) t = Some x \<and> busy_ok x \<and> txn_type x = txn_type c)"

definition released :: "txn_id \<Rightarrow> 'v txn_manager \<Rightarrow> bool" where
  "released t m \<longleftrightarrow> leases_ok 0 m \<and> all_idle m \<and> (\<forall>x. map_of (tm_active m) t = Some x \<longrightarrow> \<not> write_held x)"

lemma released_ok: "released t m \<Longrightarrow> leases_ok 0 m \<and> all_idle m"
  by (simp add: released_def)

lemma abort_then_ok:
  assumes ok: "leases_ok 0 m" and idle: "all_idle_but t m" and busy: "\<And>c. map_of (tm_active m) t = Some c \<Longrightarrow> busy_ok c"
    and run: "abort_then env e t m k = (r, m', k')"
  shows "leases_ok 0 m' \<and> all_idle m'"
proof -
  obtain r0 where "abort_common env None t m k = (r0, m', k')" using run by (auto simp: abort_then_def split: prod.splits)
  from abort_common_ok [OF ok _ idle undo_keeps_None busy this] show ?thesis by simp
qed

lemma abort_then_idle_ok:
  assumes "leases_ok 0 m" "all_idle m" "abort_then env e t m k = (r, m', k')"
  shows "leases_ok 0 m' \<and> all_idle m'"
  using abort_then_ok [OF assms(1) all_idle_weaken [OF assms(2)] _ assms(3)] idle_lookup [OF assms(2)] idle_ok_busy by blast

lemma admission_tail:
  assumes ok: "leases_ok 0 m" "all_idle m" and tr: "map_of (tm_active m) t = Some c" "transition_to TxCommitting c = (Inr (), c2)"
  shows "committing t c2 (set_ctx t c2 m)"
proof -
  note v = transition_view [OF tr(2)]
  have "busy_ok c2" using idle_lookup [OF ok(2) tr(1)] v by (auto simp: busy_ok_def idle_ok_def same_lease_def)
  then show ?thesis
    using leases_set_ctx [OF ok(1) tr(1)] idle_set_ctx(1) [OF all_idle_weaken [OF ok(2)]] v tr(1)
    by (auto simp: committing_def)
qed

lemma admission_ok:
  assumes ok: "leases_ok 0 m" "all_idle m" and run: "commit_admission env now t m k = (r, m', k')"
  shows "case r of Inl _ \<Rightarrow> leases_ok 0 m' \<and> all_idle m' | Inr c \<Rightarrow> committing t c m'"
proof (cases "map_of (tm_active m) t")
  case None
  then show ?thesis using run ok by (auto simp: commit_admission_def)
next
  case (Some c)
  obtain r1 act ce where chk: "(if is_user_transaction (txn_type c) then check_write_set_conflict t (tm_active m) (tm_certifier m)
      else (Inr (), tm_active m, tm_certifier m)) = (r1, act, ce)" by (metis prod_cases3)
  let ?m = "m\<lparr> tm_active := act, tm_certifier := ce \<rparr>"
  have "leases_ok 0 (m\<lparr> tm_active := act \<rparr>)" "all_idle (m\<lparr> tm_active := act \<rparr>)"
    using chk ok check_ok [OF ok Some, of "tm_certifier m" r1 act ce] by (auto split: if_splits)
  then have okm: "leases_ok 0 ?m" "all_idle ?m" by (simp_all add: leases_ok_def all_idle_def)
  have ab: "leases_ok 0 m1 \<and> all_idle m1" if "abort_then env e t m k = (x, m1, k1)" for e x m1 k1
    using abort_then_idle_ok [OF ok that] .
  have abm: "leases_ok 0 m1 \<and> all_idle m1" if "abort_then env e t ?m k = (x, m1, k1)" for e x m1 k1
    using abort_then_idle_ok [OF okm that] .
  have tail: "committing t c2 (set_ctx t c2 ?m)" if "map_of act t = Some c1" "transition_to TxCommitting c1 = (Inr (), c2)" for c1 c2
    using admission_tail [OF okm] that by simp
  show ?thesis
  proof (cases r1)
    case (Inl e)
    then show ?thesis using run Some chk ok ab abm
      by (auto simp: commit_admission_def Let_def split: if_splits prod.splits)
  next
    case (Inr u)
    then show ?thesis using run Some chk ok okm ab tail
      by (auto simp: commit_admission_def Let_def split: if_splits prod.splits option.splits sum.splits)
  qed
qed

lemma wal_clear_view [simp]:
  "same_lease c (clear_derived_wal c)" "busy_ok (clear_derived_wal c) = busy_ok c" "txn_type (clear_derived_wal c) = txn_type c"
  by (simp_all add: same_lease_def clear_derived_wal_def busy_ok_def write_held_def)

lemma durable_ok:
  assumes com: "committing t c m" and c: "map_of (tm_active m) t = Some c"
    and run: "commit_durable env c t m k = (r, m', k')"
  shows "case r of Inl _ \<Rightarrow> leases_ok 0 m' \<and> all_idle m' | Inr _ \<Rightarrow> committing t c m'"
proof -
  have ok: "leases_ok 0 m" "all_idle_but t m" "busy_ok c" using com c by (auto simp: committing_def)
  have ab: "leases_ok 0 m1 \<and> all_idle m1" if "abort_then env e t m k0 = (x, m1, k1)" for e x m1 k0 k1
    using abort_then_ok [OF ok(1,2) _ that] ok(3) c by simp
  have "committing t c (set_ctx t (clear_derived_wal c) m)"
    using leases_set_ctx [OF ok(1) c] idle_set_ctx(1) [OF ok(2)] ok(3) c by (auto simp: committing_def)
  then show ?thesis using run com ab
    by (auto simp: commit_durable_def split: if_splits option.splits prod.splits sum.splits)
qed

lemma committing_released:
  assumes "committing t c m"
  shows "released t (release_write_lease t m)" and "txn_type c \<noteq> TyWrite \<Longrightarrow> released t m"
proof -
  have ok: "leases_ok 0 m" "all_idle_but t m" using assms by (auto simp: committing_def)
  show "released t (release_write_lease t m)"
    using leases_release [OF ok(1), of t] idle_release [OF ok(1) _ ok(2)] by (auto simp: released_def)
  assume "txn_type c \<noteq> TyWrite"
  then have nh: "\<And>x. map_of (tm_active m) t = Some x \<Longrightarrow> \<not> write_held x"
    using assms by (auto simp: committing_def write_held_def)
  moreover have "all_idle m" using idle_but_iff ok nh not_held_idle by (metis leases_ok_def)
  ultimately show "released t m" using ok by (auto simp: released_def)
qed

lemma released_frame [simp]:
  "released t (m\<lparr> tm_vm := x1 \<rparr>) = released t m" "released t (m\<lparr> tm_certifier := x2 \<rparr>) = released t m"
  "released t (m\<lparr> tm_pending := x3 \<rparr>) = released t m" "released t (emit ev m) = released t m"
  by (simp_all add: released_def)

lemma committing_prune: "committing t c m \<Longrightarrow> committing t c (prune_committed_write_sets ts m)"
  by (auto simp: committing_def prune_committed_write_sets_def)

lemma released_pin: "released t m \<Longrightarrow> released t (release_statement_pin t m)"
  using leases_pin idle_pin pin_lookup by (fastforce simp: released_def)

lemma released_set_ctx:
  assumes "released t m" "map_of (tm_active m) t = Some c" "same_lease c c'"
  shows "released t (set_ctx t c' m)"
proof -
  have "\<not> write_held c'" using assms by (simp add: released_def same_lease_def)
  moreover from this have "all_idle (set_ctx t c' m)"
    using assms(1) by (intro idle_set_ctx(2) all_idle_weaken not_held_idle) (simp_all add: released_def)
  ultimately show ?thesis using assms leases_set_ctx [OF _ assms(2,3)] by (auto simp: released_def)
qed

lemma released_remove: "released t m \<Longrightarrow> leases_ok 0 (remove_ctx t m) \<and> all_idle (remove_ctx t m)"
  using leases_remove idle_remove all_idle_weaken by (metis released_def)

lemma reserve_ok:
  assumes com: "committing t c m" and run: "commit_reserve now d lsn c t m = (r, m')"
  shows "released t m'"
proof (cases "txn_type c = TyWrite")
  case True
  let ?m = "release_write_lease t (prune_committed_write_sets (get_safe_gc_timestamp (tm_vm m)) m)"
  have "released t ?m" using committing_released(1) [OF committing_prune [OF com]] .
  then show ?thesis using True run
    by (auto simp: commit_reserve_def record_pending_def Let_def split: sum.splits prod.splits)
next
  case False
  then have rel: "released t m" using committing_released(2) [OF com] by simp
  show ?thesis
  proof (cases "txn_type c = TyReadOnly")
    case True
    then have "m' = release_statement_pin t (m\<lparr> tm_vm := release_read_timestamp_at (start_timestamp c) (tm_vm m) \<rparr>)"
      using run by (simp add: commit_reserve_def)
    then show ?thesis using rel released_pin [of t "m\<lparr> tm_vm := release_read_timestamp_at (start_timestamp c) (tm_vm m) \<rparr>"] by simp
  next
    case other: False
    then show ?thesis using run rel False by (simp add: commit_reserve_def)
  qed
qed

lemma review_ok:
  assumes rel: "released t m" and run: "commit_review env d ts c t m k = (r, m', k')"
  shows "leases_ok 0 m' \<and> all_idle m' \<and> (r = Inr () \<longrightarrow> released t m')"
proof -
  have ab: "leases_ok 0 m1 \<and> all_idle m1 \<and> r1 \<noteq> Inr ()"
    if "abort_then env e t (m\<lparr> tm_certifier := ce, tm_vm := vm \<rparr>) k = (r1, m1, k1)" for e ce vm r1 m1 k1
    using abort_then_idle_ok [OF _ _ that] released_ok [OF rel] that by (auto simp: abort_then_def split: prod.splits)
  show ?thesis using run rel ab released_ok [OF rel]
    by (auto simp: commit_review_def split: if_splits prod.splits sum.splits)
qed

lemma finalize_ok:
  assumes "released t m" "commit_finalize env d lsn ts c t m k = (r, m', k')"
  shows "released t m'"
  using assms by (auto simp: commit_finalize_def record_pending_def Let_def split: if_splits option.splits prod.splits sum.splits)

lemma ctx_commit_view [simp]:
  "same_lease c (ctx_publish_commit_timestamp ts (set_commit_timestamp ts c))" "same_lease c (mark_commit_published lsn c)"
  "same_lease c c"
  by (simp_all add: same_lease_def write_held_def ctx_publish_commit_timestamp_def set_commit_timestamp_def mark_commit_published_def)

lemma settle_ok:
  assumes rel: "released t m" and run: "commit_settle env now d lsn ts t m k = (r, m', k')"
  shows "leases_ok 0 m' \<and> all_idle m'"
proof (cases "map_of (tm_active m) t")
  case None
  then show ?thesis using run released_ok [OF rel] by (simp add: commit_settle_def)
next
  case (Some c)
  define m1 where "m1 = (if txn_type c = TyWrite
      then release_statement_pin t (set_ctx t (ctx_publish_commit_timestamp ts (set_commit_timestamp ts c))
             (m\<lparr> tm_vm := publish_reserved_commit now (start_timestamp c) ts (tm_vm m) \<rparr>))
      else m)"
  have "released t (set_ctx t (ctx_publish_commit_timestamp ts (set_commit_timestamp ts c))
      (m\<lparr> tm_vm := publish_reserved_commit now (start_timestamp c) ts (tm_vm m) \<rparr>))"
    by (rule released_set_ctx [of _ _ c]) (use rel Some in simp_all)
  then have rel1: "released t m1" unfolding m1_def using rel by (simp add: released_pin)
  have rem: "leases_ok 0 (remove_ctx t m1)" "all_idle (remove_ctx t m1)" using released_remove [OF rel1] by auto
  have remp: "leases_ok 0 (remove_ctx t (m1\<lparr> tm_pending := x \<rparr>))" "all_idle (remove_ctx t (m1\<lparr> tm_pending := x \<rparr>))" for x
    using released_remove [of t "m1\<lparr> tm_pending := x \<rparr>"] rel1 by auto
  show ?thesis using run Some rem remp released_ok [OF rel1]
    by (auto simp: commit_settle_def Let_def m1_def [symmetric] record_pending_def split: if_splits prod.splits sum.splits)
qed

lemma commit_rest:
  assumes rel: "released t m" and run: "(case commit_review env d ts c t m k of
        (Inl e, m4, k4) \<Rightarrow> (Inl e, m4, k4)
      | (Inr _, m4, k4) \<Rightarrow>
        (let m5 = (case map_of (tm_active m4) t of None \<Rightarrow> m4 | Some x \<Rightarrow> set_ctx t (mark_commit_published lsn x) m4)
         in case commit_finalize env d lsn ts c t m5 k4 of
              (Inl e, m6, k6) \<Rightarrow> (Inl e, m6, k6)
            | (Inr _, m6, k6) \<Rightarrow> commit_settle env now d lsn ts t m6 k6)) = (r, m', k')"
  shows "leases_ok 0 m' \<and> all_idle m'"
proof -
  obtain r4 m4 k4 where s4: "commit_review env d ts c t m k = (r4, m4, k4)" by (metis prod_cases3)
  note a4 = review_ok [OF rel s4]
  show ?thesis
  proof (cases r4)
    case (Inl e)
    then show ?thesis using run s4 a4 by simp
  next
    case (Inr u)
    define m5 where "m5 = (case map_of (tm_active m4) t of None \<Rightarrow> m4 | Some x \<Rightarrow> set_ctx t (mark_commit_published lsn x) m4)"
    have rel5: "released t m5" using a4 Inr released_set_ctx [of t m4] by (auto simp: m5_def split: option.splits)
    obtain r6 m6 k6 where s6: "commit_finalize env d lsn ts c t m5 k4 = (r6, m6, k6)" by (metis prod_cases3)
    have rel6: "released t m6" by (rule finalize_ok [OF rel5 s6])
    show ?thesis
    proof (cases r6)
      case I6: (Inl e)
      then show ?thesis using run s4 Inr s6 released_ok [OF rel6] by (simp add: m5_def [symmetric])
    next
      case R6: (Inr v)
      then have "commit_settle env now d lsn ts t m6 k6 = (r, m', k')" using run s4 Inr s6 by (simp add: m5_def [symmetric])
      then show ?thesis by (rule settle_ok [OF rel6])
    qed
  qed
qed

lemma commit_ok:
  assumes ok: "leases_ok 0 m" "all_idle m" and run: "commit_transaction env now t m k = (r, m', k')"
  shows "leases_ok 0 m' \<and> all_idle m'"
proof -
  obtain r1 m1 k1 where s1: "commit_admission env now t m k = (r1, m1, k1)" by (metis prod_cases3)
  note a1 = admission_ok [OF ok s1]
  show ?thesis
  proof (cases r1)
    case (Inl e)
    then show ?thesis using run s1 a1 by (simp add: commit_transaction_def)
  next
    case (Inr c)
    have com: "committing t c m1" using a1 Inr by simp
    have c: "map_of (tm_active m1) t = Some c" using s1 Inr
      by (auto simp: commit_admission_def Let_def abort_then_def split: option.splits if_splits prod.splits sum.splits)
    obtain r2 m2 k2 where s2: "commit_durable env c t m1 k1 = (r2, m2, k2)" by (metis prod_cases3)
    note a2 = durable_ok [OF com c s2]
    show ?thesis
    proof (cases r2)
      case I2: (Inl e)
      then show ?thesis using run s1 Inr s2 a2 by (simp add: commit_transaction_def Let_def)
    next
      case R2: (Inr lsn)
      obtain r3 m3 where s3: "commit_reserve now (build_commit_descriptor c) lsn c t m2 = (r3, m3)" by force
      have rel3: "released t m3" using reserve_ok [OF _ s3] a2 R2 by simp
      show ?thesis
      proof (cases r3)
        case I3: (Inl e)
        then show ?thesis using run s1 Inr s2 R2 s3 released_ok [OF rel3] by (simp add: commit_transaction_def Let_def)
      next
        case R3: (Inr ts)
        show ?thesis by (rule commit_rest [OF rel3]) (use run s1 Inr s2 R2 s3 R3 in \<open>simp add: commit_transaction_def Let_def\<close>)
      qed
    qed
  qed
qed

subsection \<open>Recovery and runs\<close>

lemma recovery_timestamp_view:
  "recovery_timestamp now pts c vm = Inr (ts, c', vm') \<Longrightarrow> same_lease c c'"
  by (auto simp: recovery_timestamp_def Let_def split: if_splits sum.splits prod.splits)

lemma force_known_frame [simp]: "released t (force_publish_known t' ts ws m) = released t m"
  by (simp add: force_publish_known_def)

lemma record_pending_frame [simp]: "released t (record_pending d ts lsn m) = released t m"
  by (simp add: record_pending_def)

lemma clear_undo_view: "clear_undo_logs c = (r, c') \<Longrightarrow> same_lease c c'"
  by (auto simp: clear_undo_logs_def same_lease_def write_held_def split: prod.splits sum.splits)

lemma recover_tail:
  assumes rel: "released t m1" and nh: "\<not> write_held c1"
    and tail: "(case clear_undo_logs c1 of
                   (Inl _, c2) \<Rightarrow> (Inl RollbackFailed, record_pending d pts lsn (set_ctx t c2 m1), k1)
                 | (Inr _, c2) \<Rightarrow> (case transition_to TxCommitted c2 of
                     (Inl e, _) \<Rightarrow> (Inl e, m1, k1)
                   | (Inr _, _) \<Rightarrow>
                       let m2 = release_long_read t (remove_ctx t m1);
                           m3 = m2\<lparr> tm_certifier := unregister_reads t (tm_certifier m2) \<rparr>
                       in (Inr (), emit ev m3, k1))) = (r, m', k')"
  shows "leases_ok 0 m' \<and> all_idle m'"
proof -
  obtain r2 c2 where c2: "clear_undo_logs c1 = (r2, c2)" by force
  have nh2: "\<not> write_held c2" using clear_undo_view [OF c2] nh by (simp add: same_lease_def)
  have "released t (set_ctx t c2 m1)"
  proof (cases "map_of (tm_active m1) t")
    case None
    then have "map (\<lambda>(i, x). (i, if i = t then c2 else x)) (tm_active m1) = tm_active m1"
      by (intro map_idI) (force simp: map_of_eq_None_iff)
    then have "set_ctx t c2 m1 = m1" by (simp add: set_ctx_def)
    then show ?thesis using rel by simp
  next
    case (Some x)
    then show ?thesis using released_set_ctx [OF rel Some, of c2] rel nh2 by (simp add: released_def same_lease_def)
  qed
  then have "released t (record_pending d pts lsn (set_ctx t c2 m1))" by simp
  from released_ok [OF this] show ?thesis using tail c2 released_ok [OF rel] released_remove [OF rel]
    by (auto simp: Let_def split: sum.splits prod.splits)
qed

lemma recover_ok:
  assumes ok: "leases_ok 0 m0" "all_idle m0" and run: "recover_pending_finalization env now t m0 k = (r, m', k')"
  shows "leases_ok 0 m' \<and> all_idle m'"
proof (cases "bm_get (tm_pending m0) t")
  case None
  then show ?thesis using run ok by (simp add: recover_pending_finalization_def take_pending_def)
next
  case (Some p)
  obtain d pts lsn where p: "p = (d, pts, lsn)" by (metis prod_cases3)
  define m where "m = m0\<lparr> tm_pending := bm_remove t (tm_pending m0) \<rparr>"
  have okm: "leases_ok 0 m" "all_idle m" using ok by (simp_all add: m_def)
  have rec: "leases_ok 0 (record_pending d pts lsn x) = leases_ok 0 x" "all_idle (record_pending d pts lsn x) = all_idle x" for x :: "'a txn_manager"
    by (simp_all add: record_pending_def)
  have fp: "leases_ok 0 (force_publish_known t ts ws x) = leases_ok 0 x" "all_idle (force_publish_known t ts ws x) = all_idle x"
    for x :: "'a txn_manager" and ts ws by (simp_all add: force_publish_known_def)
  show ?thesis
  proof (cases "\<exists>c. map_of (tm_active m) t = Some c \<and> txn_state c = TxCommitting \<and> commit_published c")
    case False
    then show ?thesis using run Some p okm rec fp
      by (auto simp: recover_pending_finalization_def take_pending_def m_def [symmetric] Let_def split: option.splits if_splits)
  next
    case True
    then obtain c where c: "map_of (tm_active m) t = Some c" "txn_state c = TxCommitting" "commit_published c" by blast
    have "\<not> write_held c" using idle_lookup [OF okm(2) c(1)] c(3) by (auto simp: idle_ok_def)
    then have rel: "released t m" using okm c(1) by (simp add: released_def)
    have step: "released t (release_statement_pin t (force_publish_known t ts ws (set_ctx t c1 (m\<lparr> tm_vm := vm1 \<rparr>))))"
      if "same_lease c c1" for ts ws c1 vm1
      by (intro released_pin) (use released_set_ctx [of t "m\<lparr> tm_vm := vm1 \<rparr>" c c1] rel c(1) that in simp)
    have fin: "leases_ok 0 m' \<and> all_idle m'" if rt: "recovery_timestamp now pts c (tm_vm m) = Inr (ts, c1, vm1)"
      and tail: "(case clear_undo_logs c1 of
                   (Inl _, c2) \<Rightarrow> (Inl RollbackFailed, record_pending d pts lsn (set_ctx t c2 m1), k1)
                 | (Inr _, c2) \<Rightarrow> (case transition_to TxCommitted c2 of
                     (Inl e, _) \<Rightarrow> (Inl e, m1, k1)
                   | (Inr _, _) \<Rightarrow>
                       let m2 = release_long_read t (remove_ctx t m1);
                           m3 = m2\<lparr> tm_certifier := unregister_reads t (tm_certifier m2) \<rparr>
                       in (Inr (), emit (EvCommitted t (start_timestamp c) ts True) m3, k1))) = (r, m', k')"
      and m1: "m1 = release_statement_pin t (force_publish_known t ts (cd_write_set d) (set_ctx t c1 (m\<lparr> tm_vm := vm1 \<rparr>)))"
      for ts c1 vm1 m1 k1
      by (rule recover_tail [OF _ _ tail]) (use step [OF recovery_timestamp_view [OF rt]] m1
          \<open>\<not> write_held c\<close> recovery_timestamp_view [OF rt] in \<open>simp_all add: same_lease_def\<close>)
    show ?thesis using run Some p c okm rec fin
      by (auto simp: recover_pending_finalization_def take_pending_def m_def [symmetric] Let_def
          split: option.splits if_splits sum.splits prod.splits)
  qed
qed

inductive mgr_run :: "('v, 'k) manager_env \<Rightarrow> 'v txn_manager \<Rightarrow> 'k \<Rightarrow> bool" for env where
  mgr_start: "0 < mc_max_concurrent cfg \<Longrightarrow> mc_max_concurrent cfg + 1 < 2 ^ 64 \<Longrightarrow> mgr_run env (manager_new vm cfg) k"
| mgr_work: "\<lbrakk> mgr_run env m k; map_of (tm_active m) t = Some c; same_lease c c'; txn_state c' = txn_state c;
     commit_published c' = commit_published c \<rbrakk> \<Longrightarrow> mgr_run env ((set_ctx t c' m)\<lparr> tm_vm := vm, tm_long_reads := leases \<rparr>) k'"
| mgr_begin_read: "\<lbrakk> mgr_run env m k; begin_read_transaction env now opts m k = (r, m', k'); tm_next_id m' \<noteq> 0 \<rbrakk> \<Longrightarrow>
     mgr_run env m' k'"
| mgr_begin_insert: "\<lbrakk> mgr_run env m k; begin_insert_transaction env now opts m k = (r, m', k'); tm_next_id m' \<noteq> 0 \<rbrakk> \<Longrightarrow>
     mgr_run env m' k'"
| mgr_commit: "\<lbrakk> mgr_run env m k; commit_transaction env now t m k = (r', m', k') \<rbrakk> \<Longrightarrow> mgr_run env m' k'"
| mgr_abort: "\<lbrakk> mgr_run env m k; undo_keeps undo; abort_transaction_with env undo t m k = (r', m', k') \<rbrakk> \<Longrightarrow> mgr_run env m' k'"
| mgr_recover: "\<lbrakk> mgr_run env m k; recover_pending_finalization env now t m k = (r', m', k') \<rbrakk> \<Longrightarrow> mgr_run env m' k'"
| mgr_cleanup: "\<lbrakk> mgr_run env m k; cleanup_expired_transactions env now m k = (m', k') \<rbrakk> \<Longrightarrow> mgr_run env m' k'"
| mgr_shutdown: "\<lbrakk> mgr_run env m k; manager_shutdown env m k = (m', k') \<rbrakk> \<Longrightarrow> mgr_run env m' k'"

lemma mgr_run_ok: "mgr_run env m k \<Longrightarrow> leases_ok 0 m \<and> all_idle m"
proof (induction rule: mgr_run.induct)
  case (mgr_start cfg vm k)
  then show ?case by (simp add: manager_new_def leases_ok_def all_idle_def gate_new_def)
next
  case (mgr_work m k t c c' vm leases k')
  then have "idle_ok c'" using idle_lookup [of m t c] by (auto simp: idle_ok_def same_lease_def)
  moreover have "all_idle_but t m" using mgr_work by (simp add: all_idle_weaken)
  ultimately have idle: "all_idle (set_ctx t c' m)" using idle_set_ctx(2) by blast
  moreover have "leases_ok 0 (set_ctx t c' m)" using leases_set_ctx mgr_work by blast
  ultimately show ?case by simp
next
  case (mgr_begin_read m k now opts r m' k')
  then show ?case by (intro begin_read_ok [of m env now opts k r m' k']) simp_all
next
  case (mgr_begin_insert m k now opts r m' k')
  then show ?case by (intro begin_insert_ok [of m env now opts k r m' k']) simp_all
next
  case (mgr_commit m k now t r' m' k')
  then show ?case by (intro commit_ok [of m env now t k r' m' k']) simp_all
next
  case (mgr_abort m k undo t r' m' k')
  then show ?case by (intro abort_transaction_ok [of 0 m undo env t k r' m' k']) simp_all
next
  case (mgr_recover m k now t r' m' k')
  then show ?case by (intro recover_ok [of m env now t k r' m' k']) simp_all
next
  case (mgr_cleanup m k now m' k')
  then show ?case by (intro cleanup_ok [of 0 m env now k m' k']) simp_all
next
  case (mgr_shutdown m k m' k')
  then show ?case by (intro shutdown_ok [of 0 m env k m' k']) simp_all
qed

subsection \<open>A sample manager\<close>

definition sample_txn_config :: transaction_config where
  "sample_txn_config = \<lparr> cfg_timeout = 30, cfg_durability = DurSync, cfg_isolation_level = RepeatableRead, cfg_query_timeout = None,
     cfg_statement_timeout = None, cfg_idle_timeout = None, cfg_auto_commit = False, cfg_max_mutation_count = 100, cfg_max_undo_bytes = 1000,
     cfg_warning_reached = (\<lambda>_ _. False), cfg_concurrency_mode = Optimistic, cfg_full_scan_threshold = None \<rparr>"

definition sample_manager_config :: manager_config where
  "sample_manager_config = \<lparr> mc_default_timeout = 30, mc_max_concurrent = 10, mc_auto_cleanup = False, mc_commit_retries = 3,
     mc_abort_retries = 3, mc_txn_config = sample_txn_config, mc_in_memory = False, mc_auto_checkpoint = False,
     mc_checkpoint_threshold = 100, mc_lease_ttl = 60, mc_max_live_leases = 64, mc_max_pin_secs = 300 \<rparr>"

definition sample_options :: transaction_options where
  "sample_options = \<lparr> opt_timeout = None, opt_read_only = False, opt_long_read = False, opt_durability = DurSync,
     opt_isolation_level = RepeatableRead, opt_query_timeout = None, opt_statement_timeout = None, opt_idle_timeout = None \<rparr>"

definition sample_env :: "('v, unit) manager_env" where
  "sample_env = \<lparr> me_sink = None, me_sync_rollback = None, me_vetoes = [] \<rparr>"

definition sample_start :: "'v txn_manager" where
  "sample_start = manager_new demo_vm0 sample_manager_config"

lemmas sample_manager_defs = sample_start_def manager_new_def sample_manager_config_def sample_txn_config_def sample_options_def

definition sample_open :: "nat txn_manager" where
  "sample_open = fst (snd (begin_insert_transaction sample_env 0 sample_options sample_start ()))"

lemma sample_open_run:
  "mgr_run sample_env sample_open ()" "\<not> mc_in_memory (tm_config sample_open)"
  "map (\<lambda>(i, c). (i, write_held c)) (tm_active sample_open) = [(1, True)]"
proof -
  have start: "mgr_run sample_env (sample_start :: nat txn_manager) ()"
    unfolding sample_start_def by (rule mgr_start) (simp_all add: sample_manager_config_def)
  obtain r m' where b: "begin_insert_transaction sample_env 0 sample_options (sample_start :: nat txn_manager) () = (r, m', ())"
    by (metis old.unit.exhaust prod_cases3)
  note eval = begin_insert_transaction_def acquire_gate_slot_def acquire_write_def maybe_cleanup_def next_txn_id_def gate_new_def
    demo_acquire begin_config_def context_new_def sample_manager_defs
  have "tm_next_id m' \<noteq> 0" using b by (auto simp: eval Let_def)
  then show "mgr_run sample_env sample_open ()" using mgr_begin_insert [OF start b] b by (simp add: sample_open_def)
  show "\<not> mc_in_memory (tm_config sample_open)" unfolding sample_open_def by (simp add: eval Let_def)
  show "map (\<lambda>(i, c). (i, write_held c)) (tm_active sample_open) = [(1, True)]"
    unfolding sample_open_def by (simp add: eval Let_def write_held_def)
qed

subsection \<open>Properties\<close>

text \<open>
  C7.  Write leases are balanced.  In every run of the manager (begins, commits with
  all their failures, aborts, cleanup, shutdown and recovery, any commit sink) the gate
  counts exactly the write transactions of the table that have not released their
  resources, at most one of them holds the single-writer lock and it is the recorded
  owner, and each of them is active and unpublished, so that with no such transaction
  left the counter is zero and a checkpoint drains.
\<close>

theorem write_leases_balanced:
  assumes "mgr_run env m k" "\<not> mc_in_memory (tm_config m)"
  shows "distinct (map fst (tm_active m)) \<and>
    active_writes (tm_gate m) = length (filter (\<lambda>(i, c). write_held c) (tm_active m)) \<and>
    (\<forall>(i, c) \<in> set (tm_active m). write_held c \<longrightarrow>
       txn_state c = TxActive \<and> \<not> commit_published c \<and> (pessimistic_lock_held c \<longrightarrow> i = tm_write_owner m))"
  using mgr_run_ok [OF assms(1)] assms(2) by (fastforce simp: leases_ok_def all_idle_def idle_ok_def)

theorem write_leases_balanced_witness:
  "mgr_run sample_env sample_open () \<and> \<not> mc_in_memory (tm_config sample_open) \<and> active_writes (tm_gate sample_open) = 1"
proof -
  obtain c where "tm_active sample_open = [(1, c)]" "write_held c" using sample_open_run(3) by auto
  then show ?thesis using write_leases_balanced [OF sample_open_run(1,2)] sample_open_run(1,2) by simp
qed

end
