(* ===== verification/TxnOutcome.thy ===== *)
theory TxnOutcome
  imports TxnLeases
begin

text \<open>
  What the outcome of a commit says.  An acknowledged write commit has passed the sink's
  durability and finalization steps, in this order; a refused commit marks no timestamp
  slot committed; a commit the final review refuses is already durable.
\<close>

subsection \<open>Committed slots\<close>

definition committed_slots :: "version_manager \<Rightarrow> timestamp set" where
  "committed_slots vm = {ts. \<exists>i. bm_get (write_states vm) ts = Some (i, Committed)}"

lemma committed_slots_frame [simp]:
  "committed_slots (vm\<lparr> tracker := x1 \<rparr>) = committed_slots vm" "committed_slots (vm\<lparr> read_pending := x2 \<rparr>) = committed_slots vm"
  "committed_slots (vm\<lparr> write_pending := x3 \<rparr>) = committed_slots vm" "committed_slots (vm\<lparr> write_ts := x4 \<rparr>) = committed_slots vm"
  by (simp_all add: committed_slots_def)

lemma frontier_loop_slots: "frontier_loop f st = (f', st') \<Longrightarrow> bm_get st' ts = Some x \<Longrightarrow> bm_get st ts = Some x"
proof (induction f st rule: frontier_loop.induct)
  case (1 f st)
  then show ?case
    by (cases "is_terminal (bm_get st (saturating_add_u64 f 1))")
       (auto simp: frontier_loop.simps [of f st] Let_def split: if_splits)
qed

lemma frontier_slots: "committed_slots (advance_read_frontier vm) \<subseteq> committed_slots vm"
  by (auto simp: advance_read_frontier_def committed_slots_def dest: frontier_loop_slots split: prod.splits)

lemma settle_aborted_slots: "committed_slots (settle_slot ts Aborted vm) \<subseteq> committed_slots vm"
  by (auto simp: settle_slot_def committed_slots_def split: option.splits prod.splits write_timestamp_state.splits if_splits)

lemma abort_slots: "committed_slots (abort_write_timestamp ts vm) \<subseteq> committed_slots vm"
  using frontier_slots settle_aborted_slots by (fastforce simp: abort_write_timestamp_def finish_write_timestamp_def)

lemma reserve_slots:
  assumes "reserve_commit_timestamp now s vm = Inr (ts, vm')"
  shows "committed_slots vm' \<subseteq> committed_slots vm"
  using assms by (auto simp: reserve_commit_timestamp_def reserve_timestamp_def committed_slots_def
      split: option.splits prod.splits write_timestamp_state.splits if_splits)

lemma rollback_slots: "committed_slots (rollback_context_timestamp c vm) \<subseteq> committed_slots vm"
  using abort_slots by (auto simp: rollback_context_timestamp_def release_read_timestamp_at_def)

subsection \<open>The slots along a commit\<close>

abbreviation mgr_slots :: "'v txn_manager \<Rightarrow> timestamp set" where
  "mgr_slots m \<equiv> committed_slots (tm_vm m)"

lemma vm_frame [simp]:
  "tm_vm (remove_ctx t m) = tm_vm m" "tm_vm (emit e m) = tm_vm m"
  "tm_vm (release_long_read t m) = tm_vm m" "tm_vm (prune_committed_write_sets ts m) = tm_vm m"
  "tm_vm (record_pending d ts lsn m) = tm_vm m"
  by (simp_all add: remove_ctx_def emit_def release_long_read_def prune_committed_write_sets_def record_pending_def)

lemma lease_vm [simp]: "tm_vm (release_write_lease t m) = tm_vm m"
  by (auto simp: release_write_lease_def Let_def split: option.splits prod.splits bool.splits)

lemma pin_slots [simp]: "mgr_slots (release_statement_pin t m) = mgr_slots m"
  by (auto simp: release_statement_pin_def split: option.splits prod.splits)

lemma finalize_abort_slots: "mgr_slots (finalize_abort_resources t c m) \<subseteq> mgr_slots m"
  using rollback_slots [of c "tm_vm m"] by (auto simp: finalize_abort_resources_def Let_def split: prod.splits sum.splits)

lemma execute_abort_slots: "execute_abort_internal env t c m k = (r, m', k') \<Longrightarrow> mgr_slots m' \<subseteq> mgr_slots m"
  using finalize_abort_slots [of t c m]
  by (auto simp: execute_abort_internal_def Let_def split: prod.splits option.splits)

lemma abort_common_slots: "abort_common env None t m k = (r, m', k') \<Longrightarrow> mgr_slots m' \<subseteq> mgr_slots m"
  using execute_abort_slots [of env t _ "set_ctx t _ m" k r m' k']
  by (fastforce simp: abort_common_def split: option.splits if_splits prod.splits sum.splits)

lemma abort_then_slots: "abort_then env e t m k = (r, m', k') \<Longrightarrow> r = Inl e \<and> mgr_slots m' \<subseteq> mgr_slots m"
  using abort_common_slots [of env t m k _ m' k'] by (auto simp: abort_then_def split: prod.splits)

lemma admission_slots:
  assumes "commit_admission env now t m k = (r, m', k')"
  shows "mgr_slots m' \<subseteq> mgr_slots m"
proof -
  have ab: "mgr_slots m1 \<subseteq> mgr_slots m" if "abort_then env e t (m\<lparr> tm_active := a, tm_certifier := ce \<rparr>) k = (x, m1, k1)" for e a ce x m1 k1
    using abort_then_slots [OF that] by simp
  have ab0: "mgr_slots m1 \<subseteq> mgr_slots m" if "abort_then env e t m k = (x, m1, k1)" for e x m1 k1
    using abort_then_slots [OF that] by simp
  show ?thesis using assms
    by (auto simp: commit_admission_def Let_def split: option.splits if_splits prod.splits sum.splits dest: ab ab0)
qed

subsection \<open>The context along a commit\<close>

definition in_commit :: "txn_id \<Rightarrow> 'v transaction_context \<Rightarrow> 'v txn_manager \<Rightarrow> bool" where
  "in_commit t c m \<longleftrightarrow> (\<exists>x. map_of (tm_active m) t = Some x \<and> txn_state x = TxCommitting \<and>
     txn_type x = txn_type c \<and> start_timestamp x = start_timestamp c)"

lemma in_commit_frame [simp]:
  "in_commit t c (m\<lparr> tm_vm := x1 \<rparr>) = in_commit t c m" "in_commit t c (m\<lparr> tm_certifier := x2 \<rparr>) = in_commit t c m"
  "in_commit t c (m\<lparr> tm_gate := x3 \<rparr>) = in_commit t c m" "in_commit t c (m\<lparr> tm_write_owner := x4 \<rparr>) = in_commit t c m"
  "in_commit t c (prune_committed_write_sets ts m) = in_commit t c m"
  by (simp_all add: in_commit_def prune_committed_write_sets_def)

lemma in_commit_set:
  "\<lbrakk> in_commit t c m; txn_state x = TxCommitting; txn_type x = txn_type c; start_timestamp x = start_timestamp c \<rbrakk> \<Longrightarrow>
   in_commit t c (set_ctx t x m)"
  by (auto simp: in_commit_def)

lemma in_commit_lease:
  assumes "in_commit t c m"
  shows "in_commit t c (release_write_lease t m)"
proof -
  obtain x where x: "map_of (tm_active m) t = Some x" "txn_state x = TxCommitting" "txn_type x = txn_type c"
    "start_timestamp x = start_timestamp c" using assms by (auto simp: in_commit_def)
  have "in_commit t c (set_ctx t (snd (mark_resources_released x)) m)"
    by (rule in_commit_set [OF assms]) (use x in \<open>auto simp: mark_resources_released_def\<close>)
  then show ?thesis using assms x(1)
    by (auto simp: release_write_lease_def Let_def split: prod.splits bool.splits)
qed

lemma in_commit_pin:
  assumes "in_commit t c m"
  shows "in_commit t c (release_statement_pin t m)"
proof -
  obtain x where x: "map_of (tm_active m) t = Some x" "txn_state x = TxCommitting" "txn_type x = txn_type c"
    "start_timestamp x = start_timestamp c" using assms by (auto simp: in_commit_def)
  have "in_commit t c (set_ctx t (x\<lparr> statement_snapshot_pin := None \<rparr>) (m\<lparr> tm_vm := v \<rparr>))" for v
    by (rule in_commit_set) (use assms x in auto)
  then show ?thesis using assms x(1)
    by (auto simp: release_statement_pin_def take_statement_snapshot_pin_def split: option.splits)
qed

lemma check_lookup:
  assumes "check_write_set_conflict t a ce = (r, a', ce')" "map_of a t = Some c"
  shows "\<exists>c1. map_of a' t = Some c1 \<and> (c1 = c \<or> c1 = mark_write_validated c)"
proof -
  have "map_of (mark_validated t b) t = map_option mark_write_validated (map_of b t)" for b :: "'a active_table"
    by (induction b) (auto simp: mark_validated_def)
  then show ?thesis using check_active [OF assms(1)] assms(2) by auto
qed

lemma admission_Inr:
  assumes adm: "commit_admission env now t m k = (Inr c, m1, k1)"
  obtains c0 where "map_of (tm_active m) t = Some c0" "txn_type c = txn_type c0" "build_commit_descriptor c = build_commit_descriptor c0"
    "k1 = k" "tm_config m1 = tm_config m" "in_commit t c m1" "map_of (tm_active m1) t = Some c"
proof (cases "map_of (tm_active m) t")
  case None
  then show ?thesis using adm by (simp add: commit_admission_def)
next
  case (Some c0)
  obtain r1 act ce where chk: "(if is_user_transaction (txn_type c0) then check_write_set_conflict t (tm_active m) (tm_certifier m)
      else (Inr (), tm_active m, tm_certifier m)) = (r1, act, ce)" by (metis prod_cases3)
  then obtain c1 where c1: "map_of act t = Some c1" "c1 = c0 \<or> c1 = mark_write_validated c0"
    using check_lookup [of t "tm_active m" "tm_certifier m" r1 act ce c0] Some by (auto split: if_splits)
  have tr: "transition_to TxCommitting c1 = (Inr (), c)" "k1 = k" "m1 = set_ctx t c (m\<lparr> tm_active := act, tm_certifier := ce \<rparr>)"
    using adm Some chk c1(1) by (auto simp: commit_admission_def abort_then_def Let_def split: if_splits prod.splits sum.splits)
  then have c: "c = c1\<lparr> txn_state := TxCommitting \<rparr>" by (auto simp: transition_to_def split: if_splits)
  show ?thesis
  proof (rule that [OF Some _ _ tr(2)])
    show "txn_type c = txn_type c0" "build_commit_descriptor c = build_commit_descriptor c0"
      using c c1(2) by (auto simp: mark_write_validated_def build_commit_descriptor_def)
    show "tm_config m1 = tm_config m" "map_of (tm_active m1) t = Some c" using tr(3) c1(1) by simp_all
    then show "in_commit t c m1" using c by (simp add: in_commit_def)
  qed
qed

lemma config_frame [simp]:
  "tm_config (release_write_lease t m) = tm_config m" "tm_config (release_statement_pin t m) = tm_config m"
  "tm_config (prune_committed_write_sets ts m) = tm_config m"
  by (auto simp: release_write_lease_def release_statement_pin_def prune_committed_write_sets_def Let_def
      split: option.splits prod.splits bool.splits)

lemma durable_Inr:
  assumes com: "in_commit t c m" "txn_state c = TxCommitting" and run: "commit_durable env c t m k = (Inr lsn, m', k')"
  shows "in_commit t c m'" "tm_config m' = tm_config m" "tm_vm m' = tm_vm m"
    "\<lbrakk> txn_type c = TyWrite; \<not> mc_in_memory (tm_config m); me_sink env = Some sk \<rbrakk> \<Longrightarrow>
     retry (mc_commit_retries (tm_config m)) (sk_commit sk (build_commit_descriptor c)) k = (Inr lsn, k')"
proof -
  have "in_commit t c (set_ctx t (clear_derived_wal c) m)"
    by (rule in_commit_set [OF com(1)]) (use com(2) in \<open>simp_all add: clear_derived_wal_def\<close>)
  then show "in_commit t c m'" "tm_config m' = tm_config m" "tm_vm m' = tm_vm m"
    using run com by (auto simp: commit_durable_def split: if_splits option.splits prod.splits sum.splits)
  assume "txn_type c = TyWrite" "\<not> mc_in_memory (tm_config m)" "me_sink env = Some sk"
  then show "retry (mc_commit_retries (tm_config m)) (sk_commit sk (build_commit_descriptor c)) k = (Inr lsn, k')"
    using run by (auto simp: commit_durable_def is_user_transaction_def split: prod.splits sum.splits)
qed

lemma durable_slots: "commit_durable env c t m k = (r, m', k') \<Longrightarrow> mgr_slots m' \<subseteq> mgr_slots m"
  by (auto simp: commit_durable_def split: if_splits option.splits prod.splits sum.splits
      dest!: abort_then_slots [of env CommitFailed t m])

lemma reserve_stage:
  assumes com: "in_commit t c m" and run: "commit_reserve now d lsn c t m = (r, m')"
  shows "mgr_slots m' \<subseteq> mgr_slots m" "r = Inr ts \<Longrightarrow> in_commit t c m'" "r = Inr ts \<Longrightarrow> tm_config m' = tm_config m"
proof -
  let ?p = "prune_committed_write_sets (get_safe_gc_timestamp (tm_vm m)) m"
  note l = in_commit_lease [of t c ?p]
    in_commit_pin [of t c "m\<lparr> tm_vm := release_read_timestamp_at (start_timestamp c) (tm_vm m) \<rparr>"]
  show "mgr_slots m' \<subseteq> mgr_slots m" "r = Inr ts \<Longrightarrow> in_commit t c m'" "r = Inr ts \<Longrightarrow> tm_config m' = tm_config m"
    using run com l reserve_slots [of now "start_timestamp c" "tm_vm m"]
    by (auto simp: commit_reserve_def Let_def release_read_timestamp_at_def split: if_splits sum.splits prod.splits)
qed

lemma review_stage:
  assumes run: "commit_review env d ts c t m k = (r, m', k')"
  shows "mgr_slots m' \<subseteq> mgr_slots m" "r = Inr () \<Longrightarrow> k' = k \<and> tm_config m' = tm_config m \<and> tm_active m' = tm_active m"
proof -
  have ab: "mgr_slots m1 \<subseteq> mgr_slots m \<and> x \<noteq> Inr ()"
    if "abort_then env e t (m\<lparr> tm_certifier := ce, tm_vm := abort_write_timestamp ts (tm_vm m) \<rparr>) k = (x, m1, k1)" for e ce x m1 k1
    using abort_then_slots [OF that] abort_slots [of ts "tm_vm m"] by auto
  show "mgr_slots m' \<subseteq> mgr_slots m" "r = Inr () \<Longrightarrow> k' = k \<and> tm_config m' = tm_config m \<and> tm_active m' = tm_active m"
    using run by (auto simp: commit_review_def split: if_splits prod.splits sum.splits dest: ab)
qed

lemma finalize_stage:
  assumes run: "commit_finalize env d lsn ts c t m k = (r, m', k')"
  shows "mgr_slots m' \<subseteq> mgr_slots m" "r = Inr () \<Longrightarrow> m' = m"
    "\<lbrakk> r = Inr (); txn_type c = TyWrite; \<not> mc_in_memory (tm_config m); me_sink env = Some sk \<rbrakk> \<Longrightarrow>
     retry (mc_commit_retries (tm_config m)) (sk_finalize sk d lsn) k = (Inr (), k')"
  using run abort_slots [of "start_timestamp c" "tm_vm m"] abort_slots [of ts "abort_write_timestamp (start_timestamp c) (tm_vm m)"]
  by (auto simp: commit_finalize_def Let_def is_user_transaction_def split: if_splits option.splits prod.splits sum.splits)

lemma settle_succeeds:
  assumes com: "in_commit t c m" and run: "commit_settle env now d lsn ts t m k = (r, m', k')"
  shows "r = Inr ()" "t \<notin> fst ` set (tm_active m')" "me_sink env = Some sk \<Longrightarrow> k' \<in> {k, sk_checkpoint sk k}"
proof -
  obtain x where x: "map_of (tm_active m) t = Some x" "txn_state x = TxCommitting" using com by (auto simp: in_commit_def)
  define m1 where "m1 = (if txn_type x = TyWrite
      then release_statement_pin t (set_ctx t (ctx_publish_commit_timestamp ts (set_commit_timestamp ts x))
             (m\<lparr> tm_vm := publish_reserved_commit now (start_timestamp x) ts (tm_vm m) \<rparr>))
      else m)"
  define y where "y = (case map_of (tm_active m1) t of Some z \<Rightarrow> z | None \<Rightarrow> x)"
  have "in_commit t x (set_ctx t (ctx_publish_commit_timestamp ts (set_commit_timestamp ts x))
             (m\<lparr> tm_vm := publish_reserved_commit now (start_timestamp x) ts (tm_vm m) \<rparr>))"
    using x by (auto simp: in_commit_def ctx_publish_commit_timestamp_def set_commit_timestamp_def)
  moreover have "in_commit t x m" using x by (simp add: in_commit_def)
  ultimately have "in_commit t x m1" unfolding m1_def by (simp add: in_commit_pin)
  then have y: "txn_state y = TxCommitting" by (auto simp: in_commit_def y_def)
  have cl: "txn_state (snd (clear_undo_logs z)) = txn_state z" for z :: "'a transaction_context"
    by (simp add: clear_undo_logs_def split: prod.splits sum.splits)
  have tr: "transition_to TxCommitted z = (Inr (), z\<lparr> txn_state := TxCommitted \<rparr>)" if "txn_state z = TxCommitting" for z :: "'a transaction_context"
    using that by (simp add: transition_to_def)
  show "r = Inr ()" "t \<notin> fst ` set (tm_active m')" "me_sink env = Some sk \<Longrightarrow> k' \<in> {k, sk_checkpoint sk k}"
    using run x y cl [of y] cl [of "snd (clear_undo_logs y)"]
    by (auto simp: commit_settle_def Let_def m1_def [symmetric] y_def [symmetric] tr emit_def release_long_read_def remove_ctx_def
        split: if_splits)
qed

subsection \<open>The stages composed\<close>

lemma commit_stages:
  assumes "commit_transaction env now t m k = (r, m', k')"
  obtains (refused) e where "commit_admission env now t m k = (Inl e, m', k')" "r = Inl e"
    | (lost) c m1 e where "commit_admission env now t m k = (Inr c, m1, k)" "commit_durable env c t m1 k = (Inl e, m', k')" "r = Inl e"
    | (unreserved) c m1 lsn m2 e where "commit_admission env now t m k = (Inr c, m1, k)"
        "commit_durable env c t m1 k = (Inr lsn, m2, k')"
        "commit_reserve now (build_commit_descriptor c) lsn c t m2 = (Inl e, m')" "r = Inl e"
    | (reviewed) c m1 lsn m2 k2 ts m3 r4 m4 k4 where "commit_admission env now t m k = (Inr c, m1, k)"
        "commit_durable env c t m1 k = (Inr lsn, m2, k2)"
        "commit_reserve now (build_commit_descriptor c) lsn c t m2 = (Inr ts, m3)"
        "commit_review env (build_commit_descriptor c) ts c t m3 k2 = (r4, m4, k4)"
        "case r4 of Inl e \<Rightarrow> r = Inl e \<and> m' = m4 \<and> k' = k4
         | Inr _ \<Rightarrow> (let m5 = (case map_of (tm_active m4) t of None \<Rightarrow> m4 | Some x \<Rightarrow> set_ctx t (mark_commit_published lsn x) m4)
             in (case commit_finalize env (build_commit_descriptor c) lsn ts c t m5 k4 of
                  (Inl e, m6, k6) \<Rightarrow> (Inl e, m6, k6)
                | (Inr _, m6, k6) \<Rightarrow> commit_settle env now (build_commit_descriptor c) lsn ts t m6 k6) = (r, m', k'))"
proof -
  obtain r1 m1 k1 where s1: "commit_admission env now t m k = (r1, m1, k1)" by (metis prod_cases3)
  show thesis
  proof (cases r1)
    case (Inl e)
    then show thesis using assms s1 refused by (simp add: commit_transaction_def)
  next
    case (Inr c)
    have k1: "k1 = k" using s1 Inr by (auto elim: admission_Inr)
    obtain r2 m2 k2 where s2: "commit_durable env c t m1 k = (r2, m2, k2)" by (metis prod_cases3)
    obtain r3 m3 where s3: "commit_reserve now (build_commit_descriptor c) (projr r2) c t m2 = (r3, m3)" by force
    obtain r4 m4 k4 where s4: "commit_review env (build_commit_descriptor c) (projr r3) c t m3 k2 = (r4, m4, k4)" by (metis prod_cases3)
    show thesis
    proof (cases "\<exists>e. r2 = Inl e \<or> r3 = Inl e")
      case True
      then show thesis using assms s1 Inr k1 s2 s3 lost [of c m1] unreserved [of c m1]
        by (cases r2; cases r3; simp add: commit_transaction_def Let_def)
    next
      case False
      then obtain lsn ts where p: "r2 = Inr lsn" "r3 = Inr ts" by (metis sum.exhaust)
      show thesis
        by (rule reviewed [of c m1 lsn m2 k2 ts m3 r4 m4 k4])
           (use assms s1 Inr k1 s2 s3 s4 p in \<open>auto simp: commit_transaction_def Let_def split: sum.splits\<close>)
    qed
  qed
qed

lemma published_in_commit:
  assumes "in_commit t c m"
  shows "in_commit t c (case map_of (tm_active m) t of None \<Rightarrow> m | Some x \<Rightarrow> set_ctx t (mark_commit_published lsn x) m)"
  using assms by (auto simp: in_commit_def mark_commit_published_def)

lemma published_frame [simp]:
  "tm_vm (case map_of (tm_active m) t of None \<Rightarrow> m | Some x \<Rightarrow> set_ctx t (f x) m) = tm_vm m"
  "tm_config (case map_of (tm_active m) t of None \<Rightarrow> m | Some x \<Rightarrow> set_ctx t (f x) m) = tm_config m"
  by (auto split: option.splits)

lemma reserved_stages:
  assumes "commit_admission env now t m k = (Inr c, m1, k)" "commit_durable env c t m1 k = (Inr lsn, m2, k2)"
    "commit_reserve now d lsn c t m2 = (r3, m3)"
  shows "mgr_slots m3 \<subseteq> mgr_slots m" "r3 = Inr ts \<Longrightarrow> in_commit t c m3" "r3 = Inr ts \<Longrightarrow> tm_config m3 = tm_config m"
    "\<lbrakk> txn_type c = TyWrite; \<not> mc_in_memory (tm_config m); me_sink env = Some sk \<rbrakk> \<Longrightarrow>
     retry (mc_commit_retries (tm_config m)) (sk_commit sk (build_commit_descriptor c)) k = (Inr lsn, k2)"
proof -
  obtain a: "in_commit t c m1" "map_of (tm_active m1) t = Some c" "tm_config m1 = tm_config m" using admission_Inr [OF assms(1)] .
  then have "txn_state c = TxCommitting" by (simp add: in_commit_def)
  note b = durable_Inr [OF a(1) this assms(2)]
  show "mgr_slots m3 \<subseteq> mgr_slots m" "r3 = Inr ts \<Longrightarrow> in_commit t c m3" "r3 = Inr ts \<Longrightarrow> tm_config m3 = tm_config m"
    using reserve_stage [OF b(1) assms(3)] b(2,3) a(3) admission_slots [OF assms(1)] by auto
  show "\<lbrakk> txn_type c = TyWrite; \<not> mc_in_memory (tm_config m); me_sink env = Some sk \<rbrakk> \<Longrightarrow>
     retry (mc_commit_retries (tm_config m)) (sk_commit sk (build_commit_descriptor c)) k = (Inr lsn, k2)"
    using b(4) a(3) by simp
qed

lemma reviewed_stages:
  assumes "in_commit t c m3" "commit_review env d ts c t m3 k2 = (Inr (), m4, k4)"
    and m5: "m5 = (case map_of (tm_active m4) t of None \<Rightarrow> m4 | Some x \<Rightarrow> set_ctx t (mark_commit_published lsn x) m4)"
  shows "in_commit t c m5" "tm_config m5 = tm_config m3" "mgr_slots m5 \<subseteq> mgr_slots m3" "k4 = k2"
  using review_stage [OF assms(2)] published_in_commit [of t c m4 lsn] assms(1) by (auto simp: m5 in_commit_def)

lemma finish_outcome:
  assumes com: "in_commit t c m" and run: "(case commit_finalize env d lsn ts c t m k of
      (Inl e, m6, k6) \<Rightarrow> (Inl e, m6, k6) | (Inr _, m6, k6) \<Rightarrow> commit_settle env now d lsn ts t m6 k6) = (r, m', k')"
  shows "r = Inr () \<or> r = Inl CommitFailed \<and> mgr_slots m' \<subseteq> mgr_slots m"
proof -
  obtain r6 m6 k6 where f: "commit_finalize env d lsn ts c t m k = (r6, m6, k6)" by (metis prod_cases3)
  note g = finalize_stage [OF f]
  have "r6 = Inr () \<or> r6 = Inl CommitFailed"
    using f by (auto simp: commit_finalize_def Let_def split: if_splits option.splits prod.splits sum.splits)
  then show ?thesis
  proof
    assume ok: "r6 = Inr ()"
    then have "commit_settle env now d lsn ts t m k6 = (r, m', k')" using run f g(2) by simp
    from settle_succeeds(1) [OF com this] show ?thesis by simp
  next
    assume "r6 = Inl CommitFailed"
    then show ?thesis using run f g(1) by simp
  qed
qed

lemma abort_sink_effect:
  assumes "abort_then env e t m k = (r, m', k')" "me_sink env = Some sk" "in_commit t c m"
  shows "k' = k \<or> k' = snd (retry (mc_abort_retries (tm_config m)) (sk_abort sk t (start_timestamp c)) k)"
proof -
  have tr: "transition_to s x = (Inr (), y) \<Longrightarrow> start_timestamp y = start_timestamp x" for s x and y :: "'a transaction_context"
    by (auto simp: transition_to_def split: if_splits)
  have ex: "k1 = k \<or> k1 = snd (retry (mc_abort_retries (tm_config m)) (sk_abort sk t (start_timestamp c)) k)"
    if "execute_abort_internal env t y (set_ctx t y m) k = (x, m1, k1)" "start_timestamp y = start_timestamp c" for y x m1 k1
    using that assms(2) by (auto simp: execute_abort_internal_def sink_rollback_def Let_def split: if_splits prod.splits sum.splits)
  show ?thesis using assms
    by (auto simp: abort_then_def abort_common_def in_commit_def split: if_splits prod.splits sum.splits option.splits dest!: ex tr)
qed

subsection \<open>A sample manager with a recording sink\<close>

definition recording_sink :: "string list commit_sink" where
  "recording_sink = \<lparr> sk_commit = (\<lambda>d k. (Inr 7, k @ [''commit''])), sk_finalize = (\<lambda>d lsn k. (Inr (), k @ [''finalize''])),
     sk_abort = (\<lambda>t ts k. (Inr (), k @ [''abort''])), sk_checkpoint = (\<lambda>k. k @ [''checkpoint'']) \<rparr>"

definition recording_env :: "(nat, string list) manager_env" where
  "recording_env = \<lparr> me_sink = Some recording_sink, me_sync_rollback = None, me_vetoes = [] \<rparr>"

definition sample_slots :: version_manager where
  "sample_slots = demo_vm0\<lparr> write_ts := 5, write_states := [(3, 0, Pending)], tracker := add_snapshot 3 0 snapshot_tracker_new \<rparr>"

definition sample_manager :: "nat transaction_context \<Rightarrow> certifier \<Rightarrow> nat txn_manager" where
  "sample_manager c ce = (manager_new sample_slots sample_manager_config)\<lparr> tm_active := [(9, c)], tm_certifier := ce \<rparr>"

lemma sample_manager_view [simp]:
  "tm_active (sample_manager c ce) = [(9, c)]" "tm_certifier (sample_manager c ce) = ce" "tm_vm (sample_manager c ce) = sample_slots"
  "\<not> mc_in_memory (tm_config (sample_manager c ce))" "mc_commit_retries (tm_config (sample_manager c ce)) = 3"
  "mc_abort_retries (tm_config (sample_manager c ce)) = 3" "\<not> mc_auto_checkpoint (tm_config (sample_manager c ce))"
  by (simp_all add: sample_manager_def manager_new_def sample_manager_config_def)

lemma sample_reserves: "\<exists>vm. reserve_commit_timestamp 0 3 sample_slots = Inr (6, vm)"
  by (simp add: reserve_commit_timestamp_def reserve_timestamp_def sample_slots_def
      is_allocatable_timestamp_def RESERVED_ZERO_TIMESTAMP_def
      INVALID_TIMESTAMP_def MAX_TIMESTAMP_def checked_add_u64_def u64_max_def)

lemma recording_retry [simp]:
  "retry n (sk_commit recording_sink d) k = (Inr 7, k @ [''commit''])"
  "retry n (sk_finalize recording_sink d lsn) k = (Inr (), k @ [''finalize''])"
  "retry n (sk_abort recording_sink t ts) k = (Inr (), k @ [''abort''])"
  "sk_checkpoint recording_sink k = k @ [''checkpoint'']"
  by (cases n; simp add: recording_sink_def)+

lemma recording_env_view [simp]: "me_sink recording_env = Some recording_sink" "me_vetoes recording_env = []"
  by (simp_all add: recording_env_def)

definition sample_idle :: "nat transaction_context" where
  "sample_idle = context_new 0 9 3 sample_txn_config"

lemma sample_idle_admitted:
  "commit_admission recording_env 0 9 (sample_manager sample_idle certifier_new) k =
    (Inr (sample_idle\<lparr> txn_state := TxCommitting \<rparr>),
     set_ctx 9 (sample_idle\<lparr> txn_state := TxCommitting \<rparr>) (sample_manager sample_idle certifier_new), k)"
proof -
  have f: "txn_state sample_idle = TxActive" "\<not> rollback_only sample_idle" "check_timeouts 0 sample_idle = Inr ()"
    "txn_type sample_idle = TyWrite" "transition_to TxCommitting sample_idle = (Inr (), sample_idle\<lparr> txn_state := TxCommitting \<rparr>)"
    by (simp_all add: sample_idle_def context_new_def check_timeouts_def is_expired_def is_idle_timeout_def sample_txn_config_def transition_to_def)
  have "check_write_set_conflict 9 [(9, sample_idle)] certifier_new = (Inr (), [(9, sample_idle)], certifier_new)"
    by (simp add: check_write_set_conflict_def sample_idle_def context_new_def sample_txn_config_def ws_is_empty_def write_set_new_def Let_def)
  then show ?thesis using f by (simp add: commit_admission_def is_user_transaction_def state_can_commit_def Let_def sample_manager_def)
qed

lemma sample_idle_commits:
  "\<exists>m' k'. commit_transaction recording_env 0 9 (sample_manager sample_idle certifier_new) [] = (Inr (), m', k')"
proof -
  let ?m = "sample_manager sample_idle certifier_new"
  obtain r m' k' where run: "commit_transaction recording_env 0 9 ?m [] = (r, m', k')" by (metis prod_cases3)
  note adm = sample_idle_admitted [of "[]"]
  have f: "txn_type sample_idle = TyWrite" "start_timestamp sample_idle = 3" "ws_is_empty (cd_write_set (build_commit_descriptor sample_idle))"
    by (simp_all add: sample_idle_def context_new_def build_commit_descriptor_def ws_is_empty_def write_set_new_def)
  then have d: "ws_is_empty (cd_write_set (build_commit_descriptor (sample_idle\<lparr> txn_state := TxCommitting \<rparr>)))"
    by (simp add: build_commit_descriptor_def)
  from run have "r = Inr ()"
  proof (cases rule: commit_stages)
    case (refused e)
    then show ?thesis using adm by simp
  next
    case (lost c m1 e)
    then show ?thesis using adm f by (auto simp: commit_durable_def is_user_transaction_def)
  next
    case (unreserved c m1 lsn m2 e)
    then show ?thesis using adm f sample_reserves by (auto simp: commit_durable_def is_user_transaction_def commit_reserve_def Let_def)
  next
    case (reviewed c m1 lsn m2 k2 ts m3 r4 m4 k4)
    have c: "c = sample_idle\<lparr> txn_state := TxCommitting \<rparr>" using reviewed(1) adm by simp
    note b = reserved_stages(2,3) [OF reviewed(1-3) refl]
    have ok: "r4 = Inr ()" using reviewed(4) f d by (auto simp: commit_review_def c)
    define m5 where "m5 = (case map_of (tm_active m4) 9 of None \<Rightarrow> m4 | Some x \<Rightarrow> set_ctx 9 (mark_commit_published lsn x) m4)"
    note p = reviewed_stages [OF b(1) reviewed(4) [unfolded ok] m5_def]
    have "fst (commit_finalize recording_env (build_commit_descriptor c) lsn ts c 9 m5 k4) = Inr ()"
      using f(1) p(2) b(2) by (simp add: commit_finalize_def is_user_transaction_def c)
    then have "r \<noteq> Inl CommitFailed" using reviewed(5) ok settle_succeeds(1) [OF p(1)] finalize_stage(2)
      by (cases "commit_finalize recording_env (build_commit_descriptor c) lsn ts c 9 m5 k4") (fastforce simp: Let_def m5_def [symmetric])
    then show ?thesis using finish_outcome [OF p(1), of recording_env 0 "build_commit_descriptor c" lsn ts k4 r m' k'] reviewed(5) ok
      by (simp add: Let_def m5_def [symmetric])
  qed
  then show ?thesis using run by blast
qed

text \<open>A writer that adds an edge to a vertex deleted by a newer commit.\<close>

lemma sample_writer_fields:
  "txn_state sample_writer = TxActive" "\<not> rollback_only sample_writer" "check_timeouts 0 sample_writer = Inr ()" "txn_type sample_writer = TyWrite"
  "start_timestamp sample_writer = 3" "txn_write_set sample_writer = sample_insert" "\<not> read_only sample_writer"
  "cfg_isolation_level (config sample_writer) \<noteq> Serializable" "cfg_concurrency_mode (config sample_writer) = Optimistic"
  by (simp_all add: sample_writer_def context_new_def demo_config_def check_timeouts_def is_expired_def is_idle_timeout_def)

lemma sample_insert_facts:
  "ssi_resources sample_insert \<inter> ssi_resources sample_delete = {}" "\<not> ws_is_empty sample_insert" "has_conflict_with sample_insert sample_delete"
  by (auto simp: ssi_resources_def ws_is_empty_def has_conflict_with_def sample_defs)

definition sample_committing :: "nat transaction_context" where
  "sample_committing = sample_writer\<lparr> write_validated := True, txn_state := TxCommitting \<rparr>"

lemma sample_writer_admitted:
  "\<exists>m1. commit_admission recording_env 0 9 (sample_manager sample_writer sample_certifier) k = (Inr sample_committing, m1, k) \<and>
     tm_certifier m1 = sample_certifier \<and> tm_vm m1 = sample_slots"
proof -
  have "probe_committed_writes 3 sample_insert sample_certifier = Inr ()"
    using probe_iff(1) cert_run_inv [OF sample_run] sample_insert_facts(1) by (simp add: sample_committed)
  then have "check_write_set_conflict 9 [(9, sample_writer)] sample_certifier =
      (Inr (), [(9, sample_writer\<lparr> write_validated := True \<rparr>)], sample_certifier)"
    using sample_writer_fields sample_insert_facts(2)
    by (simp add: check_write_set_conflict_def Let_def mark_validated_def mark_write_validated_def)
  then show ?thesis using sample_writer_fields
    by (simp add: commit_admission_def is_user_transaction_def state_can_commit_def Let_def transition_to_def sample_committing_def)
qed

lemma sample_review_rejects:
  "fst (publish 9 6 3 sample_insert active (certifier_prune (get_safe_gc_timestamp sample_slots) sample_certifier)) \<noteq> Inr ()"
proof -
  have "get_safe_gc_timestamp sample_slots \<le> 3"
    by (simp add: get_safe_gc_timestamp_def sample_slots_def min_active_snapshot_def add_snapshot_def
        snapshot_tracker_new_def update_min_active_def u64_max_def)
  then have "sample_delete \<in> set (committed_after 3 (certifier_prune (get_safe_gc_timestamp sample_slots) sample_certifier))"
    by (simp add: committed_after_def bm_above_def bm_retain_def certifier_prune_def Let_def sample_certifier_def publish_def review_active_def
        certifier_new_def ws_is_empty_def unregister_reads_def index_write_set_def push_committed_def sample_defs)
  then show ?thesis using sample_insert_facts by (auto simp: publish_def list_ex_iff)
qed

lemma lease_certifier [simp]: "tm_certifier (release_write_lease t m) = tm_certifier m"
  by (auto simp: release_write_lease_def Let_def split: option.splits prod.splits bool.splits)

lemma sample_writer_refused:
  "\<exists>m' k'. commit_transaction recording_env 0 9 (sample_manager sample_writer sample_certifier) [] = (Inl SerializationFailed, m', k')"
proof -
  let ?m = "sample_manager sample_writer sample_certifier"
  obtain r m' k' where run: "commit_transaction recording_env 0 9 ?m [] = (r, m', k')" by (metis prod_cases3)
  obtain m0 where adm: "commit_admission recording_env 0 9 ?m [] = (Inr sample_committing, m0, [])"
    "tm_certifier m0 = sample_certifier" "tm_vm m0 = sample_slots" using sample_writer_admitted by blast
  have cfg: "\<not> mc_in_memory (tm_config m0)" by (rule admission_Inr [OF adm(1)]) simp
  have f: "txn_type sample_committing = TyWrite" "start_timestamp sample_committing = 3"
    "cd_write_set (build_commit_descriptor sample_committing) = sample_insert"
    using sample_writer_fields by (simp_all add: sample_committing_def build_commit_descriptor_def)
  have dur: "commit_durable recording_env sample_committing 9 m0 [] = (Inr 7, m0, [''commit''])"
    using f cfg by (simp add: commit_durable_def is_user_transaction_def)
  obtain m3 where res: "commit_reserve 0 d lsn sample_committing 9 m0 = (Inr 6, m3)"
    "tm_certifier m3 = certifier_prune (get_safe_gc_timestamp sample_slots) sample_certifier" for d lsn
    using f sample_reserves adm(2,3) by (auto simp: commit_reserve_def Let_def prune_committed_write_sets_def)
  have pub: "\<exists>e ce. publish 9 6 3 sample_insert (tm_active m3) (tm_certifier m3) = (Inl (CertConflict e), ce)"
    using sample_review_rejects [of "tm_active m3"] res(2) sample_insert_facts(2) by (auto simp: publish_def split: if_splits)
  have ab: "fst (abort_then env e t m k) = Inl e" for env e t and m :: "nat txn_manager" and k :: "string list"
    by (simp add: abort_then_def split: prod.splits)
  have rev: "fst (commit_review recording_env (build_commit_descriptor sample_committing) 6 sample_committing 9 m3 [''commit'']) = Inl SerializationFailed"
    using pub f sample_insert_facts(2) by (auto simp: commit_review_def ab cert_error_kind_def)
  have "r = Inl SerializationFailed" using run adm(1) dur res(1) rev
    by (auto simp: commit_transaction_def Let_def split: prod.splits sum.splits)
  then show ?thesis using run by blast
qed

subsection \<open>Properties\<close>

text \<open>
  C2.  An acknowledged commit is durable and final.  When the commit of a write
  transaction returns success on a manager with a commit sink, the sink has accepted the
  commit record built from the transaction's own write set and journal, has then finalized
  it under the log position it returned, and received no other call but at most one
  checkpoint offer; the transaction has left the table.
\<close>

theorem acknowledged_commit_durable:
  assumes run: "commit_transaction env now t m k = (Inr (), m', k')"
    and c: "map_of (tm_active m) t = Some c" "txn_type c = TyWrite"
    and cfg: "\<not> mc_in_memory (tm_config m)" "me_sink env = Some sk"
  shows "\<exists>lsn k1 k2. retry (mc_commit_retries (tm_config m)) (sk_commit sk (build_commit_descriptor c)) k = (Inr lsn, k1) \<and>
    retry (mc_commit_retries (tm_config m)) (sk_finalize sk (build_commit_descriptor c) lsn) k1 = (Inr (), k2) \<and>
    k' \<in> {k2, sk_checkpoint sk k2} \<and> t \<notin> fst ` set (tm_active m')"
  using run
proof (cases rule: commit_stages)
  case (reviewed c1 m1 lsn m2 k2 ts m3 r4 m4 k4)
  obtain c0 where a: "map_of (tm_active m) t = Some c0" "txn_type c1 = txn_type c0"
    "build_commit_descriptor c1 = build_commit_descriptor c0" by (rule admission_Inr [OF reviewed(1)])
  then have d: "build_commit_descriptor c1 = build_commit_descriptor c" "txn_type c1 = TyWrite" using c by simp_all
  note b = reserved_stages(2,3) [OF reviewed(1-3) refl]
  have ok: "r4 = Inr ()" using reviewed(5) by (cases r4) auto
  define m5 where "m5 = (case map_of (tm_active m4) t of None \<Rightarrow> m4 | Some x \<Rightarrow> set_ctx t (mark_commit_published lsn x) m4)"
  note p = reviewed_stages [OF b(1) reviewed(4) [unfolded ok] m5_def]
  obtain r6 m6 k6 where f: "commit_finalize env (build_commit_descriptor c1) lsn ts c1 t m5 k4 = (r6, m6, k6)" by (metis prod_cases3)
  have s: "r6 = Inr ()" "commit_settle env now (build_commit_descriptor c1) lsn ts t m6 k6 = (Inr (), m', k')"
    using reviewed(5) ok f unfolding m5_def by (cases r6, auto simp: Let_def)+
  note g = finalize_stage [OF f]
  have "in_commit t c1 m6" using g(2) s(1) p(1) by simp
  note st = settle_succeeds [OF this s(2)]
  show ?thesis
    using reserved_stages(4) [OF reviewed(1-3) d(2) cfg] g(3) [OF s(1) d(2) _ cfg(2)] st p(2,4) b(2) cfg d(1) by auto
qed auto

theorem acknowledged_commit_durable_witness:
  "\<exists>m' k'. commit_transaction recording_env 0 9 (sample_manager sample_idle certifier_new) [] = (Inr (), m', k') \<and>
     k' \<in> {[''commit'', ''finalize''], [''commit'', ''finalize'', ''checkpoint'']}"
proof -
  obtain m' k' where run: "commit_transaction recording_env 0 9 (sample_manager sample_idle certifier_new) [] = (Inr (), m', k')"
    using sample_idle_commits by blast
  have c: "map_of (tm_active (sample_manager sample_idle certifier_new)) 9 = Some sample_idle" "txn_type sample_idle = TyWrite"
    by (simp_all add: sample_idle_def context_new_def)
  from acknowledged_commit_durable [OF run c sample_manager_view(4) recording_env_view(1)] run show ?thesis
    by auto
qed

text \<open>
  C29.  A commit refused by the final review is already durable.  When an admitted write
  transaction fails with a serialization error on a manager with a commit sink, the sink
  has accepted its commit record; at most the sink's abort follows.
\<close>

theorem refused_commit_is_durable:
  assumes adm: "commit_admission env now t m k = (Inr c, m1, k)" "txn_type c = TyWrite"
    and run: "commit_transaction env now t m k = (Inl SerializationFailed, m', k')"
    and cfg: "\<not> mc_in_memory (tm_config m)" "me_sink env = Some sk"
  shows "\<exists>lsn k1. retry (mc_commit_retries (tm_config m)) (sk_commit sk (build_commit_descriptor c)) k = (Inr lsn, k1) \<and>
    k' \<in> {k1, snd (retry (mc_abort_retries (tm_config m)) (sk_abort sk t (start_timestamp c)) k1)}"
  using run
proof (cases rule: commit_stages)
  case (refused e)
  then show ?thesis using adm by simp
next
  case (lost c1 m2 e)
  then show ?thesis by (auto simp: commit_durable_def abort_then_def split: if_splits option.splits prod.splits sum.splits)
next
  case (unreserved c1 m2 lsn m3 e)
  then show ?thesis by (auto simp: commit_reserve_def Let_def split: if_splits prod.splits sum.splits)
next
  case (reviewed c1 m1' lsn m2 k2 ts m3 r4 m4 k4)
  have c1: "c1 = c" "m1' = m1" using reviewed(1) adm by auto
  note b = reserved_stages(2,3) [OF reviewed(1-3) [unfolded c1] refl]
  have inl: "r4 \<noteq> Inr ()"
  proof
    assume ok: "r4 = Inr ()"
    define m5 where "m5 = (case map_of (tm_active m4) t of None \<Rightarrow> m4 | Some x \<Rightarrow> set_ctx t (mark_commit_published lsn x) m4)"
    have "in_commit t c m5" by (rule reviewed_stages(1) [OF b(1) reviewed(4) [unfolded ok c1] m5_def])
    from finish_outcome [OF this, of env now "build_commit_descriptor c" lsn ts k4 "Inl SerializationFailed" m' k'] show False
      using reviewed(5) [unfolded c1] ok by (simp add: Let_def m5_def [symmetric])
  qed
  then have k': "k' = k4" using reviewed(5) by (cases r4) auto
  have "k4 = k2 \<or> k4 = snd (retry (mc_abort_retries (tm_config m3)) (sk_abort sk t (start_timestamp c)) k2)"
    if "abort_then env e t (m3\<lparr> tm_certifier := ce, tm_vm := vm \<rparr>) k2 = (x, y, k4)" for e ce vm x y
    using abort_sink_effect [OF that cfg(2), of c] b(1) by simp
  then have "k4 = k2 \<or> k4 = snd (retry (mc_abort_retries (tm_config m3)) (sk_abort sk t (start_timestamp c)) k2)"
    using reviewed(4) [unfolded c1] inl by (auto simp: commit_review_def split: if_splits prod.splits sum.splits)
  then show ?thesis using reserved_stages(4) [OF reviewed(1-3) [unfolded c1] adm(2) cfg] b(2) k' by auto
qed

theorem refused_commit_is_durable_witness:
  "\<exists>m1 m' k'. commit_admission recording_env 0 9 (sample_manager sample_writer sample_certifier) [] = (Inr sample_committing, m1, []) \<and>
     commit_transaction recording_env 0 9 (sample_manager sample_writer sample_certifier) [] = (Inl SerializationFailed, m', k') \<and>
     k' \<in> {[''commit''], [''commit'', ''abort'']}"
proof -
  let ?m = "sample_manager sample_writer sample_certifier"
  obtain m1 where adm: "commit_admission recording_env 0 9 ?m [] = (Inr sample_committing, m1, [])" using sample_writer_admitted by blast
  obtain m' k' where run: "commit_transaction recording_env 0 9 ?m [] = (Inl SerializationFailed, m', k')" using sample_writer_refused by blast
  have "txn_type sample_committing = TyWrite" using sample_writer_fields(4) by (simp add: sample_committing_def)
  from refused_commit_is_durable [OF adm this run sample_manager_view(4) recording_env_view(1)] adm run show ?thesis by auto
qed

text \<open>
  C6.  A refused commit publishes nothing.  When a commit returns an error, at whatever
  stage (admission, certification, the sink, the timestamp, the final review or the
  finalization), no timestamp slot has become committed that was not committed before.
\<close>

theorem failed_commit_publishes_nothing:
  assumes "commit_transaction env now t m k = (Inl e, m', k')"
  shows "committed_slots (tm_vm m') \<subseteq> committed_slots (tm_vm m)"
  using assms
proof (cases rule: commit_stages)
  case (refused e')
  show ?thesis using admission_slots [OF refused(1)] .
next
  case (lost c1 m1 e')
  show ?thesis using admission_slots [OF lost(1)] durable_slots [OF lost(2)] by simp
next
  case (unreserved c1 m1 lsn m2 e')
  show ?thesis using reserved_stages(1) [OF unreserved(1-3)] .
next
  case (reviewed c1 m1 lsn m2 k2 ts m3 r4 m4 k4)
  note b = reserved_stages(1) [OF reviewed(1-3)] reserved_stages(2) [OF reviewed(1-3) refl]
  show ?thesis
  proof (cases r4)
    case (Inl e')
    then show ?thesis using reviewed(5) b(1) review_stage(1) [OF reviewed(4)] by auto
  next
    case (Inr u)
    define m5 where "m5 = (case map_of (tm_active m4) t of None \<Rightarrow> m4 | Some x \<Rightarrow> set_ctx t (mark_commit_published lsn x) m4)"
    have r4: "commit_review env (build_commit_descriptor c1) ts c1 t m3 k2 = (Inr (), m4, k4)" using reviewed(4) Inr by simp
    note p = reviewed_stages [OF b(2) r4 m5_def]
    from finish_outcome [OF p(1), of env now "build_commit_descriptor c1" lsn ts k4 "Inl e" m' k'] have "mgr_slots m' \<subseteq> mgr_slots m5"
      using reviewed(5) Inr by (simp add: Let_def m5_def [symmetric])
    then show ?thesis using b(1) p(3) by auto
  qed
qed

theorem failed_commit_publishes_nothing_witness:
  "\<exists>m' k'. commit_transaction recording_env 0 9 (sample_manager sample_writer sample_certifier) [] = (Inl SerializationFailed, m', k') \<and>
     committed_slots (tm_vm m') = {}"
proof -
  obtain m' k' where run: "commit_transaction recording_env 0 9 (sample_manager sample_writer sample_certifier) [] = (Inl SerializationFailed, m', k')"
    using sample_writer_refused by blast
  have "committed_slots sample_slots = {}" by (simp add: committed_slots_def sample_slots_def)
  then show ?thesis using failed_commit_publishes_nothing [OF run] run by simp
qed

end
