(* ===== verification/TxnScopes.thy ===== *)
theory TxnScopes
  imports TxnLeases
begin

text \<open>
  The operations of the transaction manager around a running transaction: statement
  scopes and their snapshot pins (\<open>manager/statement_scope.rs\<close>), owners, savepoints
  (\<open>manager/savepoint.rs\<close>), long-read leases (\<open>manager/snapshot_lease.rs\<close>,
  \<open>snapshot_lease.rs\<close>), checkpoint transactions (\<open>manager/checkpoint.rs\<close>,
  \<open>checkpoint.rs\<close>) and the dispatching entry points.  Callbacks are functions of the
  manager and of the outside state \<open>'k\<close>, so that they may stand for the work of other
  threads as well; so is the wait of the drain, which also says whether it timed out.
  Durations count nanoseconds.  Panics, logging and statistics are left out.
\<close>

subsection \<open>Contexts and owners\<close>

definition get_context :: "txn_id \<Rightarrow> 'v txn_manager \<Rightarrow> 'v transaction_context txn_result" where
  "get_context t m = (case map_of (tm_active m) t of None \<Rightarrow> Inl TransactionNotFound | Some c \<Rightarrow> Inr c)"

definition set_transaction_owner :: "txn_id \<Rightarrow> string \<Rightarrow> 'v txn_manager \<Rightarrow> unit txn_result \<times> 'v txn_manager" where
  "set_transaction_owner t w m = (case get_context t m of Inl e \<Rightarrow> (Inl e, m) | Inr c \<Rightarrow> (Inr (), set_ctx t (set_owner w c) m))"

definition check_transaction_owner :: "txn_id \<Rightarrow> string option \<Rightarrow> 'v txn_manager \<Rightarrow> unit txn_result" where
  "check_transaction_owner t w m = (case get_context t m of Inl e \<Rightarrow> Inl e
     | Inr c \<Rightarrow> if owner_matches w c then Inr () else Inl TransactionNotOwner)"

definition mark_disconnect :: "txn_id \<Rightarrow> 'v txn_manager \<Rightarrow> unit txn_result \<times> 'v txn_manager" where
  "mark_disconnect t m = (case get_context t m of Inl e \<Rightarrow> (Inl e, m) | Inr c \<Rightarrow> (Inr (), set_ctx t (mark_rollback_only c) m))"

subsection \<open>Statement scopes\<close>

definition pin_statement_snapshot ::
  "instant \<Rightarrow> txn_id \<Rightarrow> 'v transaction_context \<Rightarrow> timestamp \<Rightarrow> 'v txn_manager \<Rightarrow> 'v txn_manager" where
  "pin_statement_snapshot now t c ts m = (case set_statement_snapshot_pin ts c of (previous, c1) \<Rightarrow>
     let tr = add_snapshot ts now (tracker (tm_vm m));
         tr1 = (case previous of None \<Rightarrow> tr | Some p \<Rightarrow> release_ignoring p tr)
     in set_ctx t c1 (m\<lparr> tm_vm := (tm_vm m)\<lparr> tracker := tr1 \<rparr> \<rparr>))"

definition mgr_begin_statement :: "instant \<Rightarrow> txn_id \<Rightarrow> 'v txn_manager \<Rightarrow> instant txn_result \<times> 'v txn_manager" where
  "mgr_begin_statement now t m = (case get_context t m of
      Inl e \<Rightarrow> (Inl e, m)
    | Inr c \<Rightarrow>
        let rc = (cfg_isolation_level (config c) = ReadCommitted);
            snapshot = (if rc then max (read_ts (tm_vm m)) (start_timestamp c) else start_timestamp c);
            c0 = (if rc then set_refreshed_read_ts snapshot c else c)
        in case begin_statement now c0 of
             (Inl e, c1) \<Rightarrow> (Inl e, set_ctx t c1 m)
           | (Inr start, c1) \<Rightarrow> (Inr start, pin_statement_snapshot now t c1 snapshot m))"

definition refresh_statement_snapshot :: "instant \<Rightarrow> txn_id \<Rightarrow> 'v txn_manager \<Rightarrow> unit txn_result \<times> 'v txn_manager" where
  "refresh_statement_snapshot now t m = (case get_context t m of
      Inl e \<Rightarrow> (Inl e, m)
    | Inr c \<Rightarrow> (case can_execute now c of
        Inl e \<Rightarrow> (Inl e, m)
      | Inr _ \<Rightarrow> (case check_timeouts now c of
          Inl e \<Rightarrow> (Inl e, m)
        | Inr _ \<Rightarrow>
            if cfg_isolation_level (config c) = ReadCommitted
            then let snapshot = max (read_ts (tm_vm m)) (start_timestamp c)
                 in (Inr (), pin_statement_snapshot now t (set_refreshed_read_ts snapshot c) snapshot m)
            else (Inr (), pin_statement_snapshot now t c (start_timestamp c) m))))"

definition mgr_finish_statement ::
  "instant \<Rightarrow> instant \<Rightarrow> 'v transaction_context \<Rightarrow> 'v txn_manager \<Rightarrow> unit txn_result \<times> 'v transaction_context \<times> 'v txn_manager" where
  "mgr_finish_statement now start c m = (case finish_statement now start c of (r, c1) \<Rightarrow>
     (case take_statement_snapshot_pin c1 of
        (None, c2) \<Rightarrow> (r, c2, set_ctx (ctx_id c) c2 m)
      | (Some ts, c2) \<Rightarrow> (r, c2, set_ctx (ctx_id c) c2
          (m\<lparr> tm_vm := (tm_vm m)\<lparr> tracker := release_ignoring ts (tracker (tm_vm m)) \<rparr> \<rparr>))))"

subsection \<open>Savepoints\<close>

definition mgr_create_savepoint ::
  "instant \<Rightarrow> txn_id \<Rightarrow> string option \<Rightarrow> nat \<Rightarrow> staged_write_mark option \<Rightarrow> 'v txn_manager
   \<Rightarrow> savepoint_id txn_result \<times> 'v txn_manager" where
  "mgr_create_savepoint now t nm sync mark m = (case get_context t m of
      Inl e \<Rightarrow> (Inl e, m)
    | Inr c \<Rightarrow> (case can_execute now c of
        Inl e \<Rightarrow> (Inl e, m)
      | Inr _ \<Rightarrow>
          if (case nm of None \<Rightarrow> False | Some w \<Rightarrow> find_savepoint_by_name w c \<noteq> None) then (Inl SavepointFailed, m)
          else case create_savepoint now nm sync c of (i, c1) \<Rightarrow>
            (case set_savepoint_staging_mark i mark c1 of
               (Inl e, c2) \<Rightarrow> (Inl e, set_ctx t c2 m) | (Inr _, c2) \<Rightarrow> (Inr i, set_ctx t c2 m))))"

definition mgr_release_savepoint :: "txn_id \<Rightarrow> savepoint_id \<Rightarrow> 'v txn_manager \<Rightarrow> unit txn_result \<times> 'v txn_manager" where
  "mgr_release_savepoint t i m = (case get_context t m of
      Inl e \<Rightarrow> (Inl e, m) | Inr c \<Rightarrow> (case release_savepoint i c of (r, c1) \<Rightarrow> (r, set_ctx t c1 m)))"

definition mgr_rollback_to_savepoint ::
  "(txn_id \<Rightarrow> nat \<Rightarrow> 'g \<Rightarrow> (unit, unit) result \<times> 'g) option \<Rightarrow> 'v dec \<Rightarrow> ('g, 'v) undo_target \<Rightarrow> instant \<Rightarrow> txn_id \<Rightarrow> savepoint_id
   \<Rightarrow> 'v txn_manager \<Rightarrow> 'g \<Rightarrow> unit txn_result \<times> 'v txn_manager \<times> 'g" where
  "mgr_rollback_to_savepoint sync dec target now t i m g = (case get_context t m of
      Inl e \<Rightarrow> (Inl e, m, g)
    | Inr c \<Rightarrow> (case get_savepoint i c of
        None \<Rightarrow> (Inl SavepointNotFound, m, g)
      | Some sp \<Rightarrow> (case (case sync of None \<Rightarrow> (Inr (), g) | Some f \<Rightarrow> f t (sp_sync_sequence sp) g) of
          (Inl _, g1) \<Rightarrow> (Inl SyncFailed, m, g1)
        | (Inr _, g1) \<Rightarrow> (case rollback_to_savepoint dec target now i c g1 of
            (Inl _, c1, g2) \<Rightarrow> (Inl RollbackFailed, set_ctx t c1 m, g2)
          | (Inr _, c1, g2) \<Rightarrow> (Inr (), set_ctx t c1 m, g2)))))"

subsection \<open>Long-read leases\<close>

record lease_backpressure_view =
  bv_live_leases :: nat
  bv_pinned_secs :: nat

definition lease_is_live :: "instant \<Rightarrow> long_read_lease \<Rightarrow> bool" where
  "lease_is_live now l \<longleftrightarrow> now < ll_deadline l"

definition check_long_read_admission :: "lease_backpressure_view \<Rightarrow> manager_config \<Rightarrow> unit txn_result" where
  "check_long_read_admission v cfg =
     (if bv_live_leases v \<ge> mc_max_live_leases cfg then Inl transaction_error_kind.TooManyTransactions
      else if bv_pinned_secs v \<ge> mc_max_pin_secs cfg then Inl transaction_error_kind.TooManyTransactions else Inr ())"

definition clamp_lease_ttl :: "duration \<Rightarrow> duration \<Rightarrow> duration" where
  "clamp_lease_ttl requested storage_max = (let ttl = min requested storage_max in if ttl = 0 then 1000000 else ttl)"

definition begin_long_read_transaction ::
  "('v, 'k) manager_env \<Rightarrow> instant \<Rightarrow> transaction_options \<Rightarrow> lease_backpressure_view \<Rightarrow> duration \<Rightarrow> 'v txn_manager \<Rightarrow> 'k
   \<Rightarrow> txn_id txn_result \<times> 'v txn_manager \<times> 'k" where
  "begin_long_read_transaction env now opts v storage_max m k = (case check_long_read_admission v (tm_config m) of
      Inl e \<Rightarrow> (Inl e, m, k)
    | Inr _ \<Rightarrow> (case begin_read_transaction env now opts m k of
        (Inl e, m1, k1) \<Rightarrow> (Inl e, m1, k1)
      | (Inr t, m1, k1) \<Rightarrow> (case get_context t m1 of
          Inl e \<Rightarrow> (Inl e, m1, k1)
        | Inr c \<Rightarrow> (Inr t, m1\<lparr> tm_long_reads := bm_insert t
            \<lparr> ll_holder = t, ll_floor_ts = start_timestamp c,
              ll_deadline = now + clamp_lease_ttl (mc_lease_ttl (tm_config m1)) storage_max \<rparr> (tm_long_reads m1) \<rparr>, k1))))"

definition check_long_read :: "txn_id \<Rightarrow> instant \<Rightarrow> 'v txn_manager \<Rightarrow> unit txn_result" where
  "check_long_read t now m = (case bm_get (tm_long_reads m) t of
      None \<Rightarrow> Inr () | Some l \<Rightarrow> if lease_is_live now l then Inr () else Inl SnapshotExpired)"

definition renew_long_read :: "txn_id \<Rightarrow> duration \<Rightarrow> instant \<Rightarrow> 'v txn_manager \<Rightarrow> bool \<times> 'v txn_manager" where
  "renew_long_read t storage_max now m = (case bm_get (tm_long_reads m) t of
      None \<Rightarrow> (False, m)
    | Some l \<Rightarrow> (True, m\<lparr> tm_long_reads := bm_insert t
        (l\<lparr> ll_deadline := now + clamp_lease_ttl (mc_lease_ttl (tm_config m)) storage_max \<rparr>) (tm_long_reads m) \<rparr>))"

definition reap_expired_long_reads :: "instant \<Rightarrow> 'v txn_manager \<Rightarrow> nat \<times> 'v txn_manager" where
  "reap_expired_long_reads now m =
     (let expired = map fst (filter (\<lambda>(_, l). \<not> lease_is_live now l) (tm_long_reads m))
      in (length expired, m\<lparr> tm_long_reads := fold bm_remove expired (tm_long_reads m) \<rparr>))"

subsection \<open>Entry points\<close>

definition begin_transaction ::
  "('v, 'k) manager_env \<Rightarrow> instant \<Rightarrow> transaction_options \<Rightarrow> 'v txn_manager \<Rightarrow> 'k \<Rightarrow> txn_id txn_result \<times> 'v txn_manager \<times> 'k" where
  "begin_transaction env now opts m k = (if opt_read_only opts then begin_read_transaction env now opts m k
     else begin_insert_transaction env now opts m k)"

definition begin_transaction_with_owner ::
  "('v, 'k) manager_env \<Rightarrow> instant \<Rightarrow> transaction_options \<Rightarrow> string \<Rightarrow> 'v txn_manager \<Rightarrow> 'k
   \<Rightarrow> txn_id txn_result \<times> 'v txn_manager \<times> 'k" where
  "begin_transaction_with_owner env now opts w m k = (case begin_transaction env now opts m k of
      (Inl e, m1, k1) \<Rightarrow> (Inl e, m1, k1)
    | (Inr t, m1, k1) \<Rightarrow> (case set_transaction_owner t w m1 of
        (Inl e, m2) \<Rightarrow> (Inl e, m2, k1) | (Inr _, m2) \<Rightarrow> (Inr t, m2, k1)))"

definition auto_commit ::
  "('v, 'k) manager_env \<Rightarrow> instant \<Rightarrow> transaction_options \<Rightarrow>
   ('v transaction_context \<Rightarrow> 'k \<Rightarrow> 'a txn_result \<times> 'v transaction_context \<times> 'k) \<Rightarrow> 'v txn_manager \<Rightarrow> 'k
   \<Rightarrow> 'a txn_result \<times> 'v txn_manager \<times> 'k" where
  "auto_commit env now defaults f m k = (case begin_insert_transaction env now defaults m k of
      (Inl e, m1, k1) \<Rightarrow> (Inl e, m1, k1)
    | (Inr t, m1, k1) \<Rightarrow> (case get_context t m1 of
        Inl e \<Rightarrow> (Inl e, m1, k1)
      | Inr c \<Rightarrow> (case f c k1 of
          (Inr a, c1, k2) \<Rightarrow> (case commit_transaction env now t (set_ctx t c1 m1) k2 of
              (Inl e, m3, k3) \<Rightarrow> (Inl e, m3, k3) | (Inr _, m3, k3) \<Rightarrow> (Inr a, m3, k3))
        | (Inl e, c1, k2) \<Rightarrow> (case abort_transaction env t (set_ctx t c1 m1) k2 of (_, m3, k3) \<Rightarrow> (Inl e, m3, k3)))))"

definition kill_transaction ::
  "('v, 'k) manager_env \<Rightarrow> txn_id \<Rightarrow> string option \<Rightarrow> 'v txn_manager \<Rightarrow> 'k \<Rightarrow> ('v, 'k) mgr_op" where
  "kill_transaction env t w m k = (case check_transaction_owner t w m of
      Inl e \<Rightarrow> (Inl e, m, k) | Inr _ \<Rightarrow> abort_transaction env t m k)"

definition commit_transaction_as_owner ::
  "('v, 'k) manager_env \<Rightarrow> instant \<Rightarrow> txn_id \<Rightarrow> string option \<Rightarrow> 'v txn_manager \<Rightarrow> 'k \<Rightarrow> ('v, 'k) mgr_op" where
  "commit_transaction_as_owner env now t w m k = (case check_transaction_owner t w m of
      Inl e \<Rightarrow> (Inl e, m, k) | Inr _ \<Rightarrow> commit_transaction env now t m k)"

subsection \<open>Checkpoint transactions\<close>

type_synonym 'v drain_wait = "'v txn_manager \<Rightarrow> bool \<times> 'v txn_manager"

record checkpoint_transaction =
  ct_txn_id :: txn_id
  ct_write_ts :: timestamp
  ct_finished :: bool
  ct_released_early :: bool

definition pause_writes_and_drain :: "'v drain_wait \<Rightarrow> 'v txn_manager \<Rightarrow> unit txn_result \<times> 'v txn_manager" where
  "pause_writes_and_drain wait m = (let m1 = m\<lparr> tm_gate := pause_writes (tm_gate m) \<rparr> in
     if active_writes (tm_gate m1) = 0 then (Inr (), m1)
     else case wait m1 of (timed_out, m2) \<Rightarrow>
       if \<not> timed_out \<and> active_writes (tm_gate m2) = 0 then (Inr (), m2)
       else (Inl CheckpointTimeout, m2\<lparr> tm_gate := drain_expired (tm_gate m2) \<rparr>))"

definition begin_checkpoint :: "'v drain_wait \<Rightarrow> 'v txn_manager \<Rightarrow> unit txn_result \<times> 'v txn_manager" where
  "begin_checkpoint wait m = (if mc_in_memory (tm_config m) then (Inr (), m) else pause_writes_and_drain wait m)"

definition end_checkpoint :: "'v txn_manager \<Rightarrow> 'v txn_manager" where
  "end_checkpoint m = (if mc_in_memory (tm_config m) then m else m\<lparr> tm_gate := resume_writes (tm_gate m) \<rparr>)"

definition begin_checkpoint_transaction ::
  "'v drain_wait \<Rightarrow> instant \<Rightarrow> 'v txn_manager \<Rightarrow> checkpoint_transaction txn_result \<times> 'v txn_manager" where
  "begin_checkpoint_transaction wait now m = (if tm_shutdown m then (Inl Internal, m)
     else if length (tm_active m) \<ge> mc_max_concurrent (tm_config m) then (Inl transaction_error_kind.TooManyTransactions, m)
     else case begin_checkpoint wait (m\<lparr> tm_commits_since_checkpoint := 0 \<rparr>) of
       (Inl e, m1) \<Rightarrow> (Inl e, m1)
     | (Inr _, m1) \<Rightarrow> let ts = write_ts (tm_vm m1) in (case next_txn_id m1 of (t, m2) \<Rightarrow>
         (Inr \<lparr> ct_txn_id = t, ct_write_ts = ts, ct_finished = False, ct_released_early = False \<rparr>,
          m2\<lparr> tm_active := tm_active m2 @ [(t, context_new_checkpoint now t ts (mc_txn_config (tm_config m2)))] \<rparr>)))"

definition finish_gate :: "'v txn_manager \<Rightarrow> 'v txn_manager" where
  "finish_gate m = m\<lparr> tm_gate := complete_checkpoint (tm_gate m) \<rparr>"

definition ct_release_write_gate_early ::
  "checkpoint_transaction \<Rightarrow> 'v txn_manager \<Rightarrow> checkpoint_transaction \<times> 'v txn_manager" where
  "ct_release_write_gate_early ct m = (if ct_released_early ct then (ct, m)
     else (ct\<lparr> ct_released_early := True \<rparr>, m\<lparr> tm_gate := release_write_gate_early (tm_gate m) \<rparr>))"

definition ct_commit ::
  "('v, 'k) manager_env \<Rightarrow> instant \<Rightarrow> checkpoint_transaction \<Rightarrow> 'v txn_manager \<Rightarrow> 'k \<Rightarrow> ('v, 'k) mgr_op" where
  "ct_commit env now ct m k = (case commit_transaction env now (ct_txn_id ct) m k of (r, m1, k1) \<Rightarrow> (r, finish_gate m1, k1))"

definition ct_abort ::
  "('v, 'k) manager_env \<Rightarrow> checkpoint_transaction \<Rightarrow> 'v txn_manager \<Rightarrow> 'k \<Rightarrow> ('v, 'k) mgr_op" where
  "ct_abort env ct m k = (case abort_transaction env (ct_txn_id ct) m k of (r, m1, k1) \<Rightarrow> (r, finish_gate m1, k1))"

definition ct_drop ::
  "('v, 'k) manager_env \<Rightarrow> checkpoint_transaction \<Rightarrow> 'v txn_manager \<Rightarrow> 'k \<Rightarrow> 'v txn_manager \<times> 'k" where
  "ct_drop env ct m k = (if ct_finished ct then (m, k) else case ct_abort env ct m k of (_, m1, k1) \<Rightarrow> (m1, k1))"

definition ct_commit_with_early_release ::
  "('v, 'k) manager_env \<Rightarrow> instant \<Rightarrow> (timestamp \<Rightarrow> 'v txn_manager \<Rightarrow> 'k \<Rightarrow> ('v, 'k) mgr_op) \<Rightarrow> checkpoint_transaction
   \<Rightarrow> 'v txn_manager \<Rightarrow> 'k \<Rightarrow> ('v, 'k) mgr_op" where
  "ct_commit_with_early_release env now storage_phase ct m k = (case ct_release_write_gate_early ct m of (ct1, m1) \<Rightarrow>
     (case storage_phase (ct_write_ts ct1) m1 k of
        (Inl e, m2, k2) \<Rightarrow> (case abort_transaction env (ct_txn_id ct1) m2 k2 of (_, m3, k3) \<Rightarrow> (Inl e, finish_gate m3, k3))
      | (Inr _, m2, k2) \<Rightarrow> (case commit_transaction env now (ct_txn_id ct1) m2 k2 of (r, m3, k3) \<Rightarrow> (r, finish_gate m3, k3))))"

definition coordinated_checkpoint ::
  "('v, 'k) manager_env \<Rightarrow> 'v drain_wait \<Rightarrow> instant \<Rightarrow>
   (timestamp \<Rightarrow> 'v txn_manager \<Rightarrow> 'k \<Rightarrow> nat txn_result \<times> 'v txn_manager \<times> 'k) \<Rightarrow> 'v txn_manager \<Rightarrow> 'k
   \<Rightarrow> (timestamp \<times> nat) txn_result \<times> 'v txn_manager \<times> 'k" where
  "coordinated_checkpoint env wait now f m k = (if mc_in_memory (tm_config m)
     then let ts = write_ts (tm_vm m) in (case f ts m k of
         (Inl e, m1, k1) \<Rightarrow> (Inl e, m1, k1) | (Inr lsn, m1, k1) \<Rightarrow> (Inr (ts, lsn), m1, k1))
     else case begin_checkpoint_transaction wait now m of
       (Inl e, m1) \<Rightarrow> (Inl e, m1, k)
     | (Inr ct, m1) \<Rightarrow> (case f (ct_write_ts ct) m1 k of
         (Inr lsn, m2, k2) \<Rightarrow> (case ct_commit env now ct m2 k2 of
             (Inl e, m3, k3) \<Rightarrow> (Inl e, m3, k3) | (Inr _, m3, k3) \<Rightarrow> (Inr (ct_write_ts ct, lsn), m3, k3))
       | (Inl e, m2, k2) \<Rightarrow> (case ct_abort env ct m2 k2 of (_, m3, k3) \<Rightarrow> (Inl e, m3, k3))))"

definition coordinated_checkpoint_with_early_release ::
  "('v, 'k) manager_env \<Rightarrow> 'v drain_wait \<Rightarrow> instant \<Rightarrow>
   (timestamp \<Rightarrow> 'v txn_manager \<Rightarrow> 'k \<Rightarrow> nat txn_result \<times> 'v txn_manager \<times> 'k) \<Rightarrow>
   (timestamp \<Rightarrow> nat \<Rightarrow> 'v txn_manager \<Rightarrow> 'k \<Rightarrow> ('v, 'k) mgr_op) \<Rightarrow> 'v txn_manager \<Rightarrow> 'k
   \<Rightarrow> (timestamp \<times> nat) txn_result \<times> 'v txn_manager \<times> 'k" where
  "coordinated_checkpoint_with_early_release env wait now wal_phase storage_phase m k = (if mc_in_memory (tm_config m)
     then let ts = write_ts (tm_vm m) in (case wal_phase ts m k of
         (Inl e, m1, k1) \<Rightarrow> (Inl e, m1, k1)
       | (Inr lsn, m1, k1) \<Rightarrow> (case storage_phase ts lsn m1 k1 of
           (Inl e, m2, k2) \<Rightarrow> (Inl e, m2, k2) | (Inr _, m2, k2) \<Rightarrow> (Inr (ts, lsn), m2, k2)))
     else case begin_checkpoint_transaction wait now m of
       (Inl e, m1) \<Rightarrow> (Inl e, m1, k)
     | (Inr ct, m1) \<Rightarrow> (case wal_phase (ct_write_ts ct) m1 k of
         (Inl e, m2, k2) \<Rightarrow> (case ct_abort env ct m2 k2 of (_, m3, k3) \<Rightarrow> (Inl e, m3, k3))
       | (Inr lsn, m2, k2) \<Rightarrow> (case ct_release_write_gate_early ct m2 of (ct1, m3) \<Rightarrow>
           (case storage_phase (ct_write_ts ct1) lsn m3 k2 of
              (Inl e, m4, k4) \<Rightarrow> (case ct_abort env ct1 m4 k4 of (_, m5, k5) \<Rightarrow> (Inl e, m5, k5))
            | (Inr _, m4, k4) \<Rightarrow> (case ct_commit env now ct1 m4 k4 of
                (Inl e, m5, k5) \<Rightarrow> (Inl e, m5, k5) | (Inr _, m5, k5) \<Rightarrow> (Inr (ct_write_ts ct1, lsn), m5, k5))))))"

subsection \<open>Statement scopes: lemmas\<close>

lemma begin_statement_Inr:
  "begin_statement now c = (Inr s, c') \<Longrightarrow> c' = c\<lparr> statement_start := now, query_count := query_count c + 1 \<rparr>"
  by (auto simp: begin_statement_def increment_query_count_def split: sum.splits)

definition statement_snapshot :: "'v transaction_context \<Rightarrow> 'v txn_manager \<Rightarrow> timestamp" where
  "statement_snapshot c m = (if cfg_isolation_level (config c) = ReadCommitted
     then max (read_ts (tm_vm m)) (start_timestamp c) else start_timestamp c)"

lemma pin_statement_fields:
  "map_of (tm_active m) t = Some c \<Longrightarrow> map_of (tm_active (pin_statement_snapshot now t c' ts m)) t = Some (c'\<lparr> statement_snapshot_pin := Some ts \<rparr>)"
  "tracker (tm_vm (pin_statement_snapshot now t c' ts m)) = (case statement_snapshot_pin c' of
     None \<Rightarrow> add_snapshot ts now (tracker (tm_vm m)) | Some p \<Rightarrow> release_ignoring p (add_snapshot ts now (tracker (tm_vm m))))"
  by (auto simp: pin_statement_snapshot_def set_statement_snapshot_pin_def Let_def split: option.splits)

lemma begin_scope:
  assumes c: "map_of (tm_active m) t = Some c" and b: "mgr_begin_statement now t m = (Inr s, m')"
  obtains c' where "map_of (tm_active m') t = Some c'" "statement_snapshot_pin c' = Some (statement_snapshot c m)"
    "start_timestamp c' = start_timestamp c" "ctx_id c' = ctx_id c" "config c' = config c"
    "cfg_isolation_level (config c) = ReadCommitted \<Longrightarrow> refreshed_read_ts c' = Some (statement_snapshot c m)"
    "cfg_isolation_level (config c) \<noteq> ReadCommitted \<Longrightarrow> refreshed_read_ts c' = refreshed_read_ts c"
    "tracker (tm_vm m') = (case statement_snapshot_pin c of
       None \<Rightarrow> add_snapshot (statement_snapshot c m) now (tracker (tm_vm m))
     | Some p \<Rightarrow> release_ignoring p (add_snapshot (statement_snapshot c m) now (tracker (tm_vm m))))"
proof -
  define c0 where "c0 = (if cfg_isolation_level (config c) = ReadCommitted then set_refreshed_read_ts (statement_snapshot c m) c else c)"
  have b': "(case begin_statement now c0 of (Inl e, c1) \<Rightarrow> (Inl e, set_ctx t c1 m)
      | (Inr st, c1) \<Rightarrow> (Inr st, pin_statement_snapshot now t c1 (statement_snapshot c m) m)) = (Inr s, m')"
    using b c unfolding mgr_begin_statement_def get_context_def c0_def statement_snapshot_def Let_def
    by (cases "cfg_isolation_level (config c) = ReadCommitted") simp_all
  obtain c1 where st: "begin_statement now c0 = (Inr s, c1)" and m': "m' = pin_statement_snapshot now t c1 (statement_snapshot c m) m"
    using b' by (auto split: prod.splits sum.splits)
  note c1 = begin_statement_Inr [OF st]
  show thesis
    by (rule that, unfold m', rule pin_statement_fields(1) [OF c])
      (simp_all add: c1 c0_def set_refreshed_read_ts_def pin_statement_fields(2))
qed

lemma finish_scope:
  assumes "mgr_finish_statement now start c m = (r, c', m')"
  shows "statement_snapshot_pin c' = None"
    "tracker (tm_vm m') = (case statement_snapshot_pin c of None \<Rightarrow> tracker (tm_vm m) | Some p \<Rightarrow> release_ignoring p (tracker (tm_vm m)))"
  using assms by (auto simp: mgr_finish_statement_def finish_statement_def take_statement_snapshot_pin_def update_activity_def
      mark_rollback_only_def Let_def split: prod.splits option.splits if_splits)

lemma set_ctx_vm: "set_ctx t c (m\<lparr> tm_vm := vm \<rparr>) = (set_ctx t c m)\<lparr> tm_vm := vm, tm_long_reads := tm_long_reads m \<rparr>"
  by (simp add: set_ctx_def)

lemma begin_statement_run:
  assumes run: "mgr_run env m k" and b: "mgr_begin_statement now t m = (Inr s, m')"
  shows "mgr_run env m' k"
proof -
  obtain c where c: "map_of (tm_active m) t = Some c" using b by (auto simp: mgr_begin_statement_def get_context_def split: option.splits)
  obtain c0 c1 ts where st: "begin_statement now c0 = (Inr s, c1)" "m' = pin_statement_snapshot now t c1 ts m"
    "c0 = c \<or> c0 = set_refreshed_read_ts ts c"
    using b c unfolding mgr_begin_statement_def get_context_def Let_def
    by (cases "cfg_isolation_level (config c) = ReadCommitted") (auto split: prod.splits sum.splits)
  define c' where "c' = c1\<lparr> statement_snapshot_pin := Some ts \<rparr>"
  obtain vm where "m' = set_ctx t c' (m\<lparr> tm_vm := vm \<rparr>)"
    by (simp add: st(2) pin_statement_snapshot_def set_statement_snapshot_pin_def c'_def Let_def)
  moreover have "same_lease c c'" "txn_state c' = txn_state c" "commit_published c' = commit_published c"
    using st(3) by (auto simp: c'_def begin_statement_Inr [OF st(1)] same_lease_def write_held_def set_refreshed_read_ts_def)
  ultimately show ?thesis using mgr_work [OF run c] by (simp add: set_ctx_vm)
qed

lemma finish_statement_run:
  assumes run: "mgr_run env m k" and c: "map_of (tm_active m) (ctx_id c) = Some c" and f: "mgr_finish_statement now start c m = (r, c', m')"
  shows "mgr_run env m' k"
proof -
  obtain vm where "m' = set_ctx (ctx_id c) c' (m\<lparr> tm_vm := vm \<rparr>)" "same_lease c c'" "txn_state c' = txn_state c" "commit_published c' = commit_published c"
  proof (rule that)
    show "m' = set_ctx (ctx_id c) c' (m\<lparr> tm_vm := tm_vm m' \<rparr>)" "same_lease c c'" "txn_state c' = txn_state c" "commit_published c' = commit_published c"
      using f by (auto simp: mgr_finish_statement_def finish_statement_def take_statement_snapshot_pin_def update_activity_def
          mark_rollback_only_def same_lease_def write_held_def Let_def set_ctx_def split: prod.splits option.splits if_splits)
  qed
  then show ?thesis using mgr_work [OF run c] by (simp add: set_ctx_vm)
qed

primrec own_releases :: "snapshot_op list \<Rightarrow> timestamp multiset \<Rightarrow> bool" where
  "own_releases [] M = True"
| "own_releases (x # xs) M = ((case x of Register _ _ \<Rightarrow> True | Release t \<Rightarrow> t \<in># M) \<and> own_releases xs (spec_op x M))"

lemma own_releases_frame:
  "own_releases ops M \<Longrightarrow> fold spec_op ops (add_mset p M) = add_mset p (fold spec_op ops M)"
proof (induction ops arbitrary: M)
  case (Cons x xs)
  have "spec_op x (add_mset p M) = add_mset p (spec_op x M)"
    using Cons.prems by (cases x) (auto simp: add_mset_commute dest: multi_member_split)
  then show ?case using Cons by simp
qed simp

subsection \<open>Overlapping checkpoints: lemmas\<close>

lemma release_lease_other: "u \<noteq> t \<Longrightarrow> map_of (tm_active (release_write_lease t m)) u = map_of (tm_active m) u"
  by (auto simp: release_write_lease_def mark_resources_released_def Let_def split: option.splits)

lemma release_pin_other: "u \<noteq> t \<Longrightarrow> map_of (tm_active (release_statement_pin t m)) u = map_of (tm_active m) u"
  by (auto simp: release_statement_pin_def take_statement_snapshot_pin_def split: option.splits)

lemma map_of_filter_other: "u \<noteq> t \<Longrightarrow> map_of (filter (\<lambda>(i, _). i \<noteq> t) a) u = map_of a u"
  by (induction a) auto

lemma remove_ctx_other: "u \<noteq> t \<Longrightarrow> map_of (tm_active (remove_ctx t m)) u = map_of (tm_active m) u"
  by (simp add: remove_ctx_def map_of_filter_other)

lemma finalize_abort_other:
  assumes "u \<noteq> t" shows "map_of (tm_active (finalize_abort_resources t c m)) u = map_of (tm_active m) u"
  using assms by (auto simp: finalize_abort_resources_def Let_def emit_def release_long_read_def remove_ctx_other release_pin_other
      release_lease_other split: prod.splits sum.splits)

lemma execute_abort_other:
  "u \<noteq> t \<Longrightarrow> execute_abort_internal env t c m k = (r, m', k') \<Longrightarrow> map_of (tm_active m') u = map_of (tm_active m) u"
  by (auto simp: execute_abort_internal_def Let_def finalize_abort_other prune_committed_write_sets_def split: prod.splits option.splits)

lemma abort_other:
  assumes "u \<noteq> t" "abort_transaction env t m k = (r, m', k')"
  shows "map_of (tm_active m') u = map_of (tm_active m) u"
proof (cases "map_of (tm_active m) t")
  case None
  then show ?thesis using assms(2) by (simp add: abort_transaction_with_def)
next
  case (Some c)
  obtain x c1 where tr: "transition_to TxAborting c = (x, c1)" by fastforce
  have "m' = m \<or> execute_abort_internal env t c1 (set_ctx t c1 m) k = (r, m', k')"
    using assms(2) Some tr by (cases x) (simp_all add: abort_transaction_with_def abort_common_def split: if_splits)
  then show ?thesis using execute_abort_other [OF assms(1), of env c1 "set_ctx t c1 m" k r m' k'] assms(1) by auto
qed

lemma begin_checkpoint_Inr:
  assumes "begin_checkpoint_transaction wait now m = (Inr ct, m')" "\<not> mc_in_memory (tm_config m)" "active_writes (tm_gate m) = 0"
  shows "ct_txn_id ct = tm_next_id m" "tm_config m' = tm_config m" "tm_next_id m' = (tm_next_id m + 1) mod 2 ^ 64"
    "tm_gate m' = pause_writes (tm_gate m)"
    "tm_active m' = tm_active m @ [(ct_txn_id ct, context_new_checkpoint now (ct_txn_id ct) (ct_write_ts ct) (mc_txn_config (tm_config m)))]"
  using assms by (auto simp: begin_checkpoint_transaction_def begin_checkpoint_def pause_writes_and_drain_def next_txn_id_def
      pause_writes_def Let_def split: if_splits)

subsection \<open>A sample scope\<close>

definition sample_rc_context :: "nat transaction_context" where
  "sample_rc_context = context_new 0 1 2 (begin_config (sample_options\<lparr> opt_isolation_level := ReadCommitted \<rparr>) sample_manager_config)"

definition sample_rc :: "nat txn_manager" where
  "sample_rc = fst (snd (begin_transaction sample_env 0 (sample_options\<lparr> opt_isolation_level := ReadCommitted \<rparr>) sample_start ()))"

lemma sample_rc_fields:
  "tm_vm sample_rc = demo_vm1" "tm_active sample_rc = [(1, sample_rc_context)]"
  unfolding sample_rc_def sample_rc_context_def
  by (simp_all add: begin_transaction_def begin_insert_transaction_def acquire_gate_slot_def acquire_write_def maybe_cleanup_def
      next_txn_id_def gate_new_def demo_acquire begin_config_def context_new_def sample_manager_defs Let_def)

lemma sample_rc_context_fields:
  "start_timestamp sample_rc_context = 2" "statement_snapshot_pin sample_rc_context = None"
  "cfg_isolation_level (config sample_rc_context) = ReadCommitted"
  by (simp_all add: sample_rc_context_def context_new_def begin_config_def sample_manager_defs)

lemma sample_rc_begins: "fst (mgr_begin_statement 1 1 sample_rc) = Inr 1"
  by (simp add: mgr_begin_statement_def get_context_def sample_rc_fields sample_rc_context_def context_new_def begin_config_def
      sample_manager_defs begin_statement_def can_execute_def check_timeouts_def is_expired_def is_idle_timeout_def
      set_refreshed_read_ts_def state_can_execute_def Let_def)

subsection \<open>Properties\<close>

text \<open>
  C8.  A statement scope pins and unpins its snapshot.  A statement that begins registers
  the snapshot it reads at: the start timestamp of its transaction or, under read
  committed, the read frontier if that is newer.  While it runs, however the other
  holders register snapshots and release those they hold, that snapshot stays registered
  and the garbage collection cutoff does not pass it.  When the statement finishes, in
  time or not, the context holds no pin and the reference counts are exactly those of the
  other holders.
\<close>

theorem statement_scope_balanced:
  assumes before: "tracks (tracker (tm_vm m)) M" "read_ts (tm_vm m) \<le> u64_max" "start_timestamp c \<le> u64_max"
    "map_of (tm_active m) t = Some c" "statement_snapshot_pin c = None"
    and begins: "mgr_begin_statement now t m = (Inr s, m1)" "map_of (tm_active m1) t = Some c1"
    and others: "list_all op_in_range ops" "own_releases ops M"
      "tracker (tm_vm m2) = fold run_op ops (tracker (tm_vm m1))" "statement_snapshot_pin c2 = statement_snapshot_pin c1"
    and finishes: "mgr_finish_statement later s c2 m2 = (r, c3, m3)"
  shows "\<exists>p. p = (if cfg_isolation_level (config c) = ReadCommitted
                then max (read_ts (tm_vm m)) (start_timestamp c) else start_timestamp c) \<and>
      statement_snapshot_pin c1 = Some p \<and>
      (cfg_isolation_level (config c) = ReadCommitted \<or> refreshed_read_ts c = None \<longrightarrow> effective_read_timestamp c1 = p) \<and>
      0 < snapshot_refs (tracker (tm_vm m2)) p \<and> get_safe_gc_timestamp (tm_vm m2) \<le> p \<and>
      statement_snapshot_pin c3 = None \<and>
      (\<forall>u. snapshot_refs (tracker (tm_vm m3)) u = count (fold spec_op ops M) u)"
proof -
  let ?p = "statement_snapshot c m" and ?tr = "tracker (tm_vm m)"
  obtain c' where c': "map_of (tm_active m1) t = Some c'" "statement_snapshot_pin c' = Some ?p" "start_timestamp c' = start_timestamp c"
    "cfg_isolation_level (config c) = ReadCommitted \<Longrightarrow> refreshed_read_ts c' = Some ?p"
    "cfg_isolation_level (config c) \<noteq> ReadCommitted \<Longrightarrow> refreshed_read_ts c' = refreshed_read_ts c"
    "tracker (tm_vm m1) = add_snapshot ?p now ?tr"
    by (rule begin_scope [OF before(4) begins(1)]) (simp add: before(5))
  have eq: "c1 = c'" using c'(1) begins(2) by simp
  have "?p \<le> u64_max" using before(2,3) by (simp add: statement_snapshot_def)
  then have "tracks (tracker (tm_vm m1)) (add_mset ?p M)" using tracks_op [OF before(1), of "Register ?p now"] c'(6) by simp
  then have run: "tracks (tracker (tm_vm m2)) (add_mset ?p (fold spec_op ops M))"
    using tracks_ops [OF _ others(1)] own_releases_frame [OF others(2)] others(3) by metis
  then have low: "0 < snapshot_refs (tracker (tm_vm m2)) ?p" "tracker_inv (tracker (tm_vm m2))" by (simp_all add: tracks_def)
  have "tracker (tm_vm m3) = run_op (Release ?p) (tracker (tm_vm m2))"
    using finish_scope(2) [OF finishes] others(4) c'(2) by (simp add: eq release_ignoring_def)
  then have "tracks (tracker (tm_vm m3)) (fold spec_op ops M)" using tracks_op [OF run, of "Release ?p"] by simp
  moreover have "cfg_isolation_level (config c) = ReadCommitted \<or> refreshed_read_ts c = None \<longrightarrow> effective_read_timestamp c1 = ?p"
    using c'(3-5) by (auto simp: eq effective_read_timestamp_def statement_snapshot_def split: option.splits)
  ultimately show ?thesis
    using reg.minimum_lower [OF low(2,1)] low(1) finish_scope(1) [OF finishes] c'(2)
    by (intro exI [of _ ?p]) (simp add: eq tracks_def statement_snapshot_def get_safe_gc_timestamp_def)
qed

theorem statement_scope_balanced_witness:
  "\<exists>c1 m1 m2 r c3 m3. mgr_begin_statement 1 1 sample_rc = (Inr 1, m1) \<and> map_of (tm_active m1) 1 = Some c1 \<and>
     tracker (tm_vm m2) = fold run_op [Register 9 1, Release 2] (tracker (tm_vm m1)) \<and>
     0 < snapshot_refs (tracker (tm_vm m2)) 2 \<and> get_safe_gc_timestamp (tm_vm m2) \<le> 2 \<and>
     mgr_finish_statement 2 1 c1 m2 = (r, c3, m3) \<and> snapshot_refs (tracker (tm_vm m3)) 2 = 0 \<and>
     snapshot_refs (tracker (tm_vm m3)) 9 = 1"
proof -
  let ?ops = "[Register 9 1, Release 2]"
  obtain m1 where b: "mgr_begin_statement 1 1 sample_rc = (Inr 1, m1)" using sample_rc_begins by (metis prod.collapse)
  have look: "map_of (tm_active sample_rc) 1 = Some sample_rc_context" by (simp add: sample_rc_fields)
  obtain c1 where c1: "map_of (tm_active m1) 1 = Some c1" by (rule begin_scope [OF look b])
  define m2 where "m2 = m1\<lparr> tm_vm := (tm_vm m1)\<lparr> tracker := fold run_op ?ops (tracker (tm_vm m1)) \<rparr> \<rparr>"
  then have m2: "tracker (tm_vm m2) = fold run_op ?ops (tracker (tm_vm m1))" by simp
  obtain r c3 m3 where f: "mgr_finish_statement 2 1 c1 m2 = (r, c3, m3)" by (metis prod_cases3)
  have t: "tracks (tracker (tm_vm sample_rc)) {#2#}"
    using tracks_op [OF tracks_new, of "Register 2 0"] by (simp add: sample_rc_fields demo_vm1_eval u64_max_def)
  have le: "read_ts (tm_vm sample_rc) \<le> u64_max" "start_timestamp sample_rc_context \<le> u64_max"
    by (simp_all add: sample_rc_fields sample_rc_context_fields demo_vm1_eval u64_max_def)
  have ops: "list_all op_in_range ?ops" "own_releases ?ops {#2#}" by (simp_all add: u64_max_def)
  from statement_scope_balanced [OF t le look sample_rc_context_fields(2) b c1 ops m2 refl f]
  have "0 < snapshot_refs (tracker (tm_vm m2)) 2 \<and> get_safe_gc_timestamp (tm_vm m2) \<le> 2 \<and>
      snapshot_refs (tracker (tm_vm m3)) 2 = 0 \<and> snapshot_refs (tracker (tm_vm m3)) 9 = 1"
    by (simp add: sample_rc_context_fields sample_rc_fields demo_vm1_eval numeral_2_eq_2)
  then show ?thesis using b c1 m2 f by blast
qed

text \<open>
  C31.  A read-committed writer never sees a newer commit.  As long as the start slot of
  a write transaction is pending, the read frontier stays below it, so the snapshot a
  statement takes is the start timestamp, however many commits were published since.
\<close>

theorem read_committed_never_refreshes:
  assumes "vm_reachable v" "tm_vm m = v\<lparr> tracker := st \<rparr>" "map_of (tm_active m) t = Some c"
    "cfg_isolation_level (config c) = ReadCommitted" "pending_slot v (start_timestamp c)"
    "mgr_begin_statement now t m = (Inr s, m')"
  shows "\<exists>c'. map_of (tm_active m') t = Some c' \<and> effective_read_timestamp c' = start_timestamp c \<and>
    statement_snapshot_pin c' = Some (start_timestamp c)"
proof -
  have "read_ts v < start_timestamp c"
    using reachable_good [OF assms(1)] assms(5) by (auto simp: vm_good_def dest: vm_invD(7))
  then have "statement_snapshot c m = start_timestamp c" by (simp add: statement_snapshot_def assms(2))
  then show ?thesis
    by (metis begin_scope [OF assms(3,6)] assms(4) effective_read_timestamp_def max.idem option.simps(5))
qed

theorem read_committed_never_refreshes_witness:
  "\<exists>c' m'. mgr_begin_statement 1 1 sample_rc = (Inr 1, m') \<and> map_of (tm_active m') 1 = Some c' \<and> effective_read_timestamp c' = 2"
proof -
  obtain m1 where b: "mgr_begin_statement 1 1 sample_rc = (Inr 1, m1)" using sample_rc_begins by (metis prod.collapse)
  have look: "map_of (tm_active sample_rc) 1 = Some sample_rc_context" by (simp add: sample_rc_fields)
  have vm: "tm_vm sample_rc = demo_vm1\<lparr> tracker := tracker demo_vm1 \<rparr>" by (simp add: sample_rc_fields)
  have slot: "pending_slot demo_vm1 (start_timestamp sample_rc_context)"
    by (simp add: sample_rc_context_fields pending_slot_def demo_vm1_eval)
  show ?thesis
    using read_committed_never_refreshes [OF demo_vm1_reachable vm look sample_rc_context_fields(3) slot b] b
    by (auto simp: sample_rc_context_fields)
qed

text \<open>
  C30.  Overlapping checkpoints break the exclusion.  A checkpoint transaction may begin
  while another one is in progress; when the first is aborted (or dropped), the gate
  opens and admits a writer although the second is still active and has not released it.
\<close>

theorem overlapping_checkpoint_admits_writers:
  assumes "\<not> mc_in_memory (tm_config m)" "active_writes (tm_gate m) = 0" "tm_next_id m + 2 < 2 ^ 64"
    "\<forall>u \<in> fst ` set (tm_active m). u < tm_next_id m"
    "begin_checkpoint_transaction wait1 now1 m = (Inr a, m1)" "begin_checkpoint_transaction wait2 now2 m1 = (Inr b, m2)"
    "ct_abort env a m2 k = (r, m3, k3)"
  shows "(\<exists>c. map_of (tm_active m3) (ct_txn_id b) = Some c \<and> txn_state c = TxActive \<and> txn_type c = TyCheckpoint) \<and>
    \<not> ct_released_early b \<and> writing_paused (tm_gate m2) \<and> fst (acquire_gate_slot m3) = Inr ()"
proof -
  note A = begin_checkpoint_Inr [OF assms(5,1,2)]
  have "\<not> mc_in_memory (tm_config m1)" "active_writes (tm_gate m1) = 0" using A assms(1,2) by (simp_all add: pause_writes_def)
  note B = begin_checkpoint_Inr [OF assms(6) this]
  have ids: "ct_txn_id b = tm_next_id m + 1" "ct_txn_id a = tm_next_id m" using A B assms(3) by simp_all
  obtain m' k' where ab: "abort_transaction env (ct_txn_id a) m2 k = (r, m', k')" and m3: "m3 = finish_gate m'"
    using assms(7) by (auto simp: ct_abort_def split: prod.splits)
  have fresh: "map_of (tm_active m1) (ct_txn_id b) = None"
    using assms(4) by (fastforce simp: A(5) ids map_of_eq_None_iff)
  have "map_of (tm_active m3) (ct_txn_id b) = map_of (tm_active m2) (ct_txn_id b)"
    using abort_other [OF _ ab, of "ct_txn_id b"] by (simp add: m3 finish_gate_def ids)
  then have "map_of (tm_active m3) (ct_txn_id b) =
      Some (context_new_checkpoint now2 (ct_txn_id b) (ct_write_ts b) (mc_txn_config (tm_config m1)))"
    using fresh by (simp add: B(5) map_add_def)
  moreover have "\<not> ct_released_early b"
    using assms(6) by (auto simp: begin_checkpoint_transaction_def Let_def split: if_splits prod.splits sum.splits)
  moreover have "fst (acquire_gate_slot m3) = Inr ()"
    by (simp add: m3 finish_gate_def acquire_gate_slot_def acquire_write_def complete_checkpoint_def fetch_add_writes_def Let_def)
  ultimately show ?thesis by (simp add: B(4) pause_writes_def context_new_checkpoint_def context_new_def)
qed

theorem overlapping_checkpoint_admits_writers_witness:
  "\<exists>a b m1 m2. begin_checkpoint_transaction (Pair False) 0 (sample_start :: nat txn_manager) = (Inr a, m1) \<and>
     begin_checkpoint_transaction (Pair False) 0 m1 = (Inr b, m2) \<and>
     fst (acquire_gate_slot (fst (snd (ct_abort sample_env a m2 ())))) = Inr ()"
proof -
  note eval = begin_checkpoint_transaction_def begin_checkpoint_def pause_writes_and_drain_def next_txn_id_def pause_writes_def
    gate_new_def sample_manager_defs Let_def
  obtain a m1 where A: "begin_checkpoint_transaction (Pair False) 0 (sample_start :: nat txn_manager) = (Inr a, m1)"
    by (simp add: eval)
  moreover obtain b m2 where B: "begin_checkpoint_transaction (Pair False) 0 m1 = (Inr b, m2)"
    using A by (auto simp: eval)
  moreover obtain r m3 k3 where C: "ct_abort sample_env a m2 () = (r, m3, k3)" by (metis prod_cases3)
  ultimately show ?thesis
    using overlapping_checkpoint_admits_writers [OF _ _ _ _ A B C] by (simp add: sample_manager_defs gate_new_def)
qed

end
