(* ===== verification/NullBitmap.thy ===== *)
theory NullBitmap
  imports Prelude
begin

text \<open>
  The null bitmap of \<open>linkrs-core/src/null_bitmap.rs\<close>: one bit per element in 64-bit
  words, with every operation of the source.  Under the invariant that the words cover
  the length every operation is one on a list of flags; the growing operations need in
  addition that the bits past the length are zero, which not every operation keeps.
\<close>

unbundle bit_operations_syntax

subsection \<open>The bitmap and its operations\<close>

record null_bitmap =
  nb_data :: "64 word list"
  nb_len :: nat

definition word_count :: "nat \<Rightarrow> nat" where
  "word_count n = (n + 63) div 64"

definition get_position :: "nat \<Rightarrow> nat \<times> nat" where
  "get_position idx = (idx div 64, idx mod 64)"

definition bitmap_new :: null_bitmap where
  "bitmap_new = \<lparr> nb_data = [], nb_len = 0 \<rparr>"

definition with_len :: "nat \<Rightarrow> null_bitmap" where
  "with_len n = \<lparr> nb_data = replicate (word_count n) 0, nb_len = n \<rparr>"

definition all_null :: "nat \<Rightarrow> null_bitmap" where
  "all_null n = \<lparr> nb_data = replicate (word_count n) (- 1), nb_len = n \<rparr>"

definition vec_resize :: "nat \<Rightarrow> 'a \<Rightarrow> 'a list \<Rightarrow> 'a list" where
  "vec_resize n x xs = take n xs @ replicate (n - length xs) x"

definition bitmap_reserve :: "nat \<Rightarrow> null_bitmap \<Rightarrow> null_bitmap" where
  "bitmap_reserve n b = (if word_count n > length (nb_data b) then b\<lparr> nb_data := vec_resize (word_count n) 0 (nb_data b) \<rparr> else b)"

definition bitmap_resize :: "nat \<Rightarrow> null_bitmap \<Rightarrow> null_bitmap" where
  "bitmap_resize n b = b\<lparr> nb_data := vec_resize (word_count n) 0 (nb_data b), nb_len := n \<rparr>"

definition is_null :: "null_bitmap \<Rightarrow> nat \<Rightarrow> bool" where
  "is_null b idx = (if idx \<ge> nb_len b then True
     else case get_position idx of (w, i) \<Rightarrow> drop_bit i (nb_data b ! w) AND 1 = 1)"

definition bitmap_set :: "nat \<Rightarrow> bool \<Rightarrow> null_bitmap \<Rightarrow> null_bitmap" where
  "bitmap_set idx flg b0 = (let b = (if idx \<ge> nb_len b0 then bitmap_resize (idx + 1) b0 else b0) in
     case get_position idx of (w, i) \<Rightarrow>
       b\<lparr> nb_data := (nb_data b)[w := (if flg then nb_data b ! w OR push_bit i 1 else nb_data b ! w AND NOT (push_bit i 1))] \<rparr>)"

definition bitmap_push :: "bool \<Rightarrow> null_bitmap \<Rightarrow> null_bitmap" where
  "bitmap_push flg b = (let idx = nb_len b;
       ds = (if word_count (idx + 1) > length (nb_data b) then nb_data b @ [0] else nb_data b) in
     b\<lparr> nb_len := idx + 1,
        nb_data := (if flg then case get_position idx of (w, i) \<Rightarrow> ds[w := ds ! w OR push_bit i 1] else ds) \<rparr>)"

text \<open>\<open>None\<close> is the panic of the assertion.\<close>

definition set_null_range :: "nat \<Rightarrow> nat \<Rightarrow> null_bitmap \<Rightarrow> null_bitmap option" where
  "set_null_range start stop b = (if \<not> (stop \<le> nb_len b \<and> start \<le> stop) then None
     else if start = stop then Some b
     else case (get_position start, get_position stop) of ((sw, sb), (ew, eb)) \<Rightarrow>
       let ds = nb_data b in
       if sw = ew then Some (b\<lparr> nb_data := ds[sw := ds ! sw OR push_bit sb (push_bit (eb - sb) 1 - 1)] \<rparr>)
       else let d1 = ds[sw := ds ! sw OR push_bit sb (NOT 0)];
                d2 = take (sw + 1) d1 @ replicate (ew - (sw + 1)) (- 1) @ drop ew d1;
                d3 = (if eb > 0 then d2[ew := d2 ! ew OR (push_bit eb 1 - 1)] else d2)
            in Some (b\<lparr> nb_data := d3 \<rparr>))"

definition count_ones :: "64 word \<Rightarrow> nat" where
  "count_ones w = length (filter (bit w) [0..<64])"

definition null_count :: "null_bitmap \<Rightarrow> nat" where
  "null_count b = (let full = nb_len b div 64; r = nb_len b mod 64;
       n = sum_list (map count_ones (take full (nb_data b)))
     in if r > 0 \<and> full < length (nb_data b) then n + count_ones (nb_data b ! full AND (push_bit r 1 - 1)) else n)"

definition valid_count :: "null_bitmap \<Rightarrow> nat" where
  "valid_count b = nb_len b - null_count b"

definition bitmap_clear :: "null_bitmap \<Rightarrow> null_bitmap" where
  "bitmap_clear b = b\<lparr> nb_data := [], nb_len := 0 \<rparr>"

definition bitmap_fill :: "bool \<Rightarrow> null_bitmap \<Rightarrow> null_bitmap" where
  "bitmap_fill flg b = b\<lparr> nb_data := replicate (length (nb_data b)) (if flg then - 1 else 0) \<rparr>"

definition invert :: "null_bitmap \<Rightarrow> null_bitmap" where
  "invert b = b\<lparr> nb_data := map NOT (nb_data b) \<rparr>"

definition null_indices :: "null_bitmap \<Rightarrow> nat list" where
  "null_indices b = concat (map (\<lambda>(k, w). map ((+) (k * 64)) (filter (\<lambda>i. k * 64 + i < nb_len b \<and> drop_bit i w AND 1 = 1) [0..<64]))
     (enumerate 0 (nb_data b)))"

definition word_at :: "64 word list \<Rightarrow> nat \<Rightarrow> 64 word" where
  "word_at ds i = (if i < length ds then ds ! i else 0)"

definition bitand :: "null_bitmap \<Rightarrow> null_bitmap \<Rightarrow> null_bitmap" where
  "bitand a b = (let n = min (nb_len a) (nb_len b) in
     \<lparr> nb_data = map (\<lambda>i. word_at (nb_data a) i AND word_at (nb_data b) i) [0..<word_count n], nb_len = n \<rparr>)"

definition bitor :: "null_bitmap \<Rightarrow> null_bitmap \<Rightarrow> null_bitmap" where
  "bitor a b = (let n = max (nb_len a) (nb_len b) in
     \<lparr> nb_data = map (\<lambda>i. word_at (nb_data a) i OR word_at (nb_data b) i) [0..<word_count n], nb_len = n \<rparr>)"

subsection \<open>Bits of the word list\<close>

declare push_bit_of_1 [simp del] and upt_rec_numeral [simp del]

lemma bit_one_at [simp]: "bit (push_bit m (1 :: 64 word)) n = (n = m \<and> m < 64)"
  by (auto simp: bit_push_bit_iff bit_1_iff)

definition flag :: "64 word list \<Rightarrow> nat \<Rightarrow> bool" where
  "flag ds i \<longleftrightarrow> i div 64 < length ds \<and> bit (ds ! (i div 64)) (i mod 64)"

definition nb_ok :: "null_bitmap \<Rightarrow> bool" where
  "nb_ok b \<longleftrightarrow> nb_len b \<le> 64 * length (nb_data b)"

definition nb_clean :: "null_bitmap \<Rightarrow> bool" where
  "nb_clean b \<longleftrightarrow> nb_ok b \<and> (\<forall>i \<ge> nb_len b. \<not> flag (nb_data b) i)"

definition nb_view :: "null_bitmap \<Rightarrow> bool list" where
  "nb_view b = map (flag (nb_data b)) [0..<nb_len b]"

lemma bit_test [simp]: "(drop_bit i (w :: 64 word) AND 1 = 1) = bit w i"
  by (simp add: and_one_eq bit_iff_odd_drop_bit odd_iff_mod_2_eq_one)

lemma same_position: "(i :: nat) div 64 = j div 64 \<and> i mod 64 = j mod 64 \<longleftrightarrow> i = j"
  by (metis div_mult_mod_eq)

lemma word_count_covers: "n \<le> 64 * word_count n" "word_count n \<le> k \<longleftrightarrow> n \<le> 64 * k" "i < n \<Longrightarrow> i div 64 < word_count n"
  by (auto simp: word_count_def)

lemma view_length [simp]: "length (nb_view b) = nb_len b"
  by (simp add: nb_view_def)

lemma view_nth: "i < nb_len b \<Longrightarrow> nb_view b ! i = flag (nb_data b) i"
  by (simp add: nb_view_def)

lemma is_null_view: "nb_ok b \<Longrightarrow> is_null b i = (i \<ge> nb_len b \<or> nb_view b ! i)"
  by (auto simp: is_null_def get_position_def view_nth flag_def nb_ok_def)

lemma flag_update: "w < length ds \<Longrightarrow> flag (ds[w := x]) i = (if i div 64 = w then bit x (i mod 64) else flag ds i)"
  by (auto simp: flag_def)

lemma flag_set:
  "j div 64 < length ds \<Longrightarrow> flag (ds[j div 64 := ds ! (j div 64) OR push_bit (j mod 64) 1]) i = (i = j \<or> flag ds i)"
  "j div 64 < length ds \<Longrightarrow> flag (ds[j div 64 := ds ! (j div 64) AND NOT (push_bit (j mod 64) 1)]) i = (i \<noteq> j \<and> flag ds i)"
  using same_position [of i j] by (auto simp: flag_update bit_or_iff bit_and_iff bit_not_iff) (auto simp: flag_def)

lemma flag_append_zero [simp]: "flag (ds @ replicate n 0) i = flag ds i"
  by (auto simp: flag_def nth_append)

lemma flag_take [simp]: "flag (take n ds) i = (i < 64 * n \<and> flag ds i)"
  by (auto simp: flag_def)

lemma flag_resize [simp]: "flag (vec_resize n 0 ds) i = (i < 64 * n \<and> flag ds i)"
  by (simp add: vec_resize_def)

lemma flag_append_word [simp]: "flag (ds @ [0]) i = flag ds i"
  using flag_append_zero [of ds 1 i] by simp

lemma length_resize [simp]: "length (vec_resize n x xs) = n"
  by (simp add: vec_resize_def)

lemma flag_replicate: "flag (replicate n w) i = (i < 64 * n \<and> bit w (i mod 64))"
  by (auto simp: flag_def)

lemma view_eqI:
  assumes "nb_len b = length xs" "\<And>i. i < length xs \<Longrightarrow> flag (nb_data b) i = xs ! i"
  shows "nb_view b = xs"
  using assms by (intro nth_equalityI) (simp_all add: view_nth)

subsection \<open>The operations on the flags\<close>

lemma new_view: "nb_view bitmap_new = []" "nb_clean bitmap_new"
  by (simp_all add: bitmap_new_def nb_view_def nb_clean_def nb_ok_def flag_def)

lemma with_len_view: "nb_view (with_len n) = replicate n False" "nb_clean (with_len n)"
  using word_count_covers(1) [of n] by (auto simp: with_len_def nb_clean_def nb_ok_def flag_replicate intro!: view_eqI)

lemma all_null_view: "nb_view (all_null n) = replicate n True" "nb_ok (all_null n)"
  using word_count_covers(1) [of n] by (auto simp: all_null_def nb_ok_def flag_replicate intro!: view_eqI)

lemma reserve_view: "nb_view (bitmap_reserve n b) = nb_view b" "nb_ok b \<Longrightarrow> nb_ok (bitmap_reserve n b)"
    "nb_clean b \<Longrightarrow> nb_clean (bitmap_reserve n b)"
proof -
  have "nb_ok b" if "nb_clean b" using that by (simp add: nb_clean_def)
  then show "nb_ok b \<Longrightarrow> nb_ok (bitmap_reserve n b)" "nb_clean b \<Longrightarrow> nb_clean (bitmap_reserve n b)"
    by (auto simp: bitmap_reserve_def nb_clean_def nb_ok_def)
  show "nb_view (bitmap_reserve n b) = nb_view b"
    using word_count_covers(2)
    by (intro view_eqI) (auto simp: bitmap_reserve_def view_nth flag_def vec_resize_def nth_append)
qed

lemma resize_view:
  assumes "nb_clean b"
  shows "nb_view (bitmap_resize n b) = take n (nb_view b) @ replicate (n - nb_len b) False" "nb_ok (bitmap_resize n b)"
    "nb_len b \<le> n \<Longrightarrow> nb_clean (bitmap_resize n b)"
proof -
  show "nb_view (bitmap_resize n b) = take n (nb_view b) @ replicate (n - nb_len b) False"
    using assms word_count_covers(1) [of n]
    by (intro view_eqI) (auto simp: bitmap_resize_def nth_append view_nth nb_clean_def min_def)
  show "nb_ok (bitmap_resize n b)" using word_count_covers(1) [of n] by (simp add: bitmap_resize_def nb_ok_def)
  then show "nb_clean (bitmap_resize n b)" if "nb_len b \<le> n"
    using assms that by (auto simp: bitmap_resize_def nb_clean_def)
qed

lemma push_view:
  assumes "nb_clean b"
  shows "nb_view (bitmap_push f b) = nb_view b @ [f]" "nb_clean (bitmap_push f b)"
proof -
  define ds where "ds = (if word_count (nb_len b + 1) > length (nb_data b) then nb_data b @ [0] else nb_data b)"
  have ok: "nb_len b \<le> 64 * length (nb_data b)" using assms by (simp add: nb_clean_def nb_ok_def)
  have ds: "flag ds i = flag (nb_data b) i" "nb_len b + 1 \<le> 64 * length ds" for i
    using ok word_count_covers(2) [of "nb_len b + 1" "length (nb_data b)"] by (auto simp: ds_def)
  have e: "bitmap_push f b = b\<lparr> nb_len := nb_len b + 1,
      nb_data := (if f then ds[nb_len b div 64 := ds ! (nb_len b div 64) OR push_bit (nb_len b mod 64) 1] else ds) \<rparr>"
    unfolding bitmap_push_def ds_def get_position_def Let_def by simp
  have "nb_len b div 64 < length ds" using ds(2) by (simp add: less_eq_Suc_le [symmetric] less_mult_imp_div_less mult.commute)
  then have p: "flag (nb_data (bitmap_push f b)) i = (f \<and> i = nb_len b \<or> flag (nb_data b) i)" for i
    using ds flag_set(1) [of "nb_len b" ds i] by (auto simp: e)
  have l: "nb_len (bitmap_push f b) = nb_len b + 1" "length (nb_data (bitmap_push f b)) = length ds" by (simp_all add: e)
  show "nb_view (bitmap_push f b) = nb_view b @ [f]"
    using assms by (intro view_eqI) (auto simp: l p nth_append view_nth less_Suc_eq nb_clean_def)
  show "nb_clean (bitmap_push f b)" using assms ds(2) by (auto simp: nb_clean_def nb_ok_def l p)
qed

lemma set_view:
  assumes "nb_clean b"
  shows "nb_view (bitmap_set i f b) = (nb_view b @ replicate (Suc i - nb_len b) False)[i := f]" "nb_clean (bitmap_set i f b)"
proof -
  define c where "c = (if i \<ge> nb_len b then bitmap_resize (i + 1) b else b)"
  have c: "nb_clean c" "nb_view c = nb_view b @ replicate (Suc i - nb_len b) False" "i < nb_len c"
    using assms resize_view [OF assms, of "i + 1"] by (auto simp: c_def bitmap_resize_def)
  have w: "i div 64 < length (nb_data c)" using c(1,3) by (auto simp: nb_clean_def nb_ok_def)
  have e: "bitmap_set i f b = c\<lparr> nb_data := (nb_data c)[i div 64 := (if f then nb_data c ! (i div 64) OR push_bit (i mod 64) 1
      else nb_data c ! (i div 64) AND NOT (push_bit (i mod 64) 1))] \<rparr>"
    unfolding bitmap_set_def c_def get_position_def Let_def by simp
  have p: "flag (nb_data (bitmap_set i f b)) j = (if j = i then f else flag (nb_data c) j)" for j
    using flag_set [OF w, of j] by (auto simp: e)
  have l: "nb_len (bitmap_set i f b) = nb_len c" "length (nb_data (bitmap_set i f b)) = length (nb_data c)" by (simp_all add: e)
  have "nb_view (bitmap_set i f b) = (nb_view c)[i := f]"
    by (intro view_eqI) (auto simp: l p view_nth nth_list_update)
  then show "nb_view (bitmap_set i f b) = (nb_view b @ replicate (Suc i - nb_len b) False)[i := f]" using c(2) by simp
  show "nb_clean (bitmap_set i f b)" using c(1,3) by (auto simp: nb_clean_def nb_ok_def l p)
qed

lemma fill_view: "nb_ok b \<Longrightarrow> nb_view (bitmap_fill f b) = replicate (nb_len b) f" "nb_ok b \<Longrightarrow> nb_ok (bitmap_fill f b)"
  by (auto simp: bitmap_fill_def nb_ok_def flag_replicate intro!: view_eqI)

lemma invert_view: "nb_ok b \<Longrightarrow> nb_view (invert b) = map Not (nb_view b)" "nb_ok b \<Longrightarrow> nb_ok (invert b)"
  by (auto simp: invert_def nb_ok_def flag_def view_nth bit_not_iff intro!: view_eqI)

subsection \<open>Ranges, counts and indices\<close>

lemma low_mask: "push_bit m (1 :: 64 word) - 1 = mask m"
  by (simp add: push_bit_of_1 mask_eq_exp_minus_1)

lemma mask_bits [simp]:
  "bit (push_bit m (1 :: 64 word) - 1) n = (n < m \<and> n < 64)" "bit (push_bit m (- 1 :: 64 word)) n = (m \<le> n \<and> n < 64)"
  "bit (push_bit k (push_bit m (1 :: 64 word) - 1)) n = (k \<le> n \<and> n - k < m \<and> n < 64)"
  by (auto simp: low_mask bit_mask_iff bit_push_bit_iff bit_not_iff possible_bit_def)

lemma position_le: "(i :: nat) \<le> j \<longleftrightarrow> i div 64 < j div 64 \<or> i div 64 = j div 64 \<and> i mod 64 \<le> j mod 64"
proof -
  have "i = 64 * (i div 64) + i mod 64" "j = 64 * (j div 64) + j mod 64" "i mod 64 < 64" "j mod 64 < 64" by simp_all
  then show ?thesis by linarith
qed

lemma position_less: "(i :: nat) < j \<longleftrightarrow> i div 64 < j div 64 \<or> i div 64 = j div 64 \<and> i mod 64 < j mod 64"
  using position_le [of j i] by linarith

lemma flag_middle:
  assumes "s < e" "e \<le> length ds"
  shows "flag (take (s + 1) ds @ replicate (e - (s + 1)) (- 1) @ drop e ds) i =
    (s < i div 64 \<and> i div 64 < e \<or> flag ds i)"
  using assms by (auto simp: flag_def nth_append)

lemma set_null_range_flags:
  assumes "nb_ok b" "start \<le> stop" "stop \<le> nb_len b"
  obtains b' where "set_null_range start stop b = Some b'" "nb_len b' = nb_len b" "length (nb_data b') = length (nb_data b)"
    "\<And>i. flag (nb_data b') i = (start \<le> i \<and> i < stop \<or> flag (nb_data b) i)"
proof -
  let ?ds = "nb_data b"
  have ok: "stop \<le> 64 * length ?ds" using assms by (simp add: nb_ok_def)
  consider "start = stop" | "start < stop" "start div 64 = stop div 64" | "start div 64 < stop div 64"
    using assms(2) position_le [of start stop] by linarith
  then show thesis
  proof cases
    case 1
    then show thesis using assms by (intro that [of b]) (auto simp: set_null_range_def)
  next
    case 2
    have w: "start div 64 < length ?ds" using ok 2 by auto
    have m: "start mod 64 < stop mod 64" using 2 position_le [of stop start] by linarith
    let ?d = "?ds[start div 64 := ?ds ! (start div 64) OR push_bit (start mod 64) (push_bit (stop mod 64 - start mod 64) 1 - 1)]"
    have "flag ?d i = (start \<le> i \<and> i < stop \<or> flag ?ds i)" for i
      unfolding position_le [of start i] position_less [of i stop]
      using w 2(2) m by (auto simp: flag_update bit_or_iff less_diff_iff) (auto simp: flag_def diff_less_mono)
    then show thesis using 2 assms by (intro that [of "b\<lparr> nb_data := ?d \<rparr>"]) (auto simp: set_null_range_def get_position_def Let_def)
  next
    case 3
    have w: "start div 64 < length ?ds" "stop div 64 \<le> length ?ds" using ok 3 by auto
    define d1 where "d1 = ?ds[start div 64 := ?ds ! (start div 64) OR push_bit (start mod 64) (NOT 0)]"
    define d2 where "d2 = take (start div 64 + 1) d1 @ replicate (stop div 64 - (start div 64 + 1)) (- 1) @ drop (stop div 64) d1"
    define d3 where "d3 = (if stop mod 64 > 0 then d2[stop div 64 := d2 ! (stop div 64) OR (push_bit (stop mod 64) 1 - 1)] else d2)"
    have len: "length d1 = length ?ds" "length d2 = length ?ds" "length d3 = length ?ds"
      using w 3 by (auto simp: d1_def d2_def d3_def)
    have f1: "flag d1 i = (i div 64 = start div 64 \<and> start mod 64 \<le> i mod 64 \<or> flag ?ds i)" for i
      using w(1) by (auto simp: d1_def flag_update bit_or_iff bit_not_iff bit_mask_iff) (auto simp: flag_def)
    have f2: "flag d2 i = (start div 64 < i div 64 \<and> i div 64 < stop div 64 \<or> flag d1 i)" for i
      unfolding d2_def using flag_middle [OF 3, of d1 i] w(2) len(1) by simp
    have "stop = 64 * (stop div 64) + stop mod 64" by simp
    then have "stop mod 64 > 0 \<Longrightarrow> stop div 64 < length d2" using ok len(2) by linarith
    then have f3: "flag d3 i = (i div 64 = stop div 64 \<and> i mod 64 < stop mod 64 \<or> flag d2 i)" for i
      by (auto simp: d3_def flag_update bit_or_iff) (auto simp: flag_def)
    have "flag d3 i = (start \<le> i \<and> i < stop \<or> flag ?ds i)" for i
      unfolding f3 f2 f1 position_le [of start i] position_less [of i stop] using 3 by auto
    moreover have "set_null_range start stop b = Some (b\<lparr> nb_data := d3 \<rparr>)"
      using 3 assms unfolding d3_def d2_def d1_def set_null_range_def get_position_def Let_def by auto
    ultimately show thesis using len by (intro that [of "b\<lparr> nb_data := d3 \<rparr>"]) simp_all
  qed
qed

lemma chunk: "[0..<64 * n + r] = [0..<64 * n] @ map ((+) (64 * n)) [0..<r]" for n r :: nat
proof -
  have "(+) (64 * n) = (\<lambda>i. i + 64 * n)" by (simp add: fun_eq_iff)
  then show ?thesis using upt_add_eq_append [of 0 "64 * n" r] map_add_upt [of "64 * n" r] by (simp add: add.commute)
qed

lemma flag_chunk: "n < length ds \<Longrightarrow> i < 64 \<Longrightarrow> flag ds (64 * n + i) = bit (ds ! n) i"
  by (simp add: flag_def)

lemma filter_chunk:
  assumes "n < length ds" "r \<le> 64"
  shows "filter (flag ds) (map ((+) (64 * n)) [0..<r]) = map ((+) (64 * n)) (filter (bit (ds ! n)) [0..<r])"
proof -
  have "filter (\<lambda>i. flag ds (64 * n + i)) [0..<r] = filter (bit (ds ! n)) [0..<r]"
    by (rule filter_cong [OF refl]) (use assms in \<open>simp add: flag_chunk\<close>)
  then show ?thesis by (simp add: filter_map comp_def)
qed

lemma upt_Suc_chunk: "[0..<64 * Suc n] = [0..<64 * n] @ map ((+) (64 * n)) [0..<64]"
  using chunk [of n 64] by (simp only: mult_Suc_right add.commute [of 64])

lemma count_full: "n \<le> length ds \<Longrightarrow> length (filter (flag ds) [0..<64 * n]) = sum_list (map count_ones (take n ds))"
proof (induction n)
  case (Suc n)
  then have n: "n < length ds" by simp
  have "length (filter (flag ds) [0..<64 * Suc n]) = length (filter (flag ds) [0..<64 * n]) + count_ones (ds ! n)"
    unfolding upt_Suc_chunk filter_append length_append filter_chunk [OF n le_refl] by (simp only: length_map count_ones_def)
  then show ?case using Suc.IH n by (simp add: take_Suc_conv_app_nth del: mult_Suc_right)
qed simp

lemma count_masked: "r \<le> 64 \<Longrightarrow> count_ones (w AND (push_bit r 1 - 1)) = length (filter (bit w) [0..<r])"
proof -
  assume "r \<le> 64"
  then have "[0..<64] = [0..<r] @ [r..<64]" by (metis le0 le_add_diff_inverse upt_add_eq_append)
  moreover have "filter (bit (w AND (push_bit r 1 - 1))) [r..<64] = []"
    "filter (bit (w AND (push_bit r 1 - 1))) [0..<r] = filter (bit w) [0..<r]"
    using \<open>r \<le> 64\<close> by (auto simp: filter_empty_conv bit_and_iff intro!: filter_cong)
  ultimately show ?thesis by (simp add: count_ones_def)
qed

lemma null_count_view:
  assumes "nb_ok b"
  shows "null_count b = length (filter (\<lambda>x. x) (nb_view b))"
proof -
  let ?n = "nb_len b div 64" and ?r = "nb_len b mod 64" and ?ds = "nb_data b"
  have len: "nb_len b = 64 * ?n + ?r" "?r < 64" by simp_all
  then have n: "?n \<le> length ?ds" "0 < ?r \<Longrightarrow> ?n < length ?ds" using assms unfolding nb_ok_def by linarith+
  have "length (filter (\<lambda>x. x) (nb_view b)) = length (filter (flag ?ds) [0..<64 * ?n + ?r])"
    using len(1) by (simp add: nb_view_def filter_map comp_def)
  also have "\<dots> = sum_list (map count_ones (take ?n ?ds)) + length (filter (flag ?ds) (map ((+) (64 * ?n)) [0..<?r]))"
    using count_full [OF n(1)] unfolding chunk filter_append length_append by simp
  also have "length (filter (flag ?ds) (map ((+) (64 * ?n)) [0..<?r])) =
      (if 0 < ?r then count_ones (?ds ! ?n AND (push_bit ?r 1 - 1)) else 0)"
    using filter_chunk [OF n(2), of ?r] len(2) count_masked [of ?r "?ds ! ?n"] by (simp del: length_filter_map)
  finally show ?thesis using n by (cases "0 < ?r") (simp_all add: null_count_def Let_def)
qed

lemma null_indices_view:
  assumes "nb_ok b"
  shows "null_indices b = filter (\<lambda>i. nb_view b ! i) [0..<nb_len b]"
proof -
  let ?p = "\<lambda>i. i < nb_len b \<and> flag (nb_data b) i"
  have "concat (map (\<lambda>(k, w). map ((+) (k * 64)) (filter (\<lambda>i. k * 64 + i < nb_len b \<and> bit w i) [0..<64])) (enumerate 0 (take n (nb_data b))))
      = filter ?p [0..<64 * n]" if "n \<le> length (nb_data b)" for n
    using that
  proof (induction n)
    case (Suc n)
    have "filter (\<lambda>i. ?p (64 * n + i)) [0..<64] = filter (\<lambda>i. n * 64 + i < nb_len b \<and> bit (nb_data b ! n) i) [0..<64]"
      by (rule filter_cong [OF refl]) (use Suc.prems in \<open>simp add: flag_chunk mult.commute [of n]\<close>)
    then have "filter ?p [0..<64 * Suc n] = filter ?p [0..<64 * n] @
        map ((+) (n * 64)) (filter (\<lambda>i. n * 64 + i < nb_len b \<and> bit (nb_data b ! n) i) [0..<64])"
      unfolding upt_Suc_chunk filter_append by (simp only: filter_map comp_def mult.commute)
    moreover have "enumerate 0 (take (Suc n) (nb_data b)) = enumerate 0 (take n (nb_data b)) @ [(n, nb_data b ! n)]"
      using Suc.prems by (simp add: take_Suc_conv_app_nth enumerate_append_eq)
    ultimately show ?case using Suc by (simp del: mult_Suc_right)
  qed simp
  from this [of "length (nb_data b)"] have "null_indices b = filter ?p [0..<64 * length (nb_data b)]"
    by (simp add: null_indices_def)
  also have "[0..<64 * length (nb_data b)] = [0..<nb_len b] @ [nb_len b..<64 * length (nb_data b)]"
    using assms by (metis le0 le_add_diff_inverse nb_ok_def upt_add_eq_append)
  finally show ?thesis by (auto simp: filter_empty_conv view_nth intro!: filter_cong)
qed

lemma flag_map:
  "flag (map f [0..<n]) i = (i < 64 * n \<and> bit (f (i div 64)) (i mod 64))"
  by (auto simp: flag_def)

lemma flag_word_at: "bit (word_at ds (i div 64)) (i mod 64) = flag ds i"
  by (simp add: word_at_def flag_def)

lemma bitand_view: "nb_view (bitand a b) = map (\<lambda>(x, y). x \<and> y) (zip (nb_view a) (nb_view b))" "nb_ok (bitand a b)"
proof -
  have "i < n \<Longrightarrow> i < 64 * word_count n" for i n using word_count_covers(1) [of n] by linarith
  then show "nb_view (bitand a b) = map (\<lambda>(x, y). x \<and> y) (zip (nb_view a) (nb_view b))"
    by (intro view_eqI) (auto simp: bitand_def Let_def flag_map bit_and_iff flag_word_at view_nth)
  show "nb_ok (bitand a b)" using word_count_covers(1) by (simp add: bitand_def Let_def nb_ok_def)
qed

lemma bitor_view:
  assumes "nb_clean a" "nb_clean b"
  shows "nb_view (bitor a b) = map (\<lambda>i. (i < nb_len a \<and> nb_view a ! i) \<or> (i < nb_len b \<and> nb_view b ! i)) [0..<max (nb_len a) (nb_len b)]"
    "nb_clean (bitor a b)"
proof -
  have "i < n \<Longrightarrow> i < 64 * word_count n" for i n using word_count_covers(1) [of n] by linarith
  moreover have "flag (nb_data c) i = (i < nb_len c \<and> nb_view c ! i)" if "nb_clean c" for c i
    using that by (cases "i < nb_len c") (auto simp: nb_clean_def view_nth)
  ultimately show "nb_view (bitor a b) = map (\<lambda>i. (i < nb_len a \<and> nb_view a ! i) \<or> (i < nb_len b \<and> nb_view b ! i)) [0..<max (nb_len a) (nb_len b)]"
    using assms by (intro view_eqI) (auto simp: bitor_def Let_def flag_map bit_or_iff flag_word_at)
  show "nb_clean (bitor a b)" using assms word_count_covers(1) [of "max (nb_len a) (nb_len b)"]
    by (auto simp: bitor_def Let_def nb_clean_def nb_ok_def flag_map bit_or_iff flag_word_at)
qed

lemma clean_flag: "nb_clean c \<Longrightarrow> flag (nb_data c) i = (i < nb_len c \<and> nb_view c ! i)"
  by (cases "i < nb_len c") (auto simp: nb_clean_def view_nth)

lemma bitand_clean: "nb_clean a \<Longrightarrow> nb_clean b \<Longrightarrow> nb_clean (bitand a b)"
  using word_count_covers(1) [of "min (nb_len a) (nb_len b)"]
  by (auto simp: bitand_def Let_def nb_clean_def nb_ok_def flag_map bit_and_iff flag_word_at min_le_iff_disj)

lemma range_view:
  assumes "nb_clean b" "set_null_range start stop b = Some b'"
  shows "nb_view b' = map (\<lambda>i. start \<le> i \<and> i < stop \<or> nb_view b ! i) [0..<nb_len b]" "nb_clean b'"
proof -
  have r: "nb_ok b" "start \<le> stop" "stop \<le> nb_len b" using assms by (auto simp: nb_clean_def set_null_range_def split: if_splits)
  obtain c where "set_null_range start stop b = Some c" "nb_len c = nb_len b" "length (nb_data c) = length (nb_data b)"
    "\<And>i. flag (nb_data c) i = (start \<le> i \<and> i < stop \<or> flag (nb_data b) i)"
    by (rule set_null_range_flags [OF r]) (rule that)
  with assms(2) have b': "nb_len b' = nb_len b" "length (nb_data b') = length (nb_data b)"
    "\<And>i. flag (nb_data b') i = (start \<le> i \<and> i < stop \<or> flag (nb_data b) i)" by auto
  then show "nb_view b' = map (\<lambda>i. start \<le> i \<and> i < stop \<or> nb_view b ! i) [0..<nb_len b]"
    by (intro view_eqI) (auto simp: view_nth)
  show "nb_clean b'" using assms(1) r(3) b' by (auto simp: nb_clean_def nb_ok_def)
qed

text \<open>The bitmaps the growing operations build, with the flags they stand for.\<close>

inductive nb_built :: "null_bitmap \<Rightarrow> bool list \<Rightarrow> bool" where
  built_new: "nb_built bitmap_new []"
| built_with_len: "nb_built (with_len n) (replicate n False)"
| built_reserve: "nb_built b xs \<Longrightarrow> nb_built (bitmap_reserve n b) xs"
| built_grow: "nb_built b xs \<Longrightarrow> length xs \<le> n \<Longrightarrow> nb_built (bitmap_resize n b) (xs @ replicate (n - length xs) False)"
| built_push: "nb_built b xs \<Longrightarrow> nb_built (bitmap_push f b) (xs @ [f])"
| built_set: "nb_built b xs \<Longrightarrow> nb_built (bitmap_set i f b) ((xs @ replicate (Suc i - length xs) False)[i := f])"
| built_range: "nb_built b xs \<Longrightarrow> set_null_range s e b = Some b' \<Longrightarrow>
    nb_built b' (map (\<lambda>i. s \<le> i \<and> i < e \<or> xs ! i) [0..<length xs])"
| built_clear: "nb_built b xs \<Longrightarrow> nb_built (bitmap_clear b) []"
| built_and: "nb_built a xs \<Longrightarrow> nb_built b ys \<Longrightarrow> nb_built (bitand a b) (map (\<lambda>(x, y). x \<and> y) (zip xs ys))"
| built_or: "nb_built a xs \<Longrightarrow> nb_built b ys \<Longrightarrow> nb_built (bitor a b)
    (map (\<lambda>i. (i < length xs \<and> xs ! i) \<or> (i < length ys \<and> ys ! i)) [0..<max (length xs) (length ys)])"

lemma built_ok: "nb_built b xs \<Longrightarrow> nb_clean b \<and> nb_view b = xs"
proof (induction rule: nb_built.induct)
  case (built_grow b xs n)
  then show ?case using resize_view [of b n] by (metis take_all view_length)
next
  case (built_range b xs s e b')
  then show ?case using range_view by (metis view_length)
next
  case (built_clear b xs)
  then show ?case by (simp add: bitmap_clear_def nb_view_def nb_clean_def nb_ok_def flag_def)
next
  case (built_or a xs b ys)
  then show ?case using bitor_view [of a b] by (metis view_length)
qed (use new_view with_len_view reserve_view push_view set_view bitand_view(1) bitand_clean in \<open>auto\<close>)

subsection \<open>Properties\<close>

text \<open>
  C22.  The null bitmap is a list of flags.  However a bitmap was built from pushes, sets,
  ranges, growth, clearing, conjunctions and disjunctions of bitmaps so built, it reads
  like the list of flags the same steps build: a test answers the flag and true past the
  end, the count of nulls is the number of set flags, and the null indices are those of
  the set flags in order.
\<close>

theorem bitmap_refines_flags:
  assumes "nb_built b xs"
  shows "is_null b i = (length xs \<le> i \<or> xs ! i) \<and> null_count b = length (filter (\<lambda>x. x) xs) \<and>
    valid_count b = length (filter Not xs) \<and> null_indices b = filter (\<lambda>j. xs ! j) [0..<length xs]"
proof -
  have ok: "nb_ok b" "nb_view b = xs" "nb_len b = length xs" using built_ok [OF assms] by (auto simp: nb_clean_def)
  have "length (filter (\<lambda>x. x) xs) + length (filter Not xs) = length xs"
    using sum_length_filter_compl [of "\<lambda>x. x" xs] by (simp add: comp_def)
  then show ?thesis
    using ok is_null_view [OF ok(1), of i] null_count_view [OF ok(1)] null_indices_view [OF ok(1)] by (simp add: valid_count_def)
qed

theorem bitmap_refines_flags_witness:
  "nb_built (bitmap_push True (bitmap_push False bitmap_new)) [False, True] \<and>
   is_null (bitmap_push True (bitmap_push False bitmap_new)) 1 \<and>
   \<not> is_null (bitmap_push True (bitmap_push False bitmap_new)) 0"
proof -
  have b: "nb_built (bitmap_push True (bitmap_push False bitmap_new)) ([] @ [False] @ [True])"
    using built_push [OF built_push [OF built_new]] by simp
  from bitmap_refines_flags [OF b, of 0] bitmap_refines_flags [OF b, of 1] b show ?thesis by simp
qed

text \<open>
  Bits past the length survive.  A bitmap made all null whose length does not fill
  its last word keeps set bits past its length; a valid element pushed onto it, or the
  element a growth adds, reads as null.
\<close>

lemma push_after_all_null:
  assumes "n mod 64 \<noteq> 0"
  shows "is_null (bitmap_push False (all_null n)) n \<and> is_null (bitmap_resize (n + 1) (all_null n)) n"
proof -
  have w: "word_count (n + 1) = word_count n" "n div 64 < word_count n"
  proof -
    have "(64 * q + s) div 64 = q + 1" if "64 \<le> s" "s < 128" for q s :: nat
      by (rule div_nat_eqI) (use that in auto)
    from this [of "n mod 64 + 63" "n div 64"] this [of "n mod 64 + 64" "n div 64"]
    have "(n + 63) div 64 = n div 64 + 1" "(n + 1 + 63) div 64 = n div 64 + 1" using assms by (simp_all add: add.assoc [symmetric])
    then show "word_count (n + 1) = word_count n" "n div 64 < word_count n" by (simp_all add: word_count_def)
  qed
  then have "\<not> word_count (n + 1) > length (nb_data (all_null n))" by (simp add: all_null_def)
  then show ?thesis using w
    by (simp add: is_null_def bitmap_push_def bitmap_resize_def get_position_def all_null_def vec_resize_def)
qed

end
