(* ===== verification/Rle.thy ===== *)
theory Rle
  imports Bytes NullBitmap
begin

text \<open>
  Run-length encoded columns of \<open>linkrs-storage/src/encoding/rle.rs\<close>: the encoder with
  its cumulative counts and the binary search on them, the integer and the boolean
  column with their null bitmaps, and the byte format both are stored in.  A column
  relies on its bitmap only through the laws of the locale \<open>null_flags\<close>.  Of the value
  type only the constructors the columns look at are named.
\<close>

subsection \<open>Encoder\<close>

record 'a rle_run =
  run_value :: 'a
  run_count :: nat

record 'a rle_encoder =
  runs :: "'a rle_run list"
  cumulative_counts :: "nat list"
  total_count :: nat

definition encoder_new :: "'a rle_encoder" where
  "encoder_new = \<lparr> runs = [], cumulative_counts = [], total_count = 0 \<rparr>"

definition encode :: "'a \<Rightarrow> 'a rle_encoder \<Rightarrow> 'a rle_encoder" where
  "encode v e = (let n = total_count e + 1 in
     if runs e \<noteq> [] \<and> run_value (last (runs e)) = v
     then e\<lparr> total_count := n,
             runs := butlast (runs e) @ [(last (runs e))\<lparr> run_count := run_count (last (runs e)) + 1 \<rparr>],
             cumulative_counts := (if cumulative_counts e = [] then []
               else butlast (cumulative_counts e) @ [last (cumulative_counts e) + 1]) \<rparr>
     else e\<lparr> total_count := n, runs := runs e @ [\<lparr> run_value = v, run_count = 1 \<rparr>],
             cumulative_counts := cumulative_counts e @ [n] \<rparr>)"

text \<open>\<open>slice::binary_search\<close> on an increasing slice: the index of the element, or the
  index at which it would be inserted.\<close>

definition binary_search :: "nat list \<Rightarrow> nat \<Rightarrow> (nat, nat) result" where
  "binary_search xs x = (let i = length (takeWhile (\<lambda>y. y < x) xs) in
     if i < length xs \<and> xs ! i = x then Inr i else Inl i)"

definition rle_get :: "'a rle_encoder \<Rightarrow> nat \<Rightarrow> 'a option" where
  "rle_get e row = (if row \<ge> total_count e then None
     else let idx = (case binary_search (cumulative_counts e) (row + 1) of Inr i \<Rightarrow> i | Inl i \<Rightarrow> i) in
       if idx < length (runs e) then Some (run_value (runs e ! idx)) else None)"

fun sums_from :: "nat \<Rightarrow> 'a rle_run list \<Rightarrow> nat list" where
  "sums_from s [] = []"
| "sums_from s (r # rs) = (s + run_count r) # sums_from (s + run_count r) rs"

definition rebuild_cumulative_counts :: "'a rle_encoder \<Rightarrow> 'a rle_encoder" where
  "rebuild_cumulative_counts e = e\<lparr> cumulative_counts := sums_from 0 (runs e),
     total_count := foldl (\<lambda>s r. s + run_count r) 0 (runs e) \<rparr>"

subsection \<open>Columns\<close>

datatype 'o cell_value = BoolV bool | SmallIntV "16 word" | IntV "32 word" | BigIntV i64 | OtherV 'o

datatype column_error = TypeMismatch | UnexpectedEof | InvalidBoolean byte | EmptyRun | RowCountMismatch

record 'a rle_column =
  col_encoder :: "'a rle_encoder"
  col_nulls :: null_bitmap

definition column_new :: "'a rle_column" where
  "column_new = \<lparr> col_encoder = encoder_new, col_nulls = bitmap_new \<rparr>"

definition add_row :: "bool \<Rightarrow> 'a \<Rightarrow> 'a rle_column \<Rightarrow> 'a rle_column" where
  "add_row flg v c = c\<lparr> col_nulls := bitmap_push flg (col_nulls c), col_encoder := encode v (col_encoder c) \<rparr>"

definition int_append :: "'o cell_value option \<Rightarrow> i64 rle_column \<Rightarrow> (column_error, i64 rle_column) result" where
  "int_append v c = (case v of
      Some (SmallIntV w) \<Rightarrow> Inr (add_row False (scast w) c)
    | Some (IntV w) \<Rightarrow> Inr (add_row False (scast w) c)
    | Some (BigIntV w) \<Rightarrow> Inr (add_row False w c)
    | Some _ \<Rightarrow> Inl TypeMismatch
    | None \<Rightarrow> Inr (add_row True 0 c))"

definition int_get :: "i64 rle_column \<Rightarrow> nat \<Rightarrow> 'o cell_value option" where
  "int_get c row = (if row \<ge> total_count (col_encoder c) then None
     else if is_null (col_nulls c) row then None
     else map_option BigIntV (rle_get (col_encoder c) row))"

definition bool_append :: "'o cell_value option \<Rightarrow> bool rle_column \<Rightarrow> (column_error, bool rle_column) result" where
  "bool_append v c = (case v of
      Some (BoolV b) \<Rightarrow> Inr (add_row False b c)
    | Some _ \<Rightarrow> Inl TypeMismatch
    | None \<Rightarrow> Inr (add_row True False c))"

definition bool_get :: "bool rle_column \<Rightarrow> nat \<Rightarrow> 'o cell_value option" where
  "bool_get c row = (if row \<ge> total_count (col_encoder c) \<or> is_null (col_nulls c) row then None
     else map_option BoolV (rle_get (col_encoder c) row))"

subsection \<open>Byte format\<close>

definition put_u32 :: "nat \<Rightarrow> byte list" where
  "put_u32 n = le_enc 4 (n mod 2 ^ 32)"

definition put_bitmap :: "null_bitmap \<Rightarrow> byte list" where
  "put_bitmap b = put_u32 (nb_len b) @ concat (map u64_to_le_bytes (nb_data b))"

definition int_serialize_meta :: "i64 rle_column \<Rightarrow> byte list" where
  "int_serialize_meta c = put_u32 (length (runs (col_encoder c))) @
     concat (map (\<lambda>r. u64_to_le_bytes (run_value r) @ put_u32 (run_count r)) (runs (col_encoder c))) @
     put_bitmap (col_nulls c)"

definition bool_serialize_meta :: "bool rle_column \<Rightarrow> byte list" where
  "bool_serialize_meta c = put_u32 (length (runs (col_encoder c))) @
     concat (map (\<lambda>r. (if run_value r then 1 else 0) # put_u32 (run_count r)) (runs (col_encoder c))) @
     put_bitmap (col_nulls c)"

text \<open>Reading consumes a prefix of the input; \<open>read_exact\<close> fails when too little is left.\<close>

type_synonym 'a reader = "byte list \<Rightarrow> (column_error, 'a \<times> byte list) result"

definition read_exact :: "nat \<Rightarrow> byte list reader" where
  "read_exact n bs = (if length bs < n then Inl UnexpectedEof else Inr (take n bs, drop n bs))"

definition get_u32 :: "nat reader" where
  "get_u32 bs = bind_result (read_exact 4 bs) (\<lambda>(x, rest). Inr (le_val x, rest))"

definition get_word :: "u64 reader" where
  "get_word bs = bind_result (read_exact 8 bs) (\<lambda>(x, rest). Inr (u64_from_le_bytes x, rest))"

definition get_int_run :: "i64 rle_run reader" where
  "get_int_run bs = bind_result (get_word bs) (\<lambda>(v, b1). bind_result (get_u32 b1) (\<lambda>(n, b2).
     Inr (\<lparr> run_value = v, run_count = n \<rparr>, b2)))"

definition get_bool_run :: "bool rle_run reader" where
  "get_bool_run bs = bind_result (read_exact 1 bs) (\<lambda>(v, b1).
     if hd v > 1 then Inl (InvalidBoolean (hd v))
     else bind_result (get_u32 b1) (\<lambda>(n, b2).
       if n = 0 then Inl EmptyRun else Inr (\<lparr> run_value = (hd v \<noteq> 0), run_count = n \<rparr>, b2)))"

fun get_many :: "'a reader \<Rightarrow> nat \<Rightarrow> 'a list reader" where
  "get_many rd 0 bs = Inr ([], bs)"
| "get_many rd (Suc n) bs = bind_result (rd bs) (\<lambda>(x, b1). bind_result (get_many rd n b1) (\<lambda>(xs, b2). Inr (x # xs, b2)))"

definition int_deserialize_meta :: "i64 rle_column reader" where
  "int_deserialize_meta bs = bind_result (get_u32 bs) (\<lambda>(count, b1).
     bind_result (get_many get_int_run count b1) (\<lambda>(rs, b2).
     bind_result (get_u32 b2) (\<lambda>(len, b3).
     bind_result (get_many get_word (word_count len) b3) (\<lambda>(ws, b4).
       Inr (\<lparr> col_encoder = rebuild_cumulative_counts (encoder_new\<lparr> runs := rs \<rparr>),
              col_nulls = \<lparr> nb_data = ws, nb_len = len \<rparr> \<rparr>, b4)))))"

definition bool_deserialize_meta :: "bool rle_column reader" where
  "bool_deserialize_meta bs = bind_result (get_u32 bs) (\<lambda>(count, b1).
     bind_result (get_many get_bool_run count b1) (\<lambda>(rs, b2).
     bind_result (get_u32 b2) (\<lambda>(len, b3).
     bind_result (get_many get_word (word_count len) b3) (\<lambda>(ws, b4).
       let e = rebuild_cumulative_counts (encoder_new\<lparr> runs := rs \<rparr>) in
       if len \<noteq> total_count e then Inl RowCountMismatch
       else Inr (\<lparr> col_encoder = e, col_nulls = \<lparr> nb_data = ws, nb_len = len \<rparr> \<rparr>, b4)))))"

subsection \<open>The encoder as a list\<close>

definition expand :: "'a rle_run list \<Rightarrow> 'a list" where
  "expand rs = concat (map (\<lambda>r. replicate (run_count r) (run_value r)) rs)"

definition enc_ok :: "'a rle_encoder \<Rightarrow> bool" where
  "enc_ok e \<longleftrightarrow> cumulative_counts e = sums_from 0 (runs e) \<and> total_count e = length (expand (runs e)) \<and>
     (\<forall>r \<in> set (runs e). 0 < run_count r)"

lemma expand_simps [simp]:
  "expand [] = []" "expand (r # rs) = replicate (run_count r) (run_value r) @ expand rs" "expand (xs @ ys) = expand xs @ expand ys"
  by (simp_all add: expand_def)

lemma sums_append: "sums_from s (xs @ ys) = sums_from s xs @ sums_from (s + length (expand xs)) ys"
  by (induction xs arbitrary: s) (simp_all add: add.assoc)

lemma sums_length [simp]: "length (sums_from s rs) = length rs"
  by (induction rs arbitrary: s) simp_all

lemma encode_ok:
  assumes "enc_ok e"
  shows "enc_ok (encode v e)" "expand (runs (encode v e)) = expand (runs e) @ [v]"
proof -
  show "expand (runs (encode v e)) = expand (runs e) @ [v]"
  proof (cases "runs e \<noteq> [] \<and> run_value (last (runs e)) = v")
    case True
    then obtain rs r where r: "runs e = rs @ [r]" "run_value r = v" by (metis append_butlast_last_id)
    then show ?thesis by (simp add: encode_def Let_def replicate_append_same [symmetric])
  next
    case False
    then show ?thesis by (auto simp: encode_def Let_def)
  qed
  then show "enc_ok (encode v e)" using assms
    by (cases "runs e" rule: rev_cases) (auto simp: enc_ok_def encode_def Let_def sums_append)
qed

lemma search_run:
  "i < length (expand rs) \<Longrightarrow> (let k = length (takeWhile (\<lambda>y. y < s + i + 1) (sums_from s rs)) in
     k < length rs \<and> run_value (rs ! k) = expand rs ! i)"
proof (induction rs arbitrary: s i)
  case (Cons r rs)
  show ?case
  proof (cases "i < run_count r")
    case True
    then show ?thesis by (simp add: nth_append)
  next
    case False
    then have "i - run_count r < length (expand rs)" using Cons.prems by auto
    from Cons.IH [OF this, of "s + run_count r"] False show ?thesis by (simp add: nth_append Let_def)
  qed
qed simp

lemma search_index: "(case binary_search xs x of Inr i \<Rightarrow> i | Inl i \<Rightarrow> i) = length (takeWhile (\<lambda>y. y < x) xs)"
  by (simp add: binary_search_def Let_def)

lemma rle_get_ok:
  assumes "enc_ok e"
  shows "rle_get e i = (if i < length (expand (runs e)) then Some (expand (runs e) ! i) else None)"
  using assms search_run [of i "runs e" 0] by (auto simp: rle_get_def enc_ok_def Let_def search_index)

lemma rebuild_ok:
  assumes "enc_ok e"
  shows "rebuild_cumulative_counts (encoder_new\<lparr> runs := runs e \<rparr>) = e"
proof -
  have "foldl (\<lambda>s r. s + run_count r) n rs = n + length (expand rs)" for n and rs :: "'a rle_run list"
    by (induction rs arbitrary: n) simp_all
  then show ?thesis using assms by (simp add: rebuild_cumulative_counts_def encoder_new_def enc_ok_def)
qed

subsection \<open>Null flags and the rows of a column\<close>

locale null_flags =
  fixes ok :: "'b \<Rightarrow> bool" and empty :: 'b and push :: "bool \<Rightarrow> 'b \<Rightarrow> 'b" and test :: "'b \<Rightarrow> nat \<Rightarrow> bool" and size_of :: "'b \<Rightarrow> nat"
  assumes empty_ok: "ok empty" and empty_size: "size_of empty = 0"
    and push_ok: "ok b \<Longrightarrow> ok (push f b)" and push_size: "ok b \<Longrightarrow> size_of (push f b) = size_of b + 1"
    and test_push: "ok b \<Longrightarrow> i \<le> size_of b \<Longrightarrow> test (push f b) i = (if i = size_of b then f else test b i)"
begin

lemma push_all: "ok (fold push fs empty) \<and> size_of (fold push fs empty) = length fs \<and> (\<forall>i < length fs. test (fold push fs empty) i = fs ! i)"
proof (induction fs rule: rev_induct)
  case Nil
  then show ?case by (simp add: empty_ok empty_size)
next
  case (snoc f fs)
  then show ?case by (auto simp: push_ok push_size test_push nth_append less_Suc_eq)
qed

end

definition packed :: "null_bitmap \<Rightarrow> bool" where
  "packed b \<longleftrightarrow> nb_clean b \<and> length (nb_data b) = word_count (nb_len b)"

lemma push_words: "length (nb_data b) = word_count (nb_len b) \<Longrightarrow> length (nb_data (bitmap_push f b)) = word_count (nb_len (bitmap_push f b))"
  by (auto simp: bitmap_push_def get_position_def Let_def word_count_def)

interpretation nf: null_flags packed bitmap_new bitmap_push is_null nb_len
proof
  fix b f i
  assume b: "packed b"
  then have c: "nb_clean b" "nb_ok b" by (simp_all add: packed_def nb_clean_def)
  have p: "nb_clean (bitmap_push f b)" "nb_ok (bitmap_push f b)" "nb_view (bitmap_push f b) = nb_view b @ [f]"
    using push_view [OF c(1)] by (auto simp: nb_clean_def)
  show "packed (bitmap_push f b)" using b p(1) push_words by (simp add: packed_def)
  show l: "nb_len (bitmap_push f b) = nb_len b + 1" using p(3) by (metis Suc_eq_plus1 length_append_singleton view_length)
  assume "i \<le> nb_len b"
  then show "is_null (bitmap_push f b) i = (if i = nb_len b then f else is_null b i)"
    using is_null_view [OF p(2), of i] is_null_view [OF c(2), of i] l p(3) by (auto simp: nth_append)
qed (simp_all add: packed_def new_view bitmap_new_def word_count_def nb_clean_def nb_ok_def flag_def)

definition rows_ok :: "'a rle_column \<Rightarrow> (bool \<times> 'a) list \<Rightarrow> bool" where
  "rows_ok c rows \<longleftrightarrow> col_nulls c = fold bitmap_push (map fst rows) bitmap_new \<and> enc_ok (col_encoder c) \<and>
     expand (runs (col_encoder c)) = map snd rows"

lemma rows_new: "rows_ok column_new []"
  by (simp add: rows_ok_def column_new_def encoder_new_def enc_ok_def)

lemma rows_add: "rows_ok c rows \<Longrightarrow> rows_ok (add_row f v c) (rows @ [(f, v)])"
  using encode_ok [of "col_encoder c" v] by (simp add: rows_ok_def add_row_def)

lemma rows_read:
  assumes "rows_ok c rows"
  shows "total_count (col_encoder c) = length rows" "nb_len (col_nulls c) = length rows" "packed (col_nulls c)"
    "i < length rows \<Longrightarrow> is_null (col_nulls c) i = fst (rows ! i)" "i < length rows \<Longrightarrow> rle_get (col_encoder c) i = Some (snd (rows ! i))"
  using assms nf.push_all [of "map fst rows"] rle_get_ok [of "col_encoder c" i] by (auto simp: rows_ok_def enc_ok_def)

fun append_all :: "('v \<Rightarrow> 'c \<Rightarrow> (column_error, 'c) result) \<Rightarrow> 'v list \<Rightarrow> 'c \<Rightarrow> (column_error, 'c) result" where
  "append_all f [] c = Inr c"
| "append_all f (v # vs) c = bind_result (f v c) (append_all f vs)"

lemma append_all_rows:
  assumes step: "\<And>v c c'. f v c = Inr c' \<Longrightarrow> c' = add_row (fst (row v)) (snd (row v)) c"
  shows "append_all f vs c = Inr c' \<Longrightarrow> rows_ok c rows \<Longrightarrow> rows_ok c' (rows @ map row vs)"
proof (induction vs arbitrary: c rows)
  case (Cons v vs)
  then obtain c1 where c1: "f v c = Inr c1" "append_all f vs c1 = Inr c'" by auto
  have "rows_ok c1 (rows @ [row v])" using rows_add [OF Cons.prems(2), of "fst (row v)" "snd (row v)"] step [OF c1(1)] by simp
  from Cons.IH [OF c1(2) this] show ?case by simp
qed simp

fun widen :: "'o cell_value \<Rightarrow> i64 option" where
  "widen (SmallIntV w) = Some (scast w)"
| "widen (IntV w) = Some (scast w)"
| "widen (BigIntV w) = Some w"
| "widen _ = None"

definition int_row :: "'o cell_value option \<Rightarrow> bool \<times> i64" where
  "int_row v = (case v of None \<Rightarrow> (True, 0) | Some x \<Rightarrow> (False, the (widen x)))"

definition bool_row :: "'o cell_value option \<Rightarrow> bool \<times> bool" where
  "bool_row v = (case v of Some (BoolV b) \<Rightarrow> (False, b) | _ \<Rightarrow> (True, False))"

lemma int_append_row: "int_append v c = Inr c' \<Longrightarrow> c' = add_row (fst (int_row v)) (snd (int_row v)) c \<and> (v \<noteq> None \<longrightarrow> widen (the v) \<noteq> None)"
  by (auto simp: int_append_def int_row_def split: option.splits cell_value.splits)

lemma bool_append_row: "bool_append v c = Inr c' \<Longrightarrow> c' = add_row (fst (bool_row v)) (snd (bool_row v)) c \<and> (v \<noteq> None \<longrightarrow> (\<exists>b. v = Some (BoolV b)))"
  by (auto simp: bool_append_def bool_row_def split: option.splits cell_value.splits)

lemma append_all_accepted: "append_all f vs c = Inr c' \<Longrightarrow> v \<in> set vs \<Longrightarrow> \<exists>c0 c1. f v c0 = Inr c1"
  by (induction vs arbitrary: c) auto

lemma int_rows: "append_all int_append vs column_new = Inr c \<Longrightarrow> rows_ok c (map int_row vs)"
  using append_all_rows [of int_append int_row vs column_new c "[]"] int_append_row rows_new by fastforce

lemma bool_rows: "append_all bool_append vs column_new = Inr c \<Longrightarrow> rows_ok c (map bool_row vs)"
  using append_all_rows [of bool_append bool_row vs column_new c "[]"] bool_append_row rows_new by fastforce

subsection \<open>Reading back the bytes\<close>

lemma read_exact_append: "length xs = n \<Longrightarrow> read_exact n (xs @ rest) = Inr (xs, rest)"
  by (simp add: read_exact_def)

lemma get_put_u32 [simp]: "n < 2 ^ 32 \<Longrightarrow> get_u32 (put_u32 n @ rest) = Inr (n, rest)"
  by (simp add: get_u32_def put_u32_def read_exact_append le_val_enc)

lemma get_put_word [simp]: "get_word (u64_to_le_bytes w @ rest) = Inr (w, rest)"
  by (simp add: get_word_def read_exact_append)

lemma get_many_concat:
  "(\<And>x r. x \<in> set xs \<Longrightarrow> rd (enc x @ r) = Inr (x, r)) \<Longrightarrow> get_many rd (length xs) (concat (map enc xs) @ rest) = Inr (xs, rest)"
  by (induction xs) simp_all

lemma get_put_bitmap:
  assumes "packed b" "nb_len b < 2 ^ 32"
  shows "bind_result (get_u32 (put_bitmap b @ rest)) (\<lambda>(n, b3). bind_result (get_many get_word (word_count n) b3) (\<lambda>(ws, b4). f n ws b4)) =
    f (nb_len b) (nb_data b) rest"
  using assms get_many_concat [of "nb_data b" get_word u64_to_le_bytes rest] by (simp add: put_bitmap_def packed_def)

lemma run_bounds:
  assumes "rows_ok c rows" "length rows < 2 ^ 32"
  shows "length (runs (col_encoder c)) < 2 ^ 32" "r \<in> set (runs (col_encoder c)) \<Longrightarrow> run_count r < 2 ^ 32"
    "r \<in> set (runs (col_encoder c)) \<Longrightarrow> 0 < run_count r"
proof -
  let ?rs = "runs (col_encoder c)"
  have e: "length (expand ?rs) = length rows" "\<forall>r \<in> set ?rs. 0 < run_count r" using assms(1) by (auto simp: rows_ok_def enc_ok_def)
  have "(\<forall>r \<in> set rs. 0 < run_count r) \<Longrightarrow> length rs \<le> length (expand rs) \<and> (\<forall>r \<in> set rs. run_count r \<le> length (expand rs))"
    for rs :: "'a rle_run list" by (induction rs) fastforce+
  from this [of ?rs] e assms(2) show "length ?rs < 2 ^ 32" "r \<in> set ?rs \<Longrightarrow> run_count r < 2 ^ 32" "r \<in> set ?rs \<Longrightarrow> 0 < run_count r"
    by fastforce+
qed

lemma int_meta_roundtrip:
  assumes "rows_ok c rows" "length rows < 2 ^ 32"
  shows "int_deserialize_meta (int_serialize_meta c @ rest) = Inr (c, rest)"
proof -
  let ?rs = "runs (col_encoder c)" and ?enc = "\<lambda>r. u64_to_le_bytes (run_value r) @ put_u32 (run_count r)"
  have "get_many get_int_run (length ?rs) (concat (map ?enc ?rs) @ put_bitmap (col_nulls c) @ rest) = Inr (?rs, put_bitmap (col_nulls c) @ rest)"
    by (rule get_many_concat) (use run_bounds(2) [OF assms] in \<open>simp add: get_int_run_def\<close>)
  then show ?thesis
    using assms run_bounds(1) [OF assms] rows_read(2,3) [OF assms(1)] rebuild_ok [of "col_encoder c"]
    by (simp add: int_deserialize_meta_def int_serialize_meta_def get_put_bitmap rows_ok_def)
qed

lemma bool_meta_roundtrip:
  assumes "rows_ok c rows" "length rows < 2 ^ 32"
  shows "bool_deserialize_meta (bool_serialize_meta c @ rest) = Inr (c, rest)"
proof -
  let ?rs = "runs (col_encoder c)" and ?enc = "\<lambda>r. (if run_value r then 1 else 0) # put_u32 (run_count r)"
  have "get_bool_run (?enc r @ b) = Inr (r, b)" if "r \<in> set ?rs" for r b
    using run_bounds(2,3) [OF assms that] read_exact_append [of "[if run_value r then 1 else 0]" 1] by (simp add: get_bool_run_def)
  then have "get_many get_bool_run (length ?rs) (concat (map ?enc ?rs) @ put_bitmap (col_nulls c) @ rest) =
      Inr (?rs, put_bitmap (col_nulls c) @ rest)" by (rule get_many_concat)
  then show ?thesis
    using assms run_bounds(1) [OF assms] rows_read(1-3) [OF assms(1)] rebuild_ok [of "col_encoder c"]
    by (simp add: bool_deserialize_meta_def bool_serialize_meta_def get_put_bitmap rows_ok_def)
qed

subsection \<open>Properties\<close>

text \<open>
  C23.  Run-length encoded columns read back.  After any sequence of accepted appends the
  integer column answers, for each row, the appended integer widened to 64 bits or null,
  and the boolean column the appended value or null; past the last row both answer null.
  The read searches the cumulative counts and never scans the runs.
\<close>

theorem rle_columns_read_back:
  fixes vs us :: "'o cell_value option list"
  assumes "append_all int_append vs column_new = Inr c" "append_all bool_append us column_new = Inr d"
  shows "int_get c i = (if i < length vs then map_option BigIntV (Option.bind (vs ! i) widen) else None :: 'o cell_value option) \<and>
    bool_get d j = (if j < length us then us ! j else None)"
proof
  note r = rows_read [OF int_rows [OF assms(1)]]
  have "widen (the (vs ! i)) \<noteq> None" if "i < length vs" "vs ! i \<noteq> None"
  proof -
    obtain c0 c1 where "int_append (vs ! i) c0 = Inr c1" using append_all_accepted [OF assms(1), of "vs ! i"] \<open>i < length vs\<close> by auto
    from int_append_row [OF this] that(2) show ?thesis by simp
  qed
  then show "int_get c i = (if i < length vs then map_option BigIntV (Option.bind (vs ! i) widen) else None :: 'o cell_value option)"
    using r(1) r(4,5) [of i] by (auto simp: int_get_def int_row_def split: option.splits)
next
  note r = rows_read [OF bool_rows [OF assms(2)]]
  have "\<exists>b. us ! j = Some (BoolV b)" if "j < length us" "us ! j \<noteq> None"
  proof -
    obtain c0 c1 where "bool_append (us ! j) c0 = Inr c1" using append_all_accepted [OF assms(2), of "us ! j"] \<open>j < length us\<close> by auto
    from bool_append_row [OF this] that(2) show ?thesis by simp
  qed
  then show "bool_get d j = (if j < length us then us ! j else None)"
    using r(1) r(4,5) [of j] by (cases "us ! j") (auto simp: bool_get_def bool_row_def)
qed

theorem rle_columns_read_back_witness:
  "\<exists>c d. append_all int_append [Some (IntV 7), Some (SmallIntV 7), None, Some (BigIntV 5 :: unit cell_value)] column_new = Inr c \<and>
     append_all bool_append [Some (BoolV True), None :: unit cell_value option] column_new = Inr d \<and>
     int_get c 1 = Some (BigIntV 7 :: unit cell_value) \<and> int_get c 2 = (None :: unit cell_value option) \<and>
     bool_get d 0 = Some (BoolV True :: unit cell_value)"
proof -
  let ?vs = "[Some (IntV 7), Some (SmallIntV 7), None, Some (BigIntV 5 :: unit cell_value)]"
  let ?us = "[Some (BoolV True), None :: unit cell_value option]"
  obtain c where c: "append_all int_append ?vs column_new = Inr c" by (simp add: int_append_def)
  obtain d where d: "append_all bool_append ?us column_new = Inr d" by (simp add: bool_append_def)
  have "int_get c 1 = Some (BigIntV 7 :: unit cell_value)" "int_get c 2 = (None :: unit cell_value option)" "bool_get d 0 = Some (BoolV True :: unit cell_value)"
    using rle_columns_read_back [OF c d, of 1 0] rle_columns_read_back [OF c d, of 2 0] by simp_all
  with c d show ?thesis by blast
qed

text \<open>
  C24.  Stored columns are restored.  For a column built by appends of fewer than \<open>2 ^ 32\<close>
  rows, reading the bytes written for it gives the column back, with its runs, counts and
  bitmap, and leaves whatever follows in the input.
\<close>

theorem rle_meta_roundtrip:
  assumes "append_all int_append vs column_new = Inr c" "append_all bool_append us column_new = Inr d"
    "length vs < 2 ^ 32" "length us < 2 ^ 32"
  shows "int_deserialize_meta (int_serialize_meta c @ rest) = Inr (c, rest) \<and>
    bool_deserialize_meta (bool_serialize_meta d @ rest) = Inr (d, rest)"
  using int_meta_roundtrip [OF int_rows [OF assms(1)]] bool_meta_roundtrip [OF bool_rows [OF assms(2)]] assms(3,4) by simp

theorem rle_meta_roundtrip_witness:
  "\<exists>c d. append_all int_append [Some (IntV 7 :: unit cell_value), None] column_new = Inr c \<and>
     append_all bool_append [Some (BoolV True :: unit cell_value)] column_new = Inr d \<and>
     int_deserialize_meta (int_serialize_meta c @ [9]) = Inr (c, [9]) \<and> bool_deserialize_meta (bool_serialize_meta d @ [9]) = Inr (d, [9])"
proof -
  obtain c where c: "append_all int_append [Some (IntV 7 :: unit cell_value), None] column_new = Inr c" by (simp add: int_append_def)
  obtain d where d: "append_all bool_append [Some (BoolV True :: unit cell_value)] column_new = Inr d" by (simp add: bool_append_def)
  from rle_meta_roundtrip [OF c d, of "[9]"] c d show ?thesis by force
qed

end
