(* ===== verification/Spec2Isabelle.thy ===== *)
theory Spec2Isabelle
  imports Visibility StagedSavepoint WalOverwrite WalTotal TxnOutcome TxnScopes Rle
begin

text \<open>
  \<^bold>\<open>linkrs: the transactional core of a graph database\<close>

  \<open>linkrs\<close> is a graph database in Rust.  The development covers the part that makes its
  transactions atomic, isolated and durable: the crate \<open>linkrs-transaction\<close> (multi-version
  timestamps, transaction contexts, certification, the manager and its commit protocol, the
  write-ahead log), the pieces of \<open>linkrs-storage\<close> it works on (row visibility, garbage
  collection cutoffs, the staging buffer, run-length columns) and the shared types of
  \<open>linkrs-core\<close> (identifiers, log record formats, the null bitmap).  Sources are under
  \<open>src/crates/\<close>; below, \<open>T/\<close>, \<open>S/\<close> and \<open>C/\<close> abbreviate the \<open>src/\<close> directories of these
  three crates.

  \<^bold>\<open>How the parts interact\<close>

  A transaction begins with a timestamp of the version manager, which also registers it with
  the snapshot tracker, and a writer takes a slot of the checkpoint gate.  Its context collects
  write and read sets, a mutation journal, an undo log and savepoints, while the storage keeps
  its rows in a staging buffer.  Commit certifies the write set, writes the commit record
  through the sink to the log, reserves a commit timestamp, certifies again under it, finalizes
  the storage and publishes the timestamp, which moves the read frontier.  Readers decide by
  visibility predicates at their snapshot; garbage collection uses the tracker's minimum.
  After a crash the log is scanned and the committed transactions are replayed.

  \<^bold>\<open>Theories, definitions and source\<close>

  \<^item> \<open>Prelude\<close>: results, bounded integers, the ordered map \<open>bmap\<close> that stands for
    \<open>BTreeMap\<close>, \<open>HashMap\<close> and \<open>DashMap\<close>.  \<open>Bytes\<close>: fixed-width integers, slice comparison,
    UTF-8 and decimal numbers of the standard library.
  \<^item> \<open>SnapshotTracker\<close> (\<open>T/snapshot_tracker.rs\<close>): reference-counted snapshots and the cached
    minimum.  \<open>VersionManager\<close> (\<open>T/mvcc.rs\<close>, \<open>T/mvcc/\<close>): the record \<open>version_manager\<close>, one
    definition per method, and \<open>vm_step\<close>, any interleaving of them.  \<open>Visibility\<close>
    (\<open>S/mvcc_visibility.rs\<close>, \<open>T/mvcc_watermarks.rs\<close>, \<open>S/engine/gc_coordinator.rs\<close>).
  \<^item> \<open>StorageIds\<close> (\<open>C/types/storage_ids.rs\<close>), \<open>WriteSet\<close> (\<open>T/types/writeset.rs\<close>,
    \<open>T/conflict.rs\<close>), \<open>WalTypes\<close> (\<open>C/wal/\<close>), \<open>UndoLog\<close> (\<open>T/undo_log.rs\<close>,
    \<open>T/undo_log/file_backed.rs\<close>), \<open>Journal\<close> (\<open>T/mutation_journal.rs\<close>, \<open>T/wal/buffer.rs\<close>),
    \<open>TxnTypes\<close> and \<open>TxnContext\<close> (\<open>T/context.rs\<close>, \<open>T/context/\<close>).
  \<^item> \<open>Staging\<close> and \<open>StagedSavepoint\<close> (\<open>S/engine/graph_storage/context/txn_staging.rs\<close>,
    \<open>S/engine/transaction/undo.rs\<close>).
  \<^item> \<open>WalRecord\<close>, \<open>WalWriter\<close>, \<open>WalOverwrite\<close> (\<open>T/wal/writer/\<close>), \<open>WalScan\<close>, \<open>WalLog\<close>,
    \<open>WalTotal\<close> (\<open>T/wal/parser/\<close>), \<open>WalRecovery\<close> (\<open>T/wal/commit.rs\<close>, \<open>T/wal/recovery/\<close>): a
    segment file is a byte list, the writer a record around it.
  \<^item> \<open>Certifier\<close> (\<open>T/certify.rs\<close>, \<open>T/certify/\<close>) with \<open>cert_run\<close>, its runs;
    \<open>CheckpointGate\<close> (\<open>T/checkpoint.rs\<close>) with \<open>gate_step\<close>, the interleaving of the atomic
    accesses of writers and of the draining checkpoint.
  \<^item> \<open>TxnManager\<close>, \<open>TxnLeases\<close>, \<open>TxnOutcome\<close> (\<open>T/manager.rs\<close>, \<open>T/manager/\<close>,
    \<open>T/cleaner.rs\<close>): the record \<open>txn_manager\<close> composes version manager, gate, certifier and
    contexts; \<open>commit_transaction\<close> is cut at the source's comments into admission,
    durability, reservation, review, finalization and publication; \<open>mgr_run\<close> is every sequence
    of begins, work, commits, aborts, recovery, cleanup and shutdown.  \<open>TxnScopes\<close> adds the
    operations around a running transaction: statement scopes, owners, savepoints, long-read
    leases, checkpoint transactions and the dispatching entry points.
  \<^item> \<open>NullBitmap\<close> (\<open>C/null_bitmap.rs\<close>) and \<open>Rle\<close> (\<open>S/encoding/rle.rs\<close>).

  Errors are values of a sum type, \<open>Inl\<close> the error.  A critical section is one transition; a
  caller that parks returns no new state.  Timestamps, counters and lengths are naturals with
  their 64-bit bounds written out; bits and bytes are words.

  \<^bold>\<open>What the lemmas show\<close>

  \<^item> Isolation: the read frontier is exactly the last timestamp below every pending slot and
    never moves over one; snapshots are repeatable and see no uncommitted row; two published
    transactions that overlap have no conflicting write sets; garbage collection reclaims
    nothing a live snapshot sees, nor what a later reader sees as long as reservations are
    settled no later than their start slots; the tracker is a multiset of held snapshots.
  \<^item> Atomicity: a savepoint rollback restores journal, sets, undo log and staged rows; the undo
    log is a stack and replays in reverse; a refused commit publishes no timestamp.
  \<^item> Durability: an acknowledged commit has been accepted and finalized by the sink; whatever
    prefix of the log a crash leaves (past the file header), recovery replays exactly the transactions whose commit
    record is complete; the log reads back, and the scan ends on every input.
  \<^item> Progress and resources: write leases are balanced through every failure; a drained gate
    excludes writers, and a waiting drain completes; a statement scope pins its snapshot while
    it runs and leaves the reference counts as it found them.
  \<^item> Storage forms: the null bitmap is a list of flags, run-length columns read back and
    survive their byte format, identifiers round-trip.
  \<^item> Where the code falls short of what it says, a lemma shows the behaviour: the final review
    refuses a commit that is already durable, a torn first transaction is replayed, an
    asynchronous entry overwrites a batch, a release can miss the draining checkpoint, an early
    savepoint keeps staged rows, an admitted reader races with garbage collection, a
    read-committed writer never refreshes its snapshot, overlapping checkpoints open the gate
    under each other.

  Interfaces are locales, interpreted on the model: \<open>snapshot_registry\<close> (the tracker towards
  the version manager), \<open>conflict_relation\<close> (write sets towards the certifier),
  \<open>undo_stack\<close>, \<open>append_log\<close> (journal and other logs towards savepoints), \<open>null_flags\<close>
  (the bitmap towards the columns).

  \<^bold>\<open>Bounds and fuel\<close>

  Fuel appears once: the undo loop runs with one turn more than the log has entries, and each
  turn pops one, so it never runs out (\<open>execute_undo_replays\<close>).  Every other loop is structural
  recursion or a \<open>function\<close> with its termination proof: the frontier loop removes a slot per
  turn, the log scan consumes input; the drain of the gate is a step relation.  Hypotheses on sizes are the
  widths of the format (a payload below the maximal record, fewer than \<open>2 ^ 32\<close> rows) and the
  identifier counter not wrapping.

  \<^bold>\<open>Arguments of the model\<close>

  The postcard codec, zstd and the checksum are arguments with their laws as hypotheses
  (\<open>codec_ok\<close>, \<open>serde_ok\<close>); the clock, the commit sink, the sync rollback, commit vetoes, the
  storage target of an undo and the storage operation a redo entry runs are arguments without
  assumptions.  So are the callbacks of a checkpoint and the wait of its drain, which may change
  the manager and so stand for other threads.

  \<^bold>\<open>Not modelled\<close>

  Group commit, the flush thread, archiving, directory handling and thread pools (operating
  system effects); statistics, monitoring, logging texts and memory accounting;
  installing staged rows at commit.
  Outside this core: vertex and edge tables, indexes, the other column encodings (ALP, FSST and
  the selector use floating point or third-party bit vectors) and page persistence of
  \<open>linkrs-storage\<close>; values, schema metadata and functions of \<open>linkrs-core\<close>; the query
  language (\<open>linkrs-query\<close>; \<open>linkrs-grammar\<close> builds a generated parser), the server, wire
  protocol, clients, shell and user interface, synchronization with external indexes, full text,
  vectors, metrics, configuration and migration.  They call the core or wrap services and take
  no part in the guarantees above.
\<close>

end
